(* ===== verification/Prelude.thy ===== *)
theory Prelude
  imports Main "HOL-Library.Word" "HOL-Library.Monad_Syntax"
begin

text \<open>
  Shared vocabulary of the development: the machine integer types of
  \<^verbatim>\<open>include/sys/defs.h\<close>, the address arithmetic of \<^verbatim>\<open>include/sys/paging.h\<close>
  (\<^verbatim>\<open>PAGE_SIZE\<close>, \<^verbatim>\<open>VADDR\<close>, \<^verbatim>\<open>PADDR\<close>), the range of the C type
  \<^verbatim>\<open>int\<close>, and the generic lemmas on words, lists and options that the components use.

  Conventions. A C function that can have undefined behaviour or run forever returns an
  \<open>option\<close>: \<^const>\<open>None\<close> stands for an execution that has no defined
  result (a dereference outside the modelled objects, a signed overflow, a loop that never
  ends), so a theorem that says \<open>f x = Some y\<close> also says that the call is defined and
  returns. Unsigned integers are words of their width. Values of type \<^verbatim>\<open>int\<close> are HOL
  integers that are checked against \<open>int_ok\<close> wherever the code computes with them.
\<close>

unbundle bit_operations_syntax

section \<open>Machine integers\<close>

type_synonym u8 = "8 word"
type_synonym u16 = "16 word"
type_synonym u32 = "32 word"
type_synonym u64 = "64 word"

text \<open>The range of the C type \<^verbatim>\<open>int\<close>; arithmetic that leaves it is undefined.\<close>

definition int_ok :: "int \<Rightarrow> bool" where
  "int_ok i \<longleftrightarrow> - 2147483648 \<le> i \<and> i < 2147483648"

text \<open>Conversion of an unsigned 64-bit value to \<^verbatim>\<open>int\<close> keeps the low 32 bits.\<close>

definition to_int :: "u64 \<Rightarrow> int" where
  "to_int x = sint (ucast x :: u32)"

section \<open>Named collections\<close>

text \<open>
  \<open>mem_simps\<close> holds the equations for reading back written memory, \<open>addr_simps\<close> the
  equations for the direct map, \<open>bit_facts\<close> the facts on masks and shifts.
\<close>

named_theorems mem_simps
named_theorems addr_simps
named_theorems bit_facts

section \<open>Address arithmetic\<close>

abbreviation PAGE_SIZE :: nat where
  "PAGE_SIZE \<equiv> 4096"

definition KERNEL_VADDR :: u64 where
  "KERNEL_VADDR = 0xffffffff80000000"

definition VADDR :: "u64 \<Rightarrow> u64" where
  "VADDR p = KERNEL_VADDR + p"

definition PADDR :: "u64 \<Rightarrow> u64" where
  "PADDR v = v - KERNEL_VADDR"

text \<open>
  The kernel reaches a physical byte by its physical address (the identity map that
  \<^verbatim>\<open>init_paging\<close> installs at address 0) or by the same address moved up by
  \<^verbatim>\<open>KERNEL_VADDR\<close>. \<open>loc\<close> is the physical byte that a kernel pointer denotes.
\<close>

definition loc :: "u64 \<Rightarrow> nat" where
  "loc p = (if KERNEL_VADDR \<le> p then unat (p - KERNEL_VADDR) else unat p)"

lemma PADDR_VADDR [simp, addr_simps]: "PADDR (VADDR p) = p"
  by (simp add: PADDR_def VADDR_def)

lemma VADDR_PADDR [simp, addr_simps]: "VADDR (PADDR v) = v"
  by (simp add: PADDR_def VADDR_def)

lemma VADDR_eq_iff [simp]: "VADDR p = VADDR q \<longleftrightarrow> p = q"
  by (simp add: VADDR_def)

text \<open>Physical addresses below 2 GiB: the direct map does not wrap.\<close>

definition low :: "nat \<Rightarrow> bool" where
  "low n \<longleftrightarrow> n < 2147483648"

lemma low_mono: "low n \<Longrightarrow> m \<le> n \<Longrightarrow> low m"
  by (simp add: low_def)

lemma unat_of_nat_low [addr_simps]: "low n \<Longrightarrow> unat (of_nat n :: u64) = n"
  by (simp add: low_def unat_of_nat take_bit_nat_eq_self)

lemma loc_of_nat [addr_simps]:
  assumes "low n" shows "loc (of_nat n) = n"
proof -
  have "unat (of_nat n :: u64) < unat KERNEL_VADDR"
    using assms by (simp add: unat_of_nat_low) (simp add: low_def KERNEL_VADDR_def)
  then have "\<not> KERNEL_VADDR \<le> (of_nat n :: u64)"
    by (simp add: word_le_nat_alt)
  then show ?thesis
    using assms by (simp add: loc_def unat_of_nat_low)
qed

lemma unat_VADDR_of_nat:
  assumes "low n" shows "unat (VADDR (of_nat n)) = unat KERNEL_VADDR + n"
proof -
  have "unat KERNEL_VADDR + unat (of_nat n :: u64) < 2 ^ LENGTH(64)"
    using assms by (simp add: unat_of_nat_low) (simp add: low_def KERNEL_VADDR_def)
  then have "unat (KERNEL_VADDR + of_nat n) = unat KERNEL_VADDR + unat (of_nat n :: u64)"
    by (rule unat_add_lem [THEN iffD1])
  then show ?thesis using assms by (simp add: VADDR_def unat_of_nat_low)
qed

lemma loc_VADDR_of_nat [addr_simps]:
  assumes "low n" shows "loc (VADDR (of_nat n)) = n"
proof -
  have "KERNEL_VADDR \<le> VADDR (of_nat n)"
    using assms by (simp add: word_le_nat_alt unat_VADDR_of_nat)
  then show ?thesis
    using assms by (simp add: loc_def VADDR_def unat_of_nat_low)
qed

lemma KERNEL_less_VADDR: "low n \<Longrightarrow> 0 < n \<Longrightarrow> KERNEL_VADDR < VADDR (of_nat n)"
  by (simp add: word_less_nat_alt unat_VADDR_of_nat)

lemma of_nat_low_inj: "low m \<Longrightarrow> low n \<Longrightarrow> (of_nat m :: u64) = of_nat n \<longleftrightarrow> m = n"
  by (metis unat_of_nat_low)

section \<open>Masks and shifts\<close>

lemma word_bits_eq_iff: "(x :: 'a::len word) = y \<longleftrightarrow> (\<forall>n<LENGTH('a). bit x n \<longleftrightarrow> bit y n)"
  by (auto intro: bit_word_eqI)

lemma bit_u64_less: "bit (x :: u64) n \<Longrightarrow> n < 64"
  using bit_imp_le_length [of x n] by simp

lemma word_bit_below:
  fixes x :: u64
  assumes "unat x < 2 ^ k" and "bit x n"
  shows "n < k"
proof -
  have "bit (unat x) n" using assms(2) by (simp add: bit_unsigned_iff)
  moreover have "take_bit k (unat x) = unat x" using assms(1) by (simp add: take_bit_nat_eq_self_iff)
  ultimately show ?thesis by (metis bit_take_bit_iff)
qed

text \<open>\<^verbatim>\<open>x >> 12 << 12\<close> clears the offset inside the page.\<close>

definition page_base :: "u64 \<Rightarrow> u64" where
  "page_base x = push_bit 12 (drop_bit 12 x)"

lemma bit_page_base [bit_facts]: "bit (page_base x) n \<longleftrightarrow> 12 \<le> n \<and> bit x n"
  using bit_imp_le_length [of x n] by (auto simp: page_base_def bit_push_bit_iff bit_drop_bit_eq)

lemma page_base_mult: "page_base (of_nat (4096 * f)) = of_nat (4096 * f)"
proof -
  have "(of_nat (4096 * f) :: u64) = push_bit 12 (of_nat f)"
    by (simp add: push_bit_eq_mult)
  then show ?thesis
    by (auto simp: page_base_def bit_eq_iff bit_push_bit_iff bit_drop_bit_eq)
qed

section \<open>Option\<close>

lemma bind_eq_SomeE:
  assumes "Option.bind x f = Some y"
  obtains z where "x = Some z" and "f z = Some y"
  using assms by (cases x) auto

end
