(* ===== verification/CMemory.thy ===== *)
theory CMemory
  imports Prelude
begin

text \<open>
  Physical memory as an array of bytes, little-endian loads and stores of 32-bit and 64-bit
  values, and the block operations \<^verbatim>\<open>memcpy\<close> and \<^verbatim>\<open>memset\<close> of
  \<^verbatim>\<open>sys/utils.c\<close>. The locale \<open>cell_store\<close> is the interface between memory and
  the components that read and write typed cells; it is interpreted for bytes, 32-bit
  and 64-bit cells, so that the lemmas on runs of writes are proved once.
\<close>

type_synonym mem = "nat \<Rightarrow> u8"

section \<open>Little-endian loads and stores\<close>

fun ldn :: "nat \<Rightarrow> mem \<Rightarrow> nat \<Rightarrow> nat" where
  "ldn 0 m p = 0"
| "ldn (Suc n) m p = unat (m p) + 256 * ldn n m (Suc p)"

fun stn :: "nat \<Rightarrow> mem \<Rightarrow> nat \<Rightarrow> nat \<Rightarrow> mem" where
  "stn 0 m p v = m"
| "stn (Suc n) m p v = (stn n m (Suc p) (v div 256))(p := of_nat v)"

definition ld8 :: "mem \<Rightarrow> nat \<Rightarrow> u8" where
  "ld8 m p = m p"

definition st8 :: "mem \<Rightarrow> nat \<Rightarrow> u8 \<Rightarrow> mem" where
  "st8 m p v = m(p := v)"

definition ld32 :: "mem \<Rightarrow> nat \<Rightarrow> u32" where
  "ld32 m p = of_nat (ldn 4 m p)"

definition st32 :: "mem \<Rightarrow> nat \<Rightarrow> u32 \<Rightarrow> mem" where
  "st32 m p v = stn 4 m p (unat v)"

definition ld64 :: "mem \<Rightarrow> nat \<Rightarrow> u64" where
  "ld64 m p = of_nat (ldn 8 m p)"

definition st64 :: "mem \<Rightarrow> nat \<Rightarrow> u64 \<Rightarrow> mem" where
  "st64 m p v = stn 8 m p (unat v)"

text \<open>Two memories that agree on \<open>n\<close> bytes from \<open>p\<close>.\<close>

definition same_on :: "nat \<Rightarrow> nat \<Rightarrow> mem \<Rightarrow> mem \<Rightarrow> bool" where
  "same_on p n m m' \<longleftrightarrow> (\<forall>a. p \<le> a \<and> a < p + n \<longrightarrow> m a = m' a)"

lemma stn_frame: "a < p \<or> p + n \<le> a \<Longrightarrow> stn n m p v a = m a"
  by (induction n m p v rule: stn.induct) auto

lemma ldn_zero: "ldn n (\<lambda>_. 0) p = 0"
  by (induction n arbitrary: p) auto

lemma ld32_zero [mem_simps]: "ld32 (\<lambda>_. 0) p = 0"
  by (simp add: ld32_def ldn_zero)

lemma ld64_zero [mem_simps]: "ld64 (\<lambda>_. 0) p = 0"
  by (simp add: ld64_def ldn_zero)

lemma ldn_cong: "same_on p n m m' \<Longrightarrow> ldn n m p = ldn n m' p"
  by (induction n m p rule: ldn.induct) (auto simp: same_on_def)

lemma ldn_stn: "ldn n (stn n m p v) p = v mod 256 ^ n"
proof (induction n m p v rule: stn.induct)
  case (1 m p v)
  then show ?case by simp
next
  case (2 n m p v)
  have "same_on (Suc p) n (stn (Suc n) m p v) (stn n m (Suc p) (v div 256))"
    by (auto simp: same_on_def)
  then have "ldn n (stn (Suc n) m p v) (Suc p) = v div 256 mod 256 ^ n"
    using 2 by (simp only: ldn_cong)
  moreover have "unat (of_nat v :: u8) = v mod 256"
    by (simp add: unat_of_nat take_bit_eq_mod)
  moreover have "stn (Suc n) m p v p = of_nat v"
    by simp
  ultimately show ?case
    by (simp del: stn.simps add: mod_mult2_eq)
qed

lemma unat_u32_mod [simp]: "of_nat (unat (v :: u32) mod 4294967296) = v"
proof -
  have "unat v < 2 ^ LENGTH(32)" by (rule unsigned_less)
  then show ?thesis by simp
qed

lemma unat_u64_mod [simp]: "of_nat (unat (v :: u64) mod 18446744073709551616) = v"
proof -
  have "unat v < 2 ^ LENGTH(64)" by (rule unsigned_less)
  then show ?thesis by simp
qed

section \<open>Typed cells\<close>

locale cell_store =
  fixes ld :: "mem \<Rightarrow> nat \<Rightarrow> 'v"
    and st :: "mem \<Rightarrow> nat \<Rightarrow> 'v \<Rightarrow> mem"
    and width :: nat
  assumes width_pos: "0 < width"
    and ld_st: "ld (st m p v) p = v"
    and ld_same: "same_on p width m m' \<Longrightarrow> ld m p = ld m' p"
    and st_frame: "a < p \<or> p + width \<le> a \<Longrightarrow> st m p v a = m a"
begin

lemma ld_st_other:
  assumes "q + width \<le> p \<or> p + width \<le> q"
  shows "ld (st m p v) q = ld m q"
  by (rule ld_same) (use assms in \<open>auto simp: same_on_def intro: st_frame\<close>)

lemma same_on_st:
  assumes "q + n \<le> p \<or> p + width \<le> q"
  shows "same_on q n (st m p v) m"
  using assms by (auto simp: same_on_def intro: st_frame)

end

text \<open>
  A \<^verbatim>\<open>for\<close> loop that writes \<open>n\<close> consecutive cells, the cell with index \<open>i\<close>
  getting \<open>f i\<close>, in ascending order.
\<close>

fun write_run :: "(mem \<Rightarrow> nat \<Rightarrow> 'v \<Rightarrow> mem) \<Rightarrow> nat \<Rightarrow> (nat \<Rightarrow> 'v) \<Rightarrow> mem \<Rightarrow> nat \<Rightarrow> nat \<Rightarrow> mem" where
  "write_run st w f m p 0 = m"
| "write_run st w f m p (Suc n) = st (write_run st w f m p n) (p + w * n) (f n)"

context cell_store
begin

lemma write_run_frame:
  "a < p \<or> p + width * n \<le> a \<Longrightarrow> write_run st width f m p n a = m a"
  by (induction n) (auto simp: st_frame)

lemma write_run_ld:
  "i < n \<Longrightarrow> ld (write_run st width f m p n) (p + width * i) = f i"
proof (induction n)
  case 0
  then show ?case by simp
next
  case (Suc n)
  show ?case
  proof (cases "i = n")
    case True
    then show ?thesis by (simp add: ld_st)
  next
    case False
    with Suc.prems have "i < n" by simp
    then have "width * i + width \<le> width * n"
      by (metis Suc_leI add.commute mult_Suc_right mult_le_mono2)
    with False Suc show ?thesis by (simp add: ld_st_other)
  qed
qed

lemma write_run_ld_other:
  assumes "q + width \<le> p \<or> p + width * n \<le> q"
  shows "ld (write_run st width f m p n) q = ld m q"
  by (rule ld_same) (use assms in \<open>auto simp: same_on_def intro: write_run_frame\<close>)

end

interpretation cell8: cell_store ld8 st8 1
  by unfold_locales (auto simp: ld8_def st8_def same_on_def)

interpretation cell32: cell_store ld32 st32 4
  by unfold_locales
    (simp_all add: ld32_def st32_def stn_frame ldn_stn ldn_cong)

interpretation cell64: cell_store ld64 st64 8
  by unfold_locales
    (simp_all add: ld64_def st64_def stn_frame ldn_stn ldn_cong)

lemmas [simp, mem_simps] = cell8.ld_st cell32.ld_st cell64.ld_st
lemmas [mem_simps] = cell8.ld_st_other cell32.ld_st_other cell64.ld_st_other

text \<open>A load of one width is not changed by a disjoint store of another.\<close>

lemma ld64_st32_other [mem_simps]:
  "q + 8 \<le> p \<or> p + 4 \<le> q \<Longrightarrow> ld64 (st32 m p v) q = ld64 m q"
  by (rule cell64.ld_same) (auto simp: same_on_def intro: cell32.st_frame)

lemma ld32_st64_other [mem_simps]:
  "q + 4 \<le> p \<or> p + 8 \<le> q \<Longrightarrow> ld32 (st64 m p v) q = ld32 m q"
  by (rule cell32.ld_same) (auto simp: same_on_def intro: cell64.st_frame)

section \<open>memcpy and memset\<close>

text \<open>
  The loops of \<^verbatim>\<open>sys/utils.c\<close>: byte \<open>i\<close> is copied or set for \<open>i\<close> from 0 to
  \<open>size - 1\<close>, each read seeing the writes before it.
\<close>

fun memcpy_loop :: "mem \<Rightarrow> nat \<Rightarrow> nat \<Rightarrow> nat \<Rightarrow> nat \<Rightarrow> mem" where
  "memcpy_loop m dst src i 0 = m"
| "memcpy_loop m dst src i (Suc n) =
     memcpy_loop (st8 m (dst + i) (ld8 m (src + i))) dst src (Suc i) n"

definition memcpy :: "mem \<Rightarrow> nat \<Rightarrow> nat \<Rightarrow> nat \<Rightarrow> mem" where
  "memcpy m dst src n = memcpy_loop m dst src 0 n"

fun memset_loop :: "mem \<Rightarrow> nat \<Rightarrow> u8 \<Rightarrow> nat \<Rightarrow> mem" where
  "memset_loop m p v 0 = m"
| "memset_loop m p v (Suc n) = memset_loop (st8 m p v) (Suc p) v n"

definition memset :: "mem \<Rightarrow> nat \<Rightarrow> u64 \<Rightarrow> nat \<Rightarrow> mem" where
  "memset m p v n = memset_loop m p (ucast v) n"

lemma st8_apply: "st8 m p v a = (if a = p then v else m a)"
  by (simp add: st8_def)

lemma memset_loop_apply:
  "memset_loop m p v n a = (if p \<le> a \<and> a < p + n then v else m a)"
proof (induction m p v n rule: memset_loop.induct)
  case (1 m p v)
  then show ?case by auto
next
  case (2 m p v n)
  then show ?case using st8_apply [of m p v a] by auto
qed

lemma memset_apply [mem_simps]:
  "memset m p v n a = (if p \<le> a \<and> a < p + n then ucast v else m a)"
  by (simp add: memset_def memset_loop_apply)

lemma memcpy_loop_apply:
  assumes "src + i + n \<le> dst + i \<or> dst + i + n \<le> src + i"
  shows "memcpy_loop m dst src i n a =
    (if dst + i \<le> a \<and> a < dst + i + n then m (src + (a - dst)) else m a)"
  using assms
proof (induction m dst src i n arbitrary: a rule: memcpy_loop.induct)
  case (1 m dst src i)
  then show ?case by auto
next
  case (2 m dst src i n)
  have disj: "src + Suc i + n \<le> dst + Suc i \<or> dst + Suc i + n \<le> src + Suc i"
    using "2.prems" by auto
  show ?case
    unfolding memcpy_loop.simps "2.IH" [OF disj]
    using "2.prems" st8_apply [of m "dst + i" "ld8 m (src + i)" a]
      st8_apply [of m "dst + i" "ld8 m (src + i)" "src + (a - dst)"]
    by (auto simp: ld8_def)
qed

lemma memcpy_apply [mem_simps]:
  assumes "src + n \<le> dst \<or> dst + n \<le> src"
  shows "memcpy m dst src n a =
    (if dst \<le> a \<and> a < dst + n then m (src + (a - dst)) else m a)"
  using memcpy_loop_apply [of src 0 n dst m a] assms by (simp add: memcpy_def)

end
