(* ===== verification/CStrings.thy ===== *)
theory CStrings
  imports CMemory
begin

text \<open>
  The string routines of \<^verbatim>\<open>sys/strings.c\<close> on byte memory. A \<^verbatim>\<open>char *\<close> is the
  address of its first byte. Loop indices are C \<^verbatim>\<open>int\<close>s: an index that would leave
  the range of \<^verbatim>\<open>int\<close> makes the call undefined. \<open>cstr m a s\<close> says that memory
  holds the zero-terminated string \<open>s\<close> at \<open>a\<close>; \<open>blit\<close> is the memory with a run of
  bytes replaced. Each routine is characterised on strings: what it returns and the exact
  memory it leaves.
\<close>

section \<open>Strings in memory\<close>

definition holds :: "mem \<Rightarrow> nat \<Rightarrow> u8 list \<Rightarrow> bool" where
  "holds m a bs \<longleftrightarrow> (\<forall>i<length bs. m (a + i) = bs ! i)"

definition cstr :: "mem \<Rightarrow> nat \<Rightarrow> u8 list \<Rightarrow> bool" where
  "cstr m a s \<longleftrightarrow> holds m a (s @ [0]) \<and> 0 \<notin> set s \<and> length s < 2147483647"

definition blit :: "mem \<Rightarrow> nat \<Rightarrow> u8 list \<Rightarrow> mem" where
  "blit m a bs = (\<lambda>x. if a \<le> x \<and> x < a + length bs then bs ! (x - a) else m x)"

text \<open>Two byte ranges without a common address.\<close>

definition apart :: "nat \<Rightarrow> nat \<Rightarrow> nat \<Rightarrow> nat \<Rightarrow> bool" where
  "apart a k b n \<longleftrightarrow> a + k \<le> b \<or> b + n \<le> a"

lemma cstr_nth:
  assumes "cstr m a s" and "i < length s"
  shows "m (a + i) = s ! i \<and> s ! i \<noteq> 0"
proof -
  have "i < length (s @ [0])" using assms(2) by simp
  with assms have "m (a + i) = (s @ [0]) ! i"
    unfolding cstr_def holds_def by blast
  moreover have "s ! i \<noteq> 0"
    using assms nth_mem [OF assms(2)] by (metis cstr_def)
  ultimately show ?thesis
    using assms(2) by (simp add: nth_append)
qed

lemma cstr_end: "cstr m a s \<Longrightarrow> m (a + length s) = 0"
  by (auto simp: cstr_def holds_def nth_append)

lemma cstr_length: "cstr m a s \<Longrightarrow> length s < 2147483647"
  by (simp add: cstr_def)

lemma blit_Nil [simp]: "blit m a [] = m"
  by (auto simp: blit_def fun_eq_iff)

lemma blit_snoc: "st8 (blit m a bs) (a + length bs) b = blit m a (bs @ [b])"
  by (auto simp: blit_def st8_def fun_eq_iff nth_append)

lemma blit_append: "blit (blit m a bs) (a + length bs) cs = blit m a (bs @ cs)"
  by (auto simp: blit_def fun_eq_iff nth_append)

lemma blit_frame: "x < a \<or> a + length bs \<le> x \<Longrightarrow> blit m a bs x = m x"
  by (auto simp: blit_def)

lemma blit_holds: "holds (blit m a bs) a bs"
  by (simp add: holds_def blit_def)

lemma holds_blit_apart:
  assumes "apart a (length bs) b (length cs)"
  shows "holds (blit m b cs) a bs = holds m a bs"
proof -
  have "blit m b cs (a + i) = m (a + i)" if "i < length bs" for i
    using assms that by (intro blit_frame) (auto simp: apart_def)
  then show ?thesis by (simp add: holds_def)
qed

lemma cstr_blit_apart:
  "apart a (length s + 1) b (length cs) \<Longrightarrow> cstr (blit m b cs) a s = cstr m a s"
  by (simp add: cstr_def holds_blit_apart)

lemma blit_cstr:
  "0 \<notin> set s \<Longrightarrow> length s < 2147483647 \<Longrightarrow> cstr (blit m a (s @ [0])) a s"
  by (simp add: cstr_def blit_holds)

text \<open>A string determines its bytes: the zero ends it.\<close>

lemma cstr_unique: "cstr m a s \<Longrightarrow> cstr m a t \<Longrightarrow> s = t"
proof (rule nth_equalityI)
  assume s: "cstr m a s" and t: "cstr m a t"
  show len: "length s = length t"
    using cstr_nth [OF s, of "length t"] cstr_nth [OF t, of "length s"] cstr_end [OF s] cstr_end [OF t]
    by (metis linorder_neqE_nat)
  show "s ! i = t ! i" if "i < length s" for i
    using cstr_nth [OF s that] cstr_nth [OF t, of i] that len by simp
qed

section \<open>Length, copy and concatenation\<close>

function str_len_loop :: "mem \<Rightarrow> nat \<Rightarrow> nat \<Rightarrow> nat option" where
  "str_len_loop m str i =
     (if ld8 m (str + i) = 0 then Some i
      else if Suc i < 2147483648 then str_len_loop m str (Suc i)
      else None)"
  by pat_completeness auto
termination
  by (relation "measure (\<lambda>(m, str, i). 2147483648 - i)") auto

declare str_len_loop.simps [simp del]

definition str_len :: "mem \<Rightarrow> nat \<Rightarrow> nat option" where
  "str_len m str = str_len_loop m str 0"

text \<open>
  \<^verbatim>\<open>for(i = 0; src[i] != '\0'; i++) dst[i] = src[i];\<close> the copying loop that
  \<^verbatim>\<open>str_cpy\<close> and \<^verbatim>\<open>str_concat\<close> share; it returns the memory and the final index.
\<close>

function copy_chars :: "mem \<Rightarrow> nat \<Rightarrow> nat \<Rightarrow> nat \<Rightarrow> (mem \<times> nat) option" where
  "copy_chars m dst src i =
     (if ld8 m (src + i) = 0 then Some (m, i)
      else if Suc i < 2147483648 then copy_chars (st8 m (dst + i) (ld8 m (src + i))) dst src (Suc i)
      else None)"
  by pat_completeness auto
termination
  by (relation "measure (\<lambda>(m, dst, src, i). 2147483648 - i)") auto

declare copy_chars.simps [simp del]

definition str_cpy :: "mem \<Rightarrow> nat \<Rightarrow> nat \<Rightarrow> mem option" where
  "str_cpy m to_str frm_str =
     do { (m, i) \<leftarrow> copy_chars m to_str frm_str 0;
          Some (st8 m (to_str + i) 0) }"

definition str_concat :: "mem \<Rightarrow> nat \<Rightarrow> nat \<Rightarrow> nat \<Rightarrow> mem option" where
  "str_concat m prev current dest =
     do { (m, i) \<leftarrow> copy_chars m dest prev 0;
          let m = st8 m (dest + i) 0;
          (m, j) \<leftarrow> copy_chars m (dest + i) current 0;
          Some (st8 m (dest + (i + j)) 0) }"

lemma str_len_loop_cstr:
  assumes "cstr m a s"
  shows "i \<le> length s \<Longrightarrow> str_len_loop m a i = Some (length s)"
proof (induction "length s - i" arbitrary: i)
  case 0
  then have "i = length s" by simp
  then show ?case
    using assms by (subst str_len_loop.simps) (simp add: ld8_def cstr_end)
next
  case (Suc k)
  then have "i < length s" by simp
  with assms have "ld8 m (a + i) \<noteq> 0" and "Suc i < 2147483648"
    using cstr_nth [OF assms] cstr_length [OF assms] by (auto simp: ld8_def)
  with Suc \<open>i < length s\<close> show ?case
    by (subst str_len_loop.simps) simp
qed

lemma str_len_cstr: "cstr m a s \<Longrightarrow> str_len m a = Some (length s)"
  by (simp add: str_len_def str_len_loop_cstr)

lemma copy_chars_cstr:
  assumes "cstr m src s" and "apart dst (length s) src (length s + 1)"
  shows "i \<le> length s \<Longrightarrow>
    copy_chars (blit m dst (take i s)) dst src i = Some (blit m dst s, length s)"
proof (induction "length s - i" arbitrary: i)
  case 0
  have "cstr (blit m dst s) src s"
    using assms by (subst cstr_blit_apart) (auto simp: apart_def)
  moreover have "i = length s" using 0 by simp
  ultimately show ?case
    by (subst copy_chars.simps) (simp add: ld8_def cstr_end)
next
  case (Suc k)
  then have i: "i < length s" by simp
  have "cstr (blit m dst (take i s)) src s"
    using assms i by (subst cstr_blit_apart) (auto simp: apart_def)
  from cstr_nth [OF this i] have c: "ld8 (blit m dst (take i s)) (src + i) = s ! i" and "s ! i \<noteq> 0"
    by (auto simp: ld8_def)
  have "st8 (blit m dst (take i s)) (dst + i) (s ! i) = blit m dst (take (Suc i) s)"
    using blit_snoc [of m dst "take i s" "s ! i"] i by (simp add: take_Suc_conv_app_nth)
  with Suc i c \<open>s ! i \<noteq> 0\<close> cstr_length [OF assms(1)] show ?case
    by (subst copy_chars.simps) simp
qed

lemma copy_chars_cstr0:
  assumes "cstr m src s" and "apart dst (length s) src (length s + 1)"
  shows "copy_chars m dst src 0 = Some (blit m dst s, length s)"
  using copy_chars_cstr [OF assms, of 0] by simp

lemma str_cpy_cstr:
  assumes "cstr m frm s" and "apart to_str (length s + 1) frm (length s + 1)"
  shows "str_cpy m to_str frm = Some (blit m to_str (s @ [0]))"
proof -
  have "apart to_str (length s) frm (length s + 1)"
    using assms(2) by (auto simp: apart_def)
  then show ?thesis
    using assms(1) by (simp add: str_cpy_def copy_chars_cstr0 blit_snoc)
qed

lemma str_concat_cstr:
  assumes s: "cstr m prev s" and t: "cstr m current t"
    and ps: "apart dest (length s + length t + 1) prev (length s + 1)"
    and pt: "apart dest (length s + length t + 1) current (length t + 1)"
  shows "str_concat m prev current dest = Some (blit m dest (s @ t @ [0]))"
proof -
  let ?n = "length s"
  have 1: "copy_chars m dest prev 0 = Some (blit m dest s, ?n)"
    using s ps by (intro copy_chars_cstr0) (auto simp: apart_def)
  have 2: "st8 (blit m dest s) (dest + ?n) 0 = blit m dest (s @ [0])"
    by (rule blit_snoc)
  have "cstr (blit m dest (s @ [0])) current t"
    using t pt by (subst cstr_blit_apart) (auto simp: apart_def)
  then have 3: "copy_chars (blit m dest (s @ [0])) (dest + ?n) current 0
      = Some (blit (blit m dest (s @ [0])) (dest + ?n) t, length t)"
    using pt by (intro copy_chars_cstr0) (auto simp: apart_def)
  have "st8 (blit (blit m dest (s @ [0])) (dest + ?n) t) (dest + (?n + length t)) 0
      = blit (blit m dest (s @ [0])) (dest + ?n) (t @ [0])"
    using blit_snoc [of "blit m dest (s @ [0])" "dest + ?n" t 0] by (simp add: add.assoc)
  also have "\<dots> = blit m dest (s @ t @ [0])"
    by (auto simp: blit_def fun_eq_iff nth_append)
  finally show ?thesis
    by (simp add: str_concat_def 1 2 3)
qed

section \<open>Comparison\<close>

lemma cstr_Nil_iff [simp]: "cstr m a [] \<longleftrightarrow> m a = 0"
  by (simp add: cstr_def holds_def)

lemma cstr_ConsD:
  assumes "cstr m a (c # s)"
  shows "m a = c" and "c \<noteq> 0" and "cstr m (Suc a) s"
proof -
  have h: "m (a + i) = ((c # s) @ [0]) ! i" if "i < Suc (Suc (length s))" for i
    using assms that unfolding cstr_def holds_def by simp
  from h [of 0] show "m a = c" by simp
  from assms show "c \<noteq> 0" by (auto simp: cstr_def)
  have "m (Suc a + i) = (s @ [0]) ! i" if "i < Suc (length s)" for i
    using h [of "Suc i"] that by simp
  then show "cstr m (Suc a) s"
    using assms by (simp add: cstr_def holds_def)
qed

partial_function (option) str_cmp :: "mem \<Rightarrow> nat \<Rightarrow> nat \<Rightarrow> int option" where
  "str_cmp m str1 str2 =
     (if ld8 m str1 = ld8 m str2 \<and> ld8 m str1 = 0 then Some 1
      else if ld8 m str1 = ld8 m str2 then str_cmp m (Suc str1) (Suc str2)
      else Some (- 1))"

fun strn_cmp :: "mem \<Rightarrow> nat \<Rightarrow> nat \<Rightarrow> nat \<Rightarrow> int" where
  "strn_cmp m s1 s2 0 = 0"
| "strn_cmp m s1 s2 (Suc n) =
     (if ld8 m s1 \<noteq> 0 \<and> ld8 m s1 = ld8 m s2 then strn_cmp m (Suc s1) (Suc s2) n
      else uint (ld8 m s1) - uint (ld8 m s2))"

lemma str_cmp_cstr:
  "cstr m a s \<Longrightarrow> cstr m b t \<Longrightarrow> str_cmp m a b = Some (if s = t then 1 else - 1)"
proof (induction s arbitrary: a b t)
  case Nil
  then show ?case
    by (cases t) (auto simp: str_cmp.simps ld8_def dest: cstr_ConsD)
next
  case (Cons c s)
  note c = cstr_ConsD [OF Cons.prems(1)]
  show ?case
  proof (cases t)
    case Nil
    with Cons.prems c show ?thesis by (simp add: str_cmp.simps ld8_def)
  next
    case (Cons d t')
    note d = cstr_ConsD [OF Cons.prems(2) [unfolded Cons]]
    show ?thesis
    proof (cases "c = d")
      case True
      then show ?thesis
        using Cons.IH [OF c(3) d(3)] c d \<open>t = d # t'\<close>
        by (subst str_cmp.simps) (simp add: ld8_def)
    next
      case False
      then show ?thesis
        using c d \<open>t = d # t'\<close> by (subst str_cmp.simps) (simp add: ld8_def)
    qed
  qed
qed

lemma strn_cmp_cstr:
  "cstr m a s \<Longrightarrow> cstr m b t \<Longrightarrow> strn_cmp m a b n = 0 \<longleftrightarrow> take n s = take n t"
proof (induction m a b n arbitrary: s t rule: strn_cmp.induct)
  case (1 m a b)
  then show ?case by simp
next
  case (2 m a b n)
  show ?case
  proof (cases s)
    case Nil
    with 2 show ?thesis
      by (cases t) (auto simp: ld8_def uint_0_iff dest: cstr_ConsD)
  next
    case (Cons c s')
    note c = cstr_ConsD [OF "2.prems"(1) [unfolded Cons]]
    show ?thesis
    proof (cases t)
      case Nil
      with 2 c Cons show ?thesis by (simp add: ld8_def uint_0_iff)
    next
      case (Cons d t')
      note d = cstr_ConsD [OF "2.prems"(2) [unfolded Cons]]
      show ?thesis
        using "2.IH" [of s' t'] c d \<open>s = c # s'\<close> \<open>t = d # t'\<close>
        by (auto simp: ld8_def word_uint_eq_iff)
    qed
  qed
qed

section \<open>Substrings and reversal\<close>

function substr_loop :: "mem \<Rightarrow> nat \<Rightarrow> int \<Rightarrow> int \<Rightarrow> nat \<Rightarrow> nat \<Rightarrow> (mem \<times> nat) option" where
  "substr_loop m str i to_idx out_str index =
     (if i \<le> to_idx then
        if int_ok (i + 1)
        then substr_loop (st8 m (out_str + index) (ld8 m (nat (int str + i)))) str (i + 1) to_idx
               out_str (Suc index)
        else None
      else Some (m, index))"
  by pat_completeness auto
termination
  by (relation "measure (\<lambda>(m, str, i, to_idx, out_str, index). nat (to_idx - i + 1))") auto

declare substr_loop.simps [simp del]

definition str_substr :: "mem \<Rightarrow> nat \<Rightarrow> int \<Rightarrow> int \<Rightarrow> nat \<Rightarrow> mem option" where
  "str_substr m str from to_idx out_str =
     do { (m, index) \<leftarrow> substr_loop m str from to_idx out_str 0;
          Some (st8 m (out_str + index) 0) }"

fun reverse_loop :: "mem \<Rightarrow> nat \<Rightarrow> nat \<Rightarrow> nat \<Rightarrow> nat \<Rightarrow> nat \<Rightarrow> mem" where
  "reverse_loop m str dest len i 0 = m"
| "reverse_loop m str dest len i (Suc k) =
     reverse_loop (st8 m (dest + i) (ld8 m (str + (len - 1 - i)))) str dest len (Suc i) k"

definition str_reverse :: "mem \<Rightarrow> nat \<Rightarrow> nat \<Rightarrow> mem option" where
  "str_reverse m str dest =
     do { len \<leftarrow> str_len m str;
          Some (st8 (reverse_loop m str dest len 0 len) (dest + len) 0) }"

text \<open>Characters \<open>from\<close> to \<open>to\<close>, both included.\<close>

definition substr_of :: "u8 list \<Rightarrow> nat \<Rightarrow> int \<Rightarrow> u8 list" where
  "substr_of bs from to_idx = take (nat (to_idx + 1) - from) (drop from bs)"

lemma substr_loop_holds:
  assumes "holds m str bs" and "to_idx < int (length bs)" and "length bs < 2147483648"
    and "apart out (nat (to_idx + 1) - from) str (length bs)" and "from \<le> length bs"
  shows "from + k \<le> nat (to_idx + 1) \<Longrightarrow>
    substr_loop (blit m out (take k (drop from bs))) str (int (from + k)) to_idx out k
      = Some (blit m out (substr_of bs from to_idx), nat (to_idx + 1) - from)"
proof (induction "nat (to_idx + 1) - (from + k)" arbitrary: k)
  case 0
  then have "\<not> int (from + k) \<le> to_idx" and "k = nat (to_idx + 1) - from"
    by auto
  then show ?case
    by (subst substr_loop.simps) (simp add: substr_of_def)
next
  case (Suc n)
  then have le: "int (from + k) \<le> to_idx" and lt: "from + k < length bs"
    using assms(2) by auto
  let ?m = "blit m out (take k (drop from bs))"
  have "?m (str + (from + k)) = m (str + (from + k))"
    using assms(4) lt le by (intro blit_frame) (auto simp: apart_def)
  moreover have "m (str + (from + k)) = bs ! (from + k)"
    using assms(1) lt by (simp add: holds_def)
  moreover have "nat (int str + int (from + k)) = str + (from + k)"
    by simp
  ultimately have c: "ld8 ?m (nat (int str + int (from + k))) = bs ! (from + k)"
    by (simp only: ld8_def)
  have "st8 ?m (out + k) (bs ! (from + k)) = blit m out (take (Suc k) (drop from bs))"
    using blit_snoc [of m out "take k (drop from bs)" "bs ! (from + k)"] lt
    by (simp add: take_Suc_conv_app_nth)
  moreover have "int (from + Suc k) = int (from + k) + 1" by simp
  moreover have "substr_loop (blit m out (take (Suc k) (drop from bs))) str (int (from + Suc k)) to_idx out (Suc k)
      = Some (blit m out (substr_of bs from to_idx), nat (to_idx + 1) - from)"
    using Suc by (intro Suc.hyps) auto
  moreover have "int_ok (int (from + k) + 1)"
    using lt assms(3) by (auto simp: int_ok_def)
  ultimately show ?case
    using le c by (subst substr_loop.simps) (simp del: of_nat_add add: add.commute [of _ 1])
qed

lemma str_substr_holds:
  assumes "holds m str bs" and "to_idx < int (length bs)" and "length bs < 2147483648"
    and "apart out (nat (to_idx + 1) - from + 1) str (length bs)" and "from \<le> nat (to_idx + 1)"
  shows "str_substr m str (int from) to_idx out = Some (blit m out (substr_of bs from to_idx @ [0]))"
proof -
  have "from \<le> length bs" using assms(2,5) by simp
  then have "substr_loop m str (int from) to_idx out 0
      = Some (blit m out (substr_of bs from to_idx), nat (to_idx + 1) - from)"
    using substr_loop_holds [OF assms(1-3), of out "from" 0] assms(4,5)
    by (auto simp: apart_def)
  moreover have "nat (to_idx + 1) - from = length (substr_of bs from to_idx)"
    using assms(2) by (auto simp: substr_of_def)
  ultimately show ?thesis
    by (simp add: str_substr_def blit_snoc)
qed

lemma reverse_loop_holds:
  assumes "holds m str s" and "apart dest (length s) str (length s)"
  shows "i + k = length s \<Longrightarrow>
    reverse_loop (blit m dest (take i (rev s))) str dest (length s) i k = blit m dest (rev s)"
proof (induction k arbitrary: i)
  case 0
  then show ?case by simp
next
  case (Suc k)
  then have i: "i < length s" by simp
  let ?m = "blit m dest (take i (rev s))"
  have "?m (str + (length s - 1 - i)) = m (str + (length s - 1 - i))"
    using assms(2) i by (intro blit_frame) (auto simp: apart_def)
  also have "\<dots> = s ! (length s - 1 - i)"
    using assms(1) i unfolding holds_def by (metis diff_less gr_implies_not0 less_imp_diff_less neq0_conv zero_less_one)
  also have "\<dots> = rev s ! i"
    using i by (simp add: rev_nth)
  finally have "ld8 ?m (str + (length s - 1 - i)) = rev s ! i"
    by (simp add: ld8_def)
  moreover have "st8 ?m (dest + i) (rev s ! i) = blit m dest (take (Suc i) (rev s))"
    using blit_snoc [of m dest "take i (rev s)" "rev s ! i"] i
    by (simp add: take_Suc_conv_app_nth)
  ultimately show ?case
    using Suc by simp
qed

lemma str_reverse_cstr:
  assumes "cstr m str s" and "apart dest (length s + 1) str (length s + 1)"
  shows "str_reverse m str dest = Some (blit m dest (rev s @ [0]))"
proof -
  have "holds m str s"
    using cstr_nth [OF assms(1)] by (simp add: holds_def)
  then have "reverse_loop m str dest (length s) 0 (length s) = blit m dest (rev s)"
    using reverse_loop_holds [of m str s dest 0 "length s"] assms(2) by (auto simp: apart_def)
  then show ?thesis
    using assms(1) blit_snoc [of m dest "rev s" 0] by (simp add: str_reverse_def str_len_cstr)
qed

section \<open>Splitting\<close>

text \<open>
  \<^verbatim>\<open>str_split_delim\<close> writes the pieces of a string into the rows of
  \<^verbatim>\<open>char out[][FMT_LEN]\<close>. A piece after the first starts with the delimiter, since
  \<^verbatim>\<open>prev_ptr\<close> is set to the delimiter's own index.
\<close>

abbreviation FMT_LEN :: nat where
  "FMT_LEN \<equiv> 100"

function split_loop ::
  "mem \<Rightarrow> nat \<Rightarrow> u8 \<Rightarrow> nat \<Rightarrow> nat \<Rightarrow> nat \<Rightarrow> nat \<Rightarrow> (mem \<times> nat) option" where
  "split_loop m str delim out prev_ptr i arg_ctr =
     (if ld8 m (str + i) = 0 then
        do { m \<leftarrow> str_substr m str (int prev_ptr) (int i - 1) (out + FMT_LEN * arg_ctr);
             Some (m, Suc arg_ctr) }
      else if \<not> Suc i < 2147483648 then None
      else if ld8 m (str + i) = delim then
        do { m' \<leftarrow> str_substr m str (int prev_ptr) (int i - 1) (out + FMT_LEN * arg_ctr);
             split_loop m' str delim out i (Suc i) (Suc arg_ctr) }
      else split_loop m str delim out prev_ptr (Suc i) arg_ctr)"
  by pat_completeness auto
termination
  by (relation "measure (\<lambda>(m, str, delim, out, prev_ptr, i, arg_ctr). 2147483648 - i)") auto

declare split_loop.simps [simp del]

definition str_split_delim :: "mem \<Rightarrow> nat \<Rightarrow> u8 \<Rightarrow> nat \<Rightarrow> (mem \<times> nat) option" where
  "str_split_delim m str delim out = split_loop m str delim out 0 0 0"

text \<open>The pieces, with the piece read so far in an accumulator.\<close>

fun pieces :: "u8 \<Rightarrow> u8 list \<Rightarrow> u8 list \<Rightarrow> u8 list list" where
  "pieces d cur [] = [cur]"
| "pieces d cur (c # cs) = (if c = d then cur # pieces d [d] cs else pieces d (cur @ [c]) cs)"

lemma concat_pieces: "concat (pieces d cur cs) = cur @ cs"
  by (induction d cur cs rule: pieces.induct) auto

lemma length_pieces: "length (pieces d cur cs) = Suc (count_list cs d)"
  by (induction d cur cs rule: pieces.induct) auto

text \<open>The rows written so far, and the memory outside the rows.\<close>

definition rows :: "mem \<Rightarrow> nat \<Rightarrow> u8 list list \<Rightarrow> bool" where
  "rows m out ps \<longleftrightarrow> (\<forall>k<length ps. holds m (out + FMT_LEN * k) (ps ! k @ [0]))"

lemma rows_blit_next:
  assumes "rows m out ps" and "\<forall>p\<in>set ps. length p < FMT_LEN"
  shows "rows (blit m (out + FMT_LEN * length ps) (p @ [0])) out (ps @ [p])"
proof -
  have "holds (blit m (out + FMT_LEN * length ps) (p @ [0])) (out + FMT_LEN * k) (ps ! k @ [0])"
    if k: "k < length ps" for k
  proof (subst holds_blit_apart)
    have "length (ps ! k) < FMT_LEN" using assms(2) k by simp
    moreover have "FMT_LEN * Suc k \<le> FMT_LEN * length ps" using k by simp
    ultimately show "apart (out + FMT_LEN * k) (length (ps ! k @ [0])) (out + FMT_LEN * length ps) (length (p @ [0]))"
      by (simp add: apart_def)
    show "holds m (out + FMT_LEN * k) (ps ! k @ [0])"
      using assms(1) k by (simp add: rows_def)
  qed
  then show ?thesis
    by (auto simp: rows_def nth_append less_Suc_eq blit_holds)
qed


lemma str_substr_piece:
  assumes "cstr m str s" and "i \<le> length s" and "prev \<le> i"
    and "cur = take (i - prev) (drop prev s)" and "apart out (length cur + 1) str (length s)"
  shows "str_substr m str (int prev) (int i - 1) out = Some (blit m out (cur @ [0]))"
proof -
  have "holds m str s" using cstr_nth [OF assms(1)] by (simp add: holds_def)
  moreover have "substr_of s prev (int i - 1) = cur" and "length cur = i - prev"
    using assms(2-4) by (auto simp: substr_of_def)
  ultimately show ?thesis
    using str_substr_holds [of m str s "int i - 1" out prev] assms cstr_length [OF assms(1)]
    by simp
qed

lemma split_loop_cstr:
  fixes d :: u8 and out :: nat
  assumes "cstr m str s" and "i \<le> length s" and "prev \<le> i"
    and "cur = take (i - prev) (drop prev s)"
    and "rows m out ps" and "\<forall>p\<in>set ps. length p < FMT_LEN"
    and "\<forall>p\<in>set (pieces d cur (drop i s)). length p < FMT_LEN"
    and "apart out (FMT_LEN * (length ps + length (pieces d cur (drop i s)))) str (length s + 1)"
  shows "\<exists>m'. split_loop m str d out prev i (length ps)
        = Some (m', length ps + length (pieces d cur (drop i s))) \<and>
      rows m' out (ps @ pieces d cur (drop i s)) \<and>
      (\<forall>a. a < out \<or> out + FMT_LEN * (length ps + length (pieces d cur (drop i s))) \<le> a \<longrightarrow> m' a = m a)"
  using assms
proof (induction "length s - i" arbitrary: m i prev cur ps)
  case 0
  then have i: "i = length s" by simp
  have "str_substr m str (int prev) (int i - 1) (out + FMT_LEN * length ps)
      = Some (blit m (out + FMT_LEN * length ps) (cur @ [0]))"
    using "0.prems"(1-4)
    by (rule str_substr_piece) (use "0.prems"(7,8) i in \<open>auto simp: apart_def\<close>)
  moreover have "ld8 m (str + i) = 0"
    using "0.prems"(1) i by (simp add: ld8_def cstr_end)
  ultimately have "split_loop m str d out prev i (length ps)
      = Some (blit m (out + FMT_LEN * length ps) (cur @ [0]), Suc (length ps))"
    by (subst split_loop.simps) simp
  with "0.prems" i show ?case
    by (auto simp: rows_blit_next intro!: blit_frame)
next
  case (Suc n)
  note IH = Suc.hyps(1) and prems = Suc.prems
  from Suc.hyps(2) have i: "i < length s" by simp
  let ?c = "s ! i"
  have drop: "drop i s = ?c # drop (Suc i) s"
    using i by (simp add: Cons_nth_drop_Suc)
  have c: "ld8 m (str + i) = ?c" "?c \<noteq> 0" and lim: "Suc i < 2147483648"
    using cstr_nth [OF prems(1) i] cstr_length [OF prems(1)] i by (auto simp: ld8_def)
  show ?case
  proof (cases "?c = d")
    case False
    have "take (Suc i - prev) (drop prev s) = cur @ [?c]"
      using prems(3,4) i by (simp add: Suc_diff_le take_Suc_conv_app_nth)
    with IH [of "Suc i" m prev "cur @ [?c]" ps] prems False i drop c lim Suc.hyps(2)
    show ?thesis
      by (subst split_loop.simps) simp
  next
    case True
    let ?out = "out + FMT_LEN * length ps" and ?m = "blit m (out + FMT_LEN * length ps) (cur @ [0])"
    have ps: "pieces d cur (drop i s) = cur # pieces d [d] (drop (Suc i) s)"
      using True by (simp add: drop)
    have sub: "str_substr m str (int prev) (int i - 1) ?out = Some ?m"
      using prems(1-4) by (rule str_substr_piece) (use prems(7,8) ps in \<open>auto simp: apart_def\<close>)
    have "n = length s - Suc i" and "Suc i \<le> length s" and "i \<le> Suc i"
      using i Suc.hyps(2) by auto
    moreover have "cstr ?m str s"
      using prems(1,7,8) ps by (subst cstr_blit_apart) (auto simp: apart_def)
    moreover have "[d] = take (Suc i - i) (drop i s)"
      using True drop by simp
    moreover have "rows ?m out (ps @ [cur])"
      using prems(5,6) by (rule rows_blit_next)
    moreover have "\<forall>p\<in>set (ps @ [cur]). length p < FMT_LEN"
      and "\<forall>p\<in>set (pieces d [d] (drop (Suc i) s)). length p < FMT_LEN"
      using prems(6,7) ps by auto
    moreover have "apart out (FMT_LEN * (length (ps @ [cur]) + length (pieces d [d] (drop (Suc i) s)))) str (length s + 1)"
      using prems(8) ps by (simp add: algebra_simps)
    ultimately obtain m' where m': "split_loop ?m str d out i (Suc i) (length (ps @ [cur]))
        = Some (m', length (ps @ [cur]) + length (pieces d [d] (drop (Suc i) s)))"
      "rows m' out ((ps @ [cur]) @ pieces d [d] (drop (Suc i) s))"
      "\<forall>a. a < out \<or> out + FMT_LEN * (length (ps @ [cur]) + length (pieces d [d] (drop (Suc i) s))) \<le> a \<longrightarrow> m' a = ?m a"
      using IH [of "Suc i" ?m i "[d]" "ps @ [cur]"] by blast
    have "split_loop m str d out prev i (length ps)
        = Some (m', length ps + length (pieces d cur (drop i s)))"
      using c lim True sub m'(1) ps by (subst split_loop.simps) simp
    moreover have "?m a = m a"
      if "a < out \<or> out + FMT_LEN * (length ps + length (pieces d cur (drop i s))) \<le> a" for a
      using that prems(7) ps by (intro blit_frame) auto
    ultimately show ?thesis
      using m'(2,3) ps by auto
  qed
qed

section \<open>Search\<close>

text \<open>
  \<^verbatim>\<open>str_contains\<close>: \<open>j\<close> counts the characters matched so far and \<open>startIdx\<close> is the
  index of the last match, or \<open>-1\<close>. A mismatch after a partial match drops the partial
  match and goes on with the next character.
\<close>

function contains_loop :: "mem \<Rightarrow> nat \<Rightarrow> nat \<Rightarrow> nat \<Rightarrow> nat \<Rightarrow> int \<Rightarrow> int option" where
  "contains_loop m str query i j startIdx =
     (if ld8 m (str + i) = 0 then Some (- 1)
      else if \<not> Suc i < 2147483648 then None
      else if ld8 m (str + i) = ld8 m (query + j) then
        do { n \<leftarrow> str_len m query;
             if Suc j = n then Some (int i - int n + 1)
             else contains_loop m str query (Suc i) (Suc j) (int i) }
      else if 0 \<le> startIdx then contains_loop m str query (Suc i) 0 (- 1)
      else contains_loop m str query (Suc i) j startIdx)"
  by pat_completeness auto
termination
  by (relation "measure (\<lambda>(m, str, query, i, j, startIdx). 2147483648 - i)") auto

declare contains_loop.simps [simp del]

definition str_contains :: "mem \<Rightarrow> nat \<Rightarrow> nat \<Rightarrow> int option" where
  "str_contains m str query = contains_loop m str query 0 0 (- 1)"

text \<open>\<open>q\<close> occurs in \<open>s\<close> at index \<open>r\<close>.\<close>

definition occurs_at :: "u8 list \<Rightarrow> u8 list \<Rightarrow> int \<Rightarrow> bool" where
  "occurs_at q s r \<longleftrightarrow> 0 \<le> r \<and> nat r + length q \<le> length s \<and> take (length q) (drop (nat r) s) = q"

lemma contains_loop_sound:
  assumes s: "cstr m str s" and q: "cstr m query q"
  shows "\<lbrakk> i \<le> length s; j \<le> i; j < length q \<or> j = 0; take j (drop (i - j) s) = take j q;
      0 \<le> startIdx \<longleftrightarrow> 0 < j \<rbrakk> \<Longrightarrow>
    \<exists>r. contains_loop m str query i j startIdx = Some r \<and> (r = - 1 \<or> occurs_at q s r)"
proof (induction "length s - i" arbitrary: i j startIdx)
  case 0
  then have "ld8 m (str + i) = 0"
    using cstr_end [OF s] by (simp add: ld8_def)
  then show ?case
    by (subst contains_loop.simps) simp
next
  case (Suc n)
  from Suc.hyps(2) have i: "i < length s" and n: "n = length s - Suc i" by auto
  have c: "ld8 m (str + i) = s ! i" "s ! i \<noteq> 0" and lim: "Suc i < 2147483648"
    using cstr_nth [OF s i] cstr_length [OF s] i by (auto simp: ld8_def)
  note IH = Suc.hyps(1) [OF n]
  show ?case
  proof (cases "s ! i = ld8 m (query + j)")
    case True
    then have j: "j < length q"
      using Suc.prems(3) c cstr_end [OF q] by (cases "j < length q") (auto simp: ld8_def)
    then have "s ! i = q ! j"
      using True cstr_nth [OF q j] by (simp add: ld8_def)
    have "take (Suc j) (drop (i - j) s) = take j (drop (i - j) s) @ [s ! i]"
      using i Suc.prems(2) by (simp add: take_Suc_conv_app_nth)
    then have ext: "take (Suc j) (drop (Suc i - Suc j) s) = take (Suc j) q"
      using Suc.prems(4) j \<open>s ! i = q ! j\<close> by (simp add: take_Suc_conv_app_nth)
    show ?thesis
    proof (cases "Suc j = length q")
      case True
      then have "nat (int i - int (length q) + 1) = Suc i - length q"
        using Suc.prems(2) by linarith
      then have "occurs_at q s (int i - int (length q) + 1)"
        using ext i Suc.prems(2) True by (auto simp: occurs_at_def)
      then show ?thesis
        using True \<open>s ! i = ld8 m (query + j)\<close> c lim str_len_cstr [OF q]
        by (subst contains_loop.simps) simp
    next
      case False
      then have "\<exists>r. contains_loop m str query (Suc i) (Suc j) (int i) = Some r \<and> (r = - 1 \<or> occurs_at q s r)"
        using ext j i Suc.prems(2) by (intro IH) auto
      then show ?thesis
        using False \<open>s ! i = ld8 m (query + j)\<close> c lim str_len_cstr [OF q]
        by (subst contains_loop.simps) simp
    qed
  next
    case False
    have "\<exists>r. contains_loop m str query (Suc i) 0 (- 1) = Some r \<and> (r = - 1 \<or> occurs_at q s r)"
      using i by (intro IH) auto
    moreover have "\<exists>r. contains_loop m str query (Suc i) j startIdx = Some r \<and> (r = - 1 \<or> occurs_at q s r)"
      if "\<not> 0 \<le> startIdx"
      using i that Suc.prems by (intro IH) auto
    ultimately show ?thesis
      using False c lim by (subst contains_loop.simps) simp
  qed
qed

text \<open>For a query of one character the answer is also complete.\<close>

lemma contains_loop_single:
  assumes s: "cstr m str s" and q: "cstr m query [d]"
  shows "\<lbrakk> i \<le> length s; startIdx = - 1 \<rbrakk> \<Longrightarrow>
    contains_loop m str query i 0 startIdx =
      Some (if d \<in> set (drop i s) then int i + int (length (takeWhile (\<lambda>c. c \<noteq> d) (drop i s))) else - 1)"
proof (induction "length s - i" arbitrary: i startIdx)
  case 0
  then have "ld8 m (str + i) = 0"
    using cstr_end [OF s] by (simp add: ld8_def)
  with 0 show ?case
    by (subst contains_loop.simps) simp
next
  case (Suc n)
  from Suc.hyps(2) have i: "i < length s" and n: "n = length s - Suc i" by auto
  have c: "ld8 m (str + i) = s ! i" "s ! i \<noteq> 0" and lim: "Suc i < 2147483648"
    using cstr_nth [OF s i] cstr_length [OF s] i by (auto simp: ld8_def)
  have qd: "ld8 m query = d" and ql: "str_len m query = Some 1"
    using cstr_ConsD [OF q] str_len_cstr [OF q] by (auto simp: ld8_def)
  have drop: "drop i s = s ! i # drop (Suc i) s"
    using i by (simp add: Cons_nth_drop_Suc)
  show ?case
  proof (cases "s ! i = d")
    case True
    then show ?thesis
      using c lim qd ql drop by (subst contains_loop.simps) simp
  next
    case False
    have "contains_loop m str query (Suc i) 0 startIdx =
        Some (if d \<in> set (drop (Suc i) s)
          then int (Suc i) + int (length (takeWhile (\<lambda>c. c \<noteq> d) (drop (Suc i) s))) else - 1)"
      using i n Suc.prems by (intro Suc.hyps(1)) auto
    then show ?thesis
      using False c lim qd drop Suc.prems by (subst contains_loop.simps) simp
  qed
qed

section \<open>Properties of the string routines\<close>

text \<open>A memory with two texts for the examples below: ``a/bc'' at 16 and ``bc'' at 32.\<close>

definition text_mem :: mem where
  "text_mem = blit (blit (\<lambda>_. 0) 16 [97, 47, 98, 99, 0]) 32 [98, 99, 0]"

lemma text_mem_cstr: "cstr text_mem 16 [97, 47, 98, 99]" "cstr text_mem 32 [98, 99]"
proof -
  have "cstr (blit (\<lambda>_. 0) 16 ([97, 47, 98, 99] @ [0])) 16 [97, 47, 98, 99]"
    by (rule blit_cstr) simp_all
  then show "cstr text_mem 16 [97, 47, 98, 99]"
    by (simp add: text_mem_def cstr_blit_apart apart_def)
  show "cstr text_mem 32 [98, 99]"
    using blit_cstr [of "[98, 99]" "blit (\<lambda>_. 0) 16 [97, 47, 98, 99, 0]" 32] by (simp add: text_mem_def)
qed

text \<open>
  C34. \<^verbatim>\<open>str_split_delim\<close> writes one row per piece and returns their number; every
  row after the first starts with the delimiter, so joining the rows gives the text back.
  Nothing outside the rows is written.
\<close>

theorem str_split_delim_rows:
  assumes "cstr m str s" and "\<forall>p\<in>set (pieces d [] s). length p < FMT_LEN"
    and "apart out (FMT_LEN * Suc (count_list s d)) str (length s + 1)"
  shows "\<exists>m'. str_split_delim m str d out = Some (m', Suc (count_list s d)) \<and>
    rows m' out (pieces d [] s) \<and> length (pieces d [] s) = Suc (count_list s d) \<and>
    concat (pieces d [] s) = s \<and>
    (\<forall>a. a < out \<or> out + FMT_LEN * Suc (count_list s d) \<le> a \<longrightarrow> m' a = m a)"
  using split_loop_cstr [where m = m and i = 0 and prev = 0 and cur = "[]" and ps = "[]" and d = d and out = out, OF assms(1)]
    assms(2,3) unfolding str_split_delim_def
  by (simp add: length_pieces concat_pieces rows_def)

theorem str_split_delim_rows_witness:
  "\<exists>m'. str_split_delim text_mem 16 47 64 = Some (m', 2) \<and> rows m' 64 [[97], [47, 98, 99]]"
  using str_split_delim_rows [OF text_mem_cstr(1), of 47 64] by (auto simp: apart_def)

text \<open>\<^verbatim>\<open>str_concat\<close> leaves the concatenation at the destination, terminated, and writes nothing else.\<close>

theorem str_concat_text:
  assumes "cstr m prev s" and "cstr m current t" and "length s + length t < 2147483647"
    and "apart dest (length s + length t + 1) prev (length s + 1)"
    and "apart dest (length s + length t + 1) current (length t + 1)"
  shows "\<exists>m'. str_concat m prev current dest = Some m' \<and> cstr m' dest (s @ t) \<and>
    cstr m' prev s \<and> cstr m' current t \<and>
    (\<forall>a. a < dest \<or> dest + length s + length t + 1 \<le> a \<longrightarrow> m' a = m a)"
proof -
  have "0 \<notin> set (s @ t)" using assms(1,2) by (simp add: cstr_def)
  then have "cstr (blit m dest ((s @ t) @ [0])) dest (s @ t)"
    using assms(3) by (intro blit_cstr) auto
  moreover have "cstr (blit m dest (s @ t @ [0])) prev s" "cstr (blit m dest (s @ t @ [0])) current t"
    using assms by (auto simp: cstr_blit_apart apart_def)
  ultimately show ?thesis
    using str_concat_cstr [OF assms(1,2,4,5)] by (auto intro: blit_frame)
qed

theorem str_concat_text_witness:
  "\<exists>m'. str_concat text_mem 16 32 64 = Some m' \<and> cstr m' 64 [97, 47, 98, 99, 98, 99]"
  using str_concat_text [OF text_mem_cstr, of 64] by (auto simp: apart_def)

text \<open>
  \<^verbatim>\<open>str_cmp\<close> returns 1 exactly for equal texts and -1 otherwise, and always
  returns; \<^verbatim>\<open>strn_cmp\<close> returns 0 exactly when the first \<open>n\<close> characters agree.
\<close>

theorem str_cmp_decides:
  assumes "cstr m a s" and "cstr m b t"
  shows "str_cmp m a b = Some (if s = t then 1 else - 1) \<and> (strn_cmp m a b n = 0 \<longleftrightarrow> take n s = take n t)"
  using str_cmp_cstr [OF assms] strn_cmp_cstr [OF assms] by simp

theorem str_cmp_decides_witness: "str_cmp text_mem 16 32 = Some (- 1) \<and> strn_cmp text_mem 18 32 1 = 0"
  using str_cmp_decides [OF text_mem_cstr, of 1] str_cmp_decides [OF _ text_mem_cstr(2), of 18 "[98, 99]" 1]
    cstr_ConsD(3) [OF cstr_ConsD(3) [OF text_mem_cstr(1) [simplified]]] by simp

text \<open>
  \<^verbatim>\<open>str_contains\<close> always returns, a position it returns is an occurrence, and for
  a query of one character it finds the first one.
\<close>

theorem str_contains_finds:
  assumes "cstr m str s" and "cstr m query q"
  shows "\<exists>r. str_contains m str query = Some r \<and> (r = - 1 \<or> occurs_at q s r) \<and>
    (\<forall>d. q = [d] \<longrightarrow> r = (if d \<in> set s then int (length (takeWhile (\<lambda>c. c \<noteq> d) s)) else - 1))"
proof -
  obtain r where r: "str_contains m str query = Some r" "r = - 1 \<or> occurs_at q s r"
    using contains_loop_sound [OF assms, of 0 0 "- 1"] by (auto simp: str_contains_def)
  moreover have "r = (if d \<in> set s then int (length (takeWhile (\<lambda>c. c \<noteq> d) s)) else - 1)" if "q = [d]" for d
    using contains_loop_single [OF assms(1) assms(2) [unfolded that], of 0 "- 1"] r(1) by (auto simp: str_contains_def)
  ultimately show ?thesis by blast
qed

theorem str_contains_finds_witness:
  "\<exists>r. str_contains text_mem 16 32 = Some r \<and> (r = - 1 \<or> occurs_at [98, 99] [97, 47, 98, 99] r)"
  using str_contains_finds [OF text_mem_cstr] by blast

text \<open>Reversing a text twice gives the text back.\<close>

theorem str_reverse_roundtrip:
  assumes "cstr m str s" and "apart b (length s + 1) str (length s + 1)" and "apart c (length s + 1) b (length s + 1)"
  shows "\<exists>m1 m2. str_reverse m str b = Some m1 \<and> cstr m1 b (rev s) \<and> str_reverse m1 b c = Some m2 \<and> cstr m2 c s"
proof -
  have s: "0 \<notin> set s" "length s < 2147483647" using assms(1) by (auto simp: cstr_def)
  let ?m1 = "blit m b (rev s @ [0])"
  have c1: "cstr ?m1 b (rev s)" using s by (intro blit_cstr) auto
  have "str_reverse ?m1 b c = Some (blit ?m1 c (rev (rev s) @ [0]))"
    using assms(3) by (intro str_reverse_cstr [OF c1]) simp
  moreover have "cstr (blit ?m1 c (s @ [0])) c s" using s by (intro blit_cstr)
  ultimately show ?thesis using c1 str_reverse_cstr [OF assms(1,2)] by auto
qed

theorem str_reverse_roundtrip_witness:
  "\<exists>m1 m2. str_reverse text_mem 16 64 = Some m1 \<and> cstr m1 64 [99, 98, 47, 97] \<and> str_reverse m1 64 96 = Some m2"
  using str_reverse_roundtrip [OF text_mem_cstr(1), of 64 96] by (auto simp: apart_def)

text \<open>
  \<^verbatim>\<open>str_contains\<close> does not start again inside a failed match: it does not find
  ``ab'' in ``aab'', although the text contains it.
\<close>

theorem str_contains_misses:
  assumes "cstr m str [97, 97, 98]" and "cstr m query [97, 98]"
  shows "str_contains m str query = Some (- 1) \<and> occurs_at [97, 98] [97, 97, 98] 1"
proof -
  have str: "ld8 m str = 97" "ld8 m (str + 1) = 97" "ld8 m (str + 2) = 98" "ld8 m (str + 3) = 0"
    using cstr_nth [OF assms(1), of 0] cstr_nth [OF assms(1), of 1] cstr_nth [OF assms(1), of 2] cstr_end [OF assms(1)]
    by (simp_all add: ld8_def eval_nat_numeral)
  have query: "ld8 m query = 97" "ld8 m (query + 1) = 98"
    using cstr_nth [OF assms(2), of 0] cstr_nth [OF assms(2), of 1] by (simp_all add: ld8_def)
  note len = str_len_cstr [OF assms(2)]
  have "contains_loop m str query 3 0 (- 1) = Some (- 1)"
    using str by (subst contains_loop.simps) simp
  moreover have "contains_loop m str query 2 0 (- 1) = contains_loop m str query (Suc 2) 0 (- 1)"
    using str query by (subst contains_loop.simps) simp
  moreover have "contains_loop m str query 1 1 0 = contains_loop m str query (Suc 1) 0 (- 1)"
    using str query by (subst contains_loop.simps) simp
  moreover have "contains_loop m str query 0 0 (- 1) = contains_loop m str query (Suc 0) (Suc 0) 0"
    using str query len by (subst contains_loop.simps) simp
  ultimately have "contains_loop m str query 0 0 (- 1) = Some (- 1)"
    by (simp add: eval_nat_numeral)
  then show ?thesis by (simp add: str_contains_def occurs_at_def)
qed

theorem str_contains_misses_witness:
  "str_contains (blit (blit (\<lambda>_. 0) 16 [97, 97, 98, 0]) 32 [97, 98, 0]) 16 32 = Some (- 1)"
proof -
  have "cstr (blit (blit (\<lambda>_. 0) 16 ([97, 97, 98] @ [0])) 32 [97, 98, 0]) 16 [97, 97, 98]"
    by (subst cstr_blit_apart) (simp add: apart_def, rule blit_cstr, simp_all)
  moreover have "cstr (blit (blit (\<lambda>_. 0) 16 [97, 97, 98, 0]) 32 ([97, 98] @ [0])) 32 [97, 98]"
    by (rule blit_cstr) simp_all
  ultimately show ?thesis using str_contains_misses by simp
qed

end
