(* ===== verification/Utils.thy ===== *)
theory Utils
  imports CStrings
begin

text \<open>
  The arithmetic and conversion helpers of \<^verbatim>\<open>sys/utils.c\<close>: \<^verbatim>\<open>pow\<close>,
  \<^verbatim>\<open>max\<close>, \<^verbatim>\<open>atoi\<close>, \<^verbatim>\<open>octTodec\<close>, \<^verbatim>\<open>get_starting_page\<close>,
  \<^verbatim>\<open>get_ending_page\<close> and \<^verbatim>\<open>itoa\<close>. The lemmas give the values: page
  rounding, decimal digit strings, the octal reading of a decimal number, and the round
  trip of \<^verbatim>\<open>itoa\<close> and \<^verbatim>\<open>atoi\<close>.
\<close>

section \<open>Powers, maximum, page rounding\<close>

text \<open>
  \<^verbatim>\<open>pow\<close> recurses on an \<^verbatim>\<open>int\<close> exponent; the kernel calls it with non-negative
  exponents only, for which the recursion is structural.
\<close>

fun pow :: "u64 \<Rightarrow> nat \<Rightarrow> u64" where
  "pow x 0 = 1"
| "pow x (Suc e) = x * pow x e"

definition max_u64 :: "u64 \<Rightarrow> u64 \<Rightarrow> u64" where
  "max_u64 a b = (if b < a then a else b)"

definition get_starting_page :: "u64 \<Rightarrow> u64" where
  "get_starting_page addr = addr - addr mod 0x1000"

definition get_ending_page :: "u64 \<Rightarrow> u64" where
  "get_ending_page addr = get_starting_page (addr + 0x1000 - 1)"

lemma pow_power: "pow x e = x ^ e"
  by (induction e) auto

lemma unat_get_starting_page: "unat (get_starting_page a) = unat a div 4096 * 4096"
proof -
  have "unat (a mod 0x1000) = unat a mod 4096"
    by (simp add: unat_mod_distrib)
  moreover have "a mod 0x1000 \<le> a"
    by (simp add: word_le_nat_alt unat_mod_distrib)
  ultimately have "unat (get_starting_page a) = unat a - unat a mod 4096"
    by (simp add: get_starting_page_def unat_sub)
  then show ?thesis
    by (simp add: minus_mod_eq_div_mult)
qed

lemma unat_get_ending_page:
  assumes "unat a + 4095 < 2 ^ 64"
  shows "unat (get_ending_page a) = (unat a + 4095) div 4096 * 4096"
proof -
  have "unat (a + 0xFFF) = unat a + 4095"
    using assms by (subst unat_add_lem [THEN iffD1]) auto
  moreover have "a + 0x1000 - 1 = a + 0xFFF"
    by simp
  ultimately show ?thesis
    by (simp only: get_ending_page_def unat_get_starting_page)
qed

section \<open>atoi\<close>

text \<open>
  A \<^verbatim>\<open>char\<close> is signed on this target; \<open>res * 10\<close> and the sum with the digit are
  \<^verbatim>\<open>int\<close> computations. The result is converted to the return type by the callers,
  who see the prototype \<^verbatim>\<open>int atoi(char *)\<close> of \<^verbatim>\<open>include/sys/utils.h\<close>.
\<close>

definition atoi_step :: "int \<Rightarrow> u8 \<Rightarrow> int option" where
  "atoi_step res c =
     (if int_ok (res * 10) \<and> int_ok (res * 10 + sint c) \<and> int_ok (res * 10 + sint c - 48)
      then Some (res * 10 + sint c - 48) else None)"

function atoi_loop :: "mem \<Rightarrow> nat \<Rightarrow> nat \<Rightarrow> int \<Rightarrow> int option" where
  "atoi_loop m str i res =
     (if ld8 m (str + i) = 0 then Some res
      else if Suc i < 2147483648
      then do { res \<leftarrow> atoi_step res (ld8 m (str + i)); atoi_loop m str (Suc i) res }
      else None)"
  by pat_completeness auto
termination
  by (relation "measure (\<lambda>(m, str, i, res). 2147483648 - i)") auto

declare atoi_loop.simps [simp del]

definition atoi :: "mem \<Rightarrow> nat \<Rightarrow> int option" where
  "atoi m str =
     (if ld8 m str = 45
      then do { res \<leftarrow> atoi_loop m str 1 0; if int_ok (- res) then Some (- res) else None }
      else atoi_loop m str 0 0)"

definition digit_of :: "u8 \<Rightarrow> nat" where
  "digit_of c = unat (c - 48)"

definition is_digit :: "u8 \<Rightarrow> bool" where
  "is_digit c \<longleftrightarrow> 48 \<le> c \<and> c \<le> 57"

text \<open>The number a digit string denotes, most significant digit first.\<close>

fun dec_val :: "nat \<Rightarrow> u8 list \<Rightarrow> nat" where
  "dec_val acc [] = acc"
| "dec_val acc (c # cs) = dec_val (acc * 10 + digit_of c) cs"

lemma dec_val_ge: "acc \<le> dec_val acc cs"
  by (induction acc cs rule: dec_val.induct) (auto intro: order_trans [rotated])

lemma digit_sint:
  assumes "is_digit c"
  shows "sint c = 48 + int (digit_of c)" and "digit_of c \<le> 9"
proof -
  have "48 \<le> unat c" "unat c \<le> 57"
    using assms by (auto simp: is_digit_def word_le_nat_alt)
  then have "unat c = 48 \<or> unat c = 49 \<or> unat c = 50 \<or> unat c = 51 \<or> unat c = 52 \<or>
      unat c = 53 \<or> unat c = 54 \<or> unat c = 55 \<or> unat c = 56 \<or> unat c = 57"
    by presburger
  then have "c \<in> {48, 49, 50, 51, 52, 53, 54, 55, 56, 57}"
    by (auto simp: word_unat_eq_iff)
  then show "sint c = 48 + int (digit_of c)" and "digit_of c \<le> 9"
    by (auto simp: digit_of_def)
qed

lemma atoi_loop_digits:
  assumes "cstr m str s"
  shows "\<lbrakk> i \<le> length s; \<forall>c\<in>set (drop i s). is_digit c; dec_val acc (drop i s) < 2147483600 \<rbrakk> \<Longrightarrow>
    atoi_loop m str i (int acc) = Some (int (dec_val acc (drop i s)))"
proof (induction "length s - i" arbitrary: i acc)
  case 0
  then show ?case
    using cstr_end [OF assms] by (subst atoi_loop.simps) (simp add: ld8_def)
next
  case (Suc n)
  from Suc.hyps(2) have i: "i < length s" and n: "n = length s - Suc i" by auto
  let ?c = "s ! i"
  have drop: "drop i s = ?c # drop (Suc i) s"
    using i by (simp add: Cons_nth_drop_Suc)
  have c: "ld8 m (str + i) = ?c" "?c \<noteq> 0" and lim: "Suc i < 2147483648"
    using cstr_nth [OF assms i] cstr_length [OF assms] i by (auto simp: ld8_def)
  have "is_digit ?c" using Suc.prems(2) drop by simp
  note d = digit_sint [OF this]
  have "acc * 10 + digit_of ?c < 2147483600"
    using Suc.prems(3) dec_val_ge [of "acc * 10 + digit_of ?c" "drop (Suc i) s"] by (simp add: drop)
  then have "atoi_step (int acc) ?c = Some (int (acc * 10 + digit_of ?c))"
    using d by (simp add: atoi_step_def int_ok_def)
  moreover have "atoi_loop m str (Suc i) (int (acc * 10 + digit_of ?c))
      = Some (int (dec_val (acc * 10 + digit_of ?c) (drop (Suc i) s)))"
    using Suc.prems drop i n by (intro Suc.hyps(1)) auto
  ultimately show ?case
    using c lim by (subst atoi_loop.simps) (simp add: drop)
qed

lemma is_digit_not_minus: "is_digit c \<Longrightarrow> c \<noteq> 45"
  by (auto simp: is_digit_def word_le_nat_alt)

lemma atoi_digits:
  assumes "cstr m str s" and "\<forall>c\<in>set s. is_digit c" and "dec_val 0 s < 2147483600"
  shows "atoi m str = Some (int (dec_val 0 s))"
proof -
  have "ld8 m str \<noteq> 45"
  proof (cases s)
    case Nil
    with assms(1) show ?thesis by (simp add: ld8_def)
  next
    case (Cons c s')
    with assms show ?thesis
      using cstr_ConsD [of m str c s'] by (auto simp: ld8_def is_digit_not_minus)
  qed
  then show ?thesis
    using atoi_loop_digits [OF assms(1), of 0 0] assms by (simp add: atoi_def)
qed

section \<open>octTodec\<close>

function octTodec_loop :: "u64 \<Rightarrow> nat \<Rightarrow> u64 \<Rightarrow> u64" where
  "octTodec_loop octal i decimal =
     (if octal \<noteq> 0
      then octTodec_loop (octal div 10) (Suc i) (decimal + octal mod 10 * pow 8 i)
      else decimal)"
  by pat_completeness auto
termination
proof (relation "measure (\<lambda>(octal, i, decimal). unat octal)")
  fix octal :: u64 and i :: nat and decimal :: u64
  assume "octal \<noteq> 0"
  then have "unat octal \<noteq> 0" by (simp add: unat_eq_0)
  then have "unat octal div 10 < unat octal" by simp
  then show "((octal div 10, Suc i, decimal + octal mod 10 * pow 8 i), octal, i, decimal)
      \<in> measure (\<lambda>(octal, i, decimal). unat octal)"
    by (simp add: unat_div_distrib)
qed simp

declare octTodec_loop.simps [simp del]

definition octTodec :: "u64 \<Rightarrow> u64" where
  "octTodec octal = octTodec_loop octal 0 0"

text \<open>The same reading on natural numbers: the decimal digits of \<open>n\<close> taken in base 8.\<close>

fun oct_of_dec :: "nat \<Rightarrow> nat" where
  "oct_of_dec n = (if n = 0 then 0 else n mod 10 + 8 * oct_of_dec (n div 10))"

declare oct_of_dec.simps [simp del]

fun oct_val :: "nat \<Rightarrow> u8 list \<Rightarrow> nat" where
  "oct_val acc [] = acc"
| "oct_val acc (c # cs) = oct_val (acc * 8 + digit_of c) cs"

lemma octTodec_loop_eq:
  "octTodec_loop octal i decimal = decimal + of_nat (8 ^ i * oct_of_dec (unat octal))"
proof (induction octal i decimal rule: octTodec_loop.induct)
  case (1 octal i decimal)
  show ?case
  proof (cases "octal = 0")
    case True
    then show ?thesis
      by (simp add: octTodec_loop.simps [of 0] oct_of_dec.simps [of 0])
  next
    case False
    then have "unat octal \<noteq> 0" by (simp add: unat_eq_0)
    then have "oct_of_dec (unat octal) = unat (octal mod 10) + 8 * oct_of_dec (unat (octal div 10))"
      by (simp add: oct_of_dec.simps [of "unat octal"] unat_mod_distrib unat_div_distrib)
    with False 1 show ?thesis
      by (simp add: octTodec_loop.simps [of octal] pow_power algebra_simps)
  qed
qed

lemma octTodec_eq: "octTodec octal = of_nat (oct_of_dec (unat octal))"
  by (simp add: octTodec_def octTodec_loop_eq)

lemma dec_val_snoc: "dec_val acc (cs @ [c]) = dec_val acc cs * 10 + digit_of c"
  by (induction acc cs rule: dec_val.induct) auto

lemma oct_val_snoc: "oct_val acc (cs @ [c]) = oct_val acc cs * 8 + digit_of c"
  by (induction acc cs rule: oct_val.induct) auto

lemma oct_of_dec_val:
  "\<forall>c\<in>set cs. is_digit c \<Longrightarrow> oct_of_dec (dec_val 0 cs) = oct_val 0 cs"
proof (induction cs rule: rev_induct)
  case Nil
  then show ?case by (simp add: oct_of_dec.simps)
next
  case (snoc c cs)
  let ?n = "dec_val 0 cs * 10 + digit_of c"
  have d: "digit_of c \<le> 9" using snoc.prems digit_sint(2) by simp
  then have "?n mod 10 = digit_of c" and "?n div 10 = dec_val 0 cs" by auto
  then have "oct_of_dec ?n = digit_of c + 8 * oct_of_dec (dec_val 0 cs)"
    by (subst oct_of_dec.simps) (auto simp: oct_of_dec.simps [of 0])
  with snoc show ?case
    by (simp add: dec_val_snoc oct_val_snoc)
qed

section \<open>itoa\<close>

text \<open>
  \<^verbatim>\<open>itoa\<close> gets the address of the end of a buffer and writes the digits downwards
  from it. A pointer that would pass address 0 has no value.
\<close>

definition hex_char :: "nat \<Rightarrow> u8" where
  "hex_char k = (if k < 10 then of_nat (48 + k) else of_nat (87 + k))"

function itoa_loop :: "mem \<Rightarrow> u64 \<Rightarrow> nat \<Rightarrow> nat \<Rightarrow> (mem \<times> nat) option" where
  "itoa_loop m val str base =
     (if val = 0 \<or> base < 2 then Some (m, str)
      else if str = 0 then None
      else itoa_loop (st8 m (str - 1) (hex_char (unat val mod base))) (of_nat (unat val div base))
             (str - 1) base)"
  by pat_completeness auto
termination
proof (relation "measure (\<lambda>(m, val, str, base). unat val)")
  fix m :: mem and val :: u64 and str base :: nat
  assume a: "\<not> (val = 0 \<or> base < 2)"
  have "unat val div base \<le> unat val" by simp
  also have "unat val < 2 ^ LENGTH(64)" by (rule unsigned_less)
  finally have "unat (of_nat (unat val div base) :: u64) = unat val div base"
    by (simp add: unat_of_nat take_bit_nat_eq_self)
  moreover have "unat val div base < unat val"
    using a by (simp add: unat_gt_0)
  ultimately show "((st8 m (str - 1) (hex_char (unat val mod base)), of_nat (unat val div base), str - 1, base),
      m, val, str, base) \<in> measure (\<lambda>(m, val, str, base). unat val)"
    by simp
qed simp

declare itoa_loop.simps [simp del]

definition itoa :: "mem \<Rightarrow> u64 \<Rightarrow> nat \<Rightarrow> int \<Rightarrow> (mem \<times> nat) option" where
  "itoa m val str base =
     (let m = st8 m str 0 in
      if val = 0 then if str = 0 then None else Some (st8 m (str - 1) 48, str - 1)
      else if base \<noteq> 10 \<and> base \<noteq> 16 then Some (m, str)
      else itoa_loop m val str (nat base))"

text \<open>The digits of a number in a base, most significant first.\<close>

function digits :: "nat \<Rightarrow> nat \<Rightarrow> u8 list" where
  "digits b n = (if n = 0 \<or> b < 2 then [] else digits b (n div b) @ [hex_char (n mod b)])"
  by pat_completeness auto
termination
  by (relation "measure snd") (auto simp: div_less_dividend)

declare digits.simps [simp del]

lemma digits_0 [simp]: "digits b 0 = []"
  by (subst digits.simps) simp

lemma blit_below: "st8 (blit m (Suc p) bs) p c = blit m p (c # bs)"
  by (auto simp: blit_def st8_def fun_eq_iff nth_Cons split: nat.splits
      intro!: arg_cong [where f = "\<lambda>i. bs ! i"])

lemma unat_of_nat_div: "unat (of_nat (unat (v :: u64) div b) :: u64) = unat v div b"
proof -
  have "unat v div b \<le> unat v" by simp
  also have "unat v < 2 ^ LENGTH(64)" by (rule unsigned_less)
  finally show ?thesis by (simp add: unat_of_nat take_bit_nat_eq_self)
qed

lemma itoa_loop_digits:
  assumes "2 \<le> base"
  shows "length (digits base (unat val)) \<le> str \<Longrightarrow>
    itoa_loop (blit m str bs) val str base =
      Some (blit m (str - length (digits base (unat val))) (digits base (unat val) @ bs),
            str - length (digits base (unat val)))"
  using assms
proof (induction "blit m str bs" val str base arbitrary: bs rule: itoa_loop.induct)
  case (1 val str base)
  show ?case
  proof (cases "val = 0")
    case True
    then show ?thesis by (simp add: itoa_loop.simps [of _ 0])
  next
    case False
    then have v: "unat val \<noteq> 0" by (simp add: unat_eq_0)
    let ?q = "of_nat (unat val div base) :: u64" and ?c = "hex_char (unat val mod base)"
    have ds: "digits base (unat val) = digits base (unat ?q) @ [?c]"
      using v "1.prems"(2) by (subst digits.simps) (simp add: unat_of_nat_div)
    then have "str \<noteq> 0" using "1.prems"(1) by auto
    then have st: "st8 (blit m str bs) (str - 1) ?c = blit m (str - 1) (?c # bs)"
      using blit_below [of m "str - 1" bs ?c] by simp
    have "itoa_loop (blit m (str - 1) (?c # bs)) ?q (str - 1) base =
        Some (blit m (str - 1 - length (digits base (unat ?q))) (digits base (unat ?q) @ ?c # bs),
              str - 1 - length (digits base (unat ?q)))"
      using "1.hyps" [of "?c # bs"] False \<open>str \<noteq> 0\<close> "1.prems" ds st by simp
    then show ?thesis
      using False "1.prems"(2) \<open>str \<noteq> 0\<close> st ds by (subst itoa_loop.simps) simp
  qed
qed

text \<open>What \<^verbatim>\<open>itoa\<close> prints: no leading zero, except for zero itself.\<close>

definition numeral_text :: "nat \<Rightarrow> nat \<Rightarrow> u8 list" where
  "numeral_text b n = (if n = 0 then [48] else digits b n)"

lemma itoa_text:
  assumes "base = 10 \<or> base = 16" and "length (numeral_text (nat base) (unat val)) \<le> str"
  shows "itoa m val str base =
    Some (blit m (str - length (numeral_text (nat base) (unat val)))
            (numeral_text (nat base) (unat val) @ [0]),
          str - length (numeral_text (nat base) (unat val)))"
proof (cases "val = 0")
  case True
  then show ?thesis
    using assms(2) blit_snoc [of m str "[]" 0] blit_below [of m "str - 1" "[0]" 48]
    by (simp add: itoa_def numeral_text_def)
next
  case False
  then have "numeral_text (nat base) (unat val) = digits (nat base) (unat val)"
    by (simp add: numeral_text_def unat_eq_0)
  moreover have "2 \<le> nat base" using assms(1) by auto
  moreover have "itoa m val str base = itoa_loop (blit m str [0]) val str (nat base)"
    using False assms(1) blit_snoc [of m str "[]" 0] by (auto simp: itoa_def)
  ultimately show ?thesis
    using assms(2) itoa_loop_digits [of "nat base" val str m "[0]"] by simp
qed

lemma hex_char_digit: "k < 10 \<Longrightarrow> is_digit (hex_char k) \<and> digit_of (hex_char k) = k"
proof -
  assume "k < 10"
  then have "k = 0 \<or> k = 1 \<or> k = 2 \<or> k = 3 \<or> k = 4 \<or> k = 5 \<or> k = 6 \<or> k = 7 \<or> k = 8 \<or> k = 9"
    by presburger
  then show ?thesis
    by (elim disjE) (simp_all add: hex_char_def is_digit_def digit_of_def)
qed

lemma digits_dec: "(\<forall>c\<in>set (digits 10 n). is_digit c) \<and> dec_val 0 (digits 10 n) = n"
proof (induction n rule: less_induct)
  case (less n)
  show ?case
  proof (cases "n = 0")
    case True
    then show ?thesis by simp
  next
    case False
    then have "n div 10 < n" by simp
    note IH = less [OF this]
    moreover have "digits 10 n = digits 10 (n div 10) @ [hex_char (n mod 10)]"
      using False by (subst digits.simps) simp
    ultimately show ?thesis
      using hex_char_digit [of "n mod 10"] by (auto simp: dec_val_snoc)
  qed
qed

lemma numeral_text_dec:
  "(\<forall>c\<in>set (numeral_text 10 n). is_digit c) \<and> dec_val 0 (numeral_text 10 n) = n"
  using digits_dec [of n] hex_char_digit [of 0] by (auto simp: numeral_text_def hex_char_def)

lemma length_digits: "2 \<le> b \<Longrightarrow> n < b ^ k \<Longrightarrow> length (digits b n) \<le> k"
proof (induction k arbitrary: n)
  case 0
  then show ?case by simp
next
  case (Suc k)
  show ?case
  proof (cases "n = 0")
    case True
    then show ?thesis by simp
  next
    case False
    have "n div b < b ^ k"
      using Suc.prems by (simp add: less_mult_imp_div_less mult.commute)
    moreover have "digits b n = digits b (n div b) @ [hex_char (n mod b)]"
      using False Suc.prems(1) by (subst digits.simps) simp
    ultimately show ?thesis
      using Suc by simp
  qed
qed

section \<open>Properties of the number routines\<close>



lemma octal_text:
  assumes "cstr m str s" and "\<forall>c\<in>set s. is_digit c" and "dec_val 0 s < 2147483600"
  shows "\<exists>v. atoi m str = Some v \<and> 0 \<le> v \<and> octTodec (of_int v) = of_nat (oct_val 0 s)"
proof -
  have "unat (of_nat (dec_val 0 s) :: u64) = dec_val 0 s"
    using assms(3) by (simp add: unat_of_nat_low low_def)
  then have "octTodec (of_nat (dec_val 0 s)) = of_nat (oct_val 0 s)"
    using assms(2) by (simp add: octTodec_eq oct_of_dec_val)
  then show ?thesis
    using atoi_digits [OF assms] by simp
qed

text \<open>
  The size field of an archive header: reading an octal text with \<^verbatim>\<open>atoi\<close> as if
  it were decimal and converting the result with \<^verbatim>\<open>octTodec\<close> gives the octal value.
\<close>

theorem octTodec_atoi:
  assumes "cstr m str s" and "\<forall>c\<in>set s. is_digit c" and "dec_val 0 s < 2147483600"
  shows "\<exists>v. atoi m str = Some v \<and> 0 \<le> v \<and> octTodec (of_int v) = of_nat (oct_val 0 s)"
  by (rule octal_text [OF assms])

theorem octTodec_atoi_witness:
  "\<exists>v. atoi (blit (\<lambda>_. 0) 16 [49, 50, 55, 0]) 16 = Some v \<and> octTodec (of_int v) = 87"
proof -
  have "cstr (blit (\<lambda>_. 0) 16 ([49, 50, 55] @ [0])) 16 [49, 50, 55]" by (rule blit_cstr) simp_all
  then show ?thesis
    using octTodec_atoi [of "blit (\<lambda>_. 0) 16 [49, 50, 55, 0]" 16 "[49, 50, 55]"]
    by (auto simp: is_digit_def digit_of_def)
qed

text \<open>
  \<^verbatim>\<open>get_starting_page\<close> and \<^verbatim>\<open>get_ending_page\<close> round to page boundaries:
  the result is aligned and less than a page away on the right side.
\<close>

theorem page_rounding:
  assumes "unat a + 4095 < 2 ^ 64"
  shows "4096 dvd unat (get_starting_page a) \<and> unat (get_starting_page a) \<le> unat a \<and>
    unat a < unat (get_starting_page a) + 4096 \<and>
    4096 dvd unat (get_ending_page a) \<and> unat a \<le> unat (get_ending_page a) \<and>
    unat (get_ending_page a) < unat a + 4096"
  unfolding unat_get_starting_page unat_get_ending_page [OF assms]
  by (auto simp: minus_mod_eq_div_mult [symmetric])

theorem page_rounding_witness:
  "unat (get_starting_page 5000) \<le> 5000 \<and> 5000 \<le> unat (get_ending_page 5000)"
  using page_rounding [of 5000] by simp

end
