(* ===== verification/FrameAlloc.thy ===== *)
theory FrameAlloc
  imports Utils
begin

text \<open>
  The page-frame allocator of \<^verbatim>\<open>sys/mem.c\<close>: the array of \<^verbatim>\<open>struct page\<close>
  descriptors that \<^verbatim>\<open>calculate_free_list\<close> builds at \<^verbatim>\<open>physfree\<close>, the first-fit
  allocators \<^verbatim>\<open>kmalloc_init\<close> and \<^verbatim>\<open>kmalloc\<close>, \<^verbatim>\<open>free\<close> and the
  reference counts. The descriptors live in the same memory as the pages they describe.

  \<open>fl_inv st lo hi n\<close> is the invariant of the descriptor array: descriptors below \<open>hi\<close>
  are linked and intact, the pages below \<open>lo\<close> are taken, the pages from \<open>lo\<close> to
  \<open>hi\<close> are free. The locale \<open>frame_source\<close> is the contract the page-table code relies
  on; both allocators meet it.
\<close>

section \<open>State and descriptors\<close>

record kst =
  kmem :: mem
  free_list :: u64

text \<open>
  \<^verbatim>\<open>struct page\<close>: \<^verbatim>\<open>next\<close> at offset 0, \<^verbatim>\<open>used\<close> at 8,
  \<^verbatim>\<open>block_size\<close> at 12, \<^verbatim>\<open>ref_count\<close> at 16, padded to 24 bytes.
\<close>

abbreviation sizeof_page :: nat where
  "sizeof_page \<equiv> 24"

definition pg_next :: "mem \<Rightarrow> u64 \<Rightarrow> u64" where
  "pg_next m p = ld64 m (loc p)"

definition pg_used :: "mem \<Rightarrow> u64 \<Rightarrow> u32" where
  "pg_used m p = ld32 m (loc p + 8)"

definition pg_block_size :: "mem \<Rightarrow> u64 \<Rightarrow> u32" where
  "pg_block_size m p = ld32 m (loc p + 12)"

definition pg_ref_count :: "mem \<Rightarrow> u64 \<Rightarrow> u32" where
  "pg_ref_count m p = ld32 m (loc p + 16)"

definition set_page :: "mem \<Rightarrow> u64 \<Rightarrow> u32 \<Rightarrow> u32 \<Rightarrow> u32 \<Rightarrow> mem" where
  "set_page m p used block_size ref_count =
     st32 (st32 (st32 m (loc p + 8) used) (loc p + 12) block_size) (loc p + 16) ref_count"

section \<open>calculate_free_list\<close>

text \<open>
  The two initialising loops write \<^verbatim>\<open>used\<close>, the pages that remain as
  \<^verbatim>\<open>block_size\<close>, \<^verbatim>\<open>ref_count\<close> and the link, and move on by the link.
\<close>

fun fl_init_loop :: "mem \<Rightarrow> u64 \<Rightarrow> u32 \<Rightarrow> u32 \<Rightarrow> nat \<Rightarrow> mem \<times> u64" where
  "fl_init_loop m p used ref_count 0 = (m, p)"
| "fl_init_loop m p used ref_count (Suc n) =
     (let m = set_page m p used (of_nat (Suc n)) ref_count;
          m = st64 m (loc p) (p + 24)
      in fl_init_loop m (pg_next m p) used ref_count n)"

text \<open>
  The loop that reserves the pages of the list itself; it sets \<^verbatim>\<open>ref_count\<close> of the
  element \<^verbatim>\<open>free_list\<close> points to (the end marker), not of the page it reserves.
\<close>

fun fl_reserve_loop :: "mem \<Rightarrow> u64 \<Rightarrow> u64 \<Rightarrow> nat \<Rightarrow> mem" where
  "fl_reserve_loop m free_ptr fl 0 = m"
| "fl_reserve_loop m free_ptr fl (Suc n) =
     (let m = st32 m (loc free_ptr + 8) 1;
          m = st32 m (loc free_ptr + 12) (of_nat (Suc n));
          m = st32 m (loc fl + 16) 1
      in fl_reserve_loop m (pg_next m free_ptr) fl n)"

definition calculate_free_list :: "kst \<Rightarrow> u64 \<Rightarrow> u64 \<Rightarrow> kst option" where
  "calculate_free_list st num_pages physfree =
     (let used_pages = physfree div 0x1000;
          free_pages = num_pages - used_pages;
          (m, free_ptr) = fl_init_loop (kmem st) physfree 1 1 (unat used_pages);
          (m, fl) = fl_init_loop m free_ptr 0 0 (unat free_pages);
          m = st32 m (loc fl + 8) (- 1);
          used_flspace = to_int (num_pages * 24 div 4096)
      in if used_flspace < 0 then None
         else Some (st\<lparr>kmem := fl_reserve_loop m free_ptr fl (nat used_flspace),
                       free_list := physfree\<rparr>))"

section \<open>kmalloc_init and kmalloc\<close>

definition pages_for :: "u64 \<Rightarrow> int" where
  "pages_for sz = (if 0 < sz mod 4096 then to_int (sz div 4096 + 1) else to_int (sz div 4096))"

text \<open>
  The search loop. \<open>tr\<close> is how the code turns a stored link into the pointer it follows:
  nothing in \<^verbatim>\<open>kmalloc_init\<close>, \<^verbatim>\<open>VADDR\<close> in \<^verbatim>\<open>kmalloc\<close>. The inner
  \<^const>\<open>None\<close> is the null pointer at the end of the list.
\<close>

partial_function (option) find_block ::
  "(u64 \<Rightarrow> u64) \<Rightarrow> mem \<Rightarrow> u64 \<Rightarrow> int \<Rightarrow> u64 \<Rightarrow> (u64 \<times> u64) option option" where
  "find_block tr m temp pages count =
     (if temp = 0 then Some None
      else if pg_used m temp = 0 \<and> pages \<le> sint (pg_block_size m temp) then Some (Some (temp, count))
      else find_block tr m (tr (pg_next m temp)) pages (count + 1))"

text \<open>\<^verbatim>\<open>while (--pages != 0)\<close>: marks the following pages of the block.\<close>

function mark_loop :: "(u64 \<Rightarrow> u64) \<Rightarrow> mem \<Rightarrow> u64 \<Rightarrow> int \<Rightarrow> mem option" where
  "mark_loop tr m temp pages =
     (if int_ok (pages - 1) then
        if pages - 1 = 0 then Some m
        else let m' = set_page m temp 1 (word_of_int (pages - 1)) 1
             in mark_loop tr m' (tr (pg_next m' temp)) (pages - 1)
      else None)"
  by pat_completeness auto
termination
  by (relation "measure (\<lambda>(tr, m, temp, pages). nat (pages + 2147483648))") (auto simp: int_ok_def)

declare mark_loop.simps [simp del]

text \<open>
  The body the allocators share: the physical address of the block, or \<^const>\<open>None\<close> when the
  search ends at a null pointer.
\<close>

definition alloc_block :: "(u64 \<Rightarrow> u64) \<Rightarrow> kst \<Rightarrow> u64 \<Rightarrow> (kst \<times> u64 option) option" where
  "alloc_block tr st sz =
     (let pages = pages_for sz in
      do { r \<leftarrow> find_block tr (kmem st) (tr (free_list st)) pages 0;
           case r of
             None \<Rightarrow> Some (st, None)
           | Some (temp, count) \<Rightarrow>
               let m = set_page (kmem st) temp 1 (word_of_int pages) 1;
                   ret = count * 4096;
                   bytes = pages * 4096
               in if int_ok bytes \<and> 0 \<le> bytes then
                    let m = memset m (loc (tr ret)) 0 (nat bytes) in
                    do { m \<leftarrow> mark_loop tr m (tr (pg_next m temp)) pages;
                         Some (st\<lparr>kmem := m\<rparr>, Some ret) }
                  else None })"

definition alloc_from :: "(u64 \<Rightarrow> u64) \<Rightarrow> kst \<Rightarrow> u64 \<Rightarrow> (kst \<times> u64) option" where
  "alloc_from tr st sz =
     do { (st, r) \<leftarrow> alloc_block tr st sz;
          Some (st, case r of None \<Rightarrow> 0 | Some ret \<Rightarrow> VADDR ret) }"

definition kmalloc_init :: "kst \<Rightarrow> u64 \<Rightarrow> (kst \<times> u64) option" where
  "kmalloc_init = alloc_from (\<lambda>p. p)"

definition kmalloc :: "kst \<Rightarrow> u64 \<Rightarrow> (kst \<times> u64) option" where
  "kmalloc = alloc_from VADDR"

section \<open>Descriptor lookup, reference counts and free\<close>

text \<open>
  \<^verbatim>\<open>(struct page*)free_list + page_num*sizeof(struct page)\<close> is pointer arithmetic on
  \<^verbatim>\<open>struct page *\<close>, so the index is scaled by the size a second time.
\<close>

definition get_page_at_address :: "kst \<Rightarrow> u64 \<Rightarrow> u64" where
  "get_page_at_address st address =
     (let addr = (if KERNEL_VADDR < address then get_starting_page (PADDR address)
                  else get_starting_page address);
          page_num = addr div 4096
      in free_list st + (page_num * 24) * 24)"

definition dec_ref_count :: "kst \<Rightarrow> u64 \<Rightarrow> kst" where
  "dec_ref_count st addr =
     (let p = get_page_at_address st addr
      in st\<lparr>kmem := st32 (kmem st) (loc p + 16) (pg_ref_count (kmem st) p - 1)\<rparr>)"

definition inc_ref_count :: "kst \<Rightarrow> u64 \<Rightarrow> kst" where
  "inc_ref_count st addr =
     (let p = get_page_at_address st addr
      in st\<lparr>kmem := st32 (kmem st) (loc p + 16) (pg_ref_count (kmem st) p - 1)\<rparr>)"

definition get_page_ref_count :: "kst \<Rightarrow> u64 \<Rightarrow> int" where
  "get_page_ref_count st addr = sint (pg_ref_count (kmem st) (get_page_at_address st addr))"

definition get_num_pages_allocated :: "kst \<Rightarrow> u64 \<Rightarrow> int" where
  "get_num_pages_allocated st ptr =
     (let page_num = ptr div 4096
      in sint (pg_block_size (kmem st) (free_list st + (page_num * 24) * 24)))"

fun free_loop :: "mem \<Rightarrow> u64 \<Rightarrow> nat \<Rightarrow> mem" where
  "free_loop m address_page 0 = m"
| "free_loop m address_page (Suc n) =
     (let m = set_page m address_page 0 (of_nat (Suc n)) 0
      in free_loop m (pg_next m address_page) n)"

definition free :: "kst \<Rightarrow> u64 \<Rightarrow> kst option" where
  "free st ptr =
     (let address_page = get_page_at_address st ptr;
          num_pages = sint (pg_block_size (kmem st) address_page)
      in if 0 \<le> num_pages \<and> int_ok (num_pages * 4096) then
           let m = memset (kmem st) (loc ptr) 0 (nat (num_pages * 4096))
           in Some (st\<lparr>kmem := free_loop m address_page (nat num_pages)\<rparr>)
         else None)"

section \<open>Reading back a descriptor\<close>

text \<open>
  The next lemmas speak of descriptor \<open>i\<close> of the array at physical address \<open>F\<close>,
  which starts at \<open>F + 24 * i\<close>.
\<close>

lemma set_page_frame:
  "a < loc p + 8 \<or> loc p + 20 \<le> a \<Longrightarrow> set_page m p u b r a = m a"
  unfolding set_page_def by (subst cell32.st_frame, force)+ simp

lemma set_page_fields [simp]:
  "ld32 (set_page m p u b r) (loc p + 8) = u"
  "ld32 (set_page m p u b r) (loc p + 12) = b"
  "ld32 (set_page m p u b r) (loc p + 16) = r"
  "ld64 (set_page m p u b r) (loc p) = ld64 m (loc p)"
  by (simp_all add: set_page_def mem_simps)

lemma set_page_other:
  assumes "q + k \<le> loc p + 8 \<or> loc p + 20 \<le> q"
  shows "same_on q k (set_page m p u b r) m"
  using assms by (auto simp: same_on_def intro: set_page_frame)

lemma ld32_same: "same_on q 4 m m' \<Longrightarrow> ld32 m q = ld32 m' q"
  by (rule cell32.ld_same)

lemma ld64_same: "same_on q 8 m m' \<Longrightarrow> ld64 m q = ld64 m' q"
  by (rule cell64.ld_same)

lemma same_on_sub: "same_on p n m m' \<Longrightarrow> p \<le> q \<Longrightarrow> q + k \<le> p + n \<Longrightarrow> same_on q k m m'"
  by (auto simp: same_on_def)

lemma desc_same:
  assumes "same_on d 24 m m'"
  shows "ld64 m d = ld64 m' d" "ld32 m (d + 8) = ld32 m' (d + 8)" "ld32 m (d + 12) = ld32 m' (d + 12)"
  by (rule ld64_same ld32_same, rule same_on_sub [OF assms], simp, simp)+

section \<open>The invariant of the descriptor array\<close>

definition desc_ptr :: "nat \<Rightarrow> nat \<Rightarrow> u64" where
  "desc_ptr F i = of_nat (F + 24 * i)"

definition fl_linked :: "mem \<Rightarrow> nat \<Rightarrow> nat \<Rightarrow> bool" where
  "fl_linked m F hi \<longleftrightarrow> (\<forall>i<hi. ld64 m (F + 24 * i) = desc_ptr F (Suc i))"

definition fl_inv :: "kst \<Rightarrow> nat \<Rightarrow> nat \<Rightarrow> nat \<Rightarrow> bool" where
  "fl_inv st lo hi n \<longleftrightarrow>
     (let F = unat (free_list st); m = kmem st in
      0 < F \<and> F + 24 * hi \<le> 4096 * lo \<and> lo \<le> hi \<and> hi \<le> n \<and> low (4096 * n) \<and>
      fl_linked m F hi \<and>
      (\<forall>i<lo. ld32 m (F + 24 * i + 8) \<noteq> 0) \<and>
      (\<forall>i<hi. lo \<le> i \<longrightarrow> ld32 m (F + 24 * i + 8) = 0 \<and>
                        sint (ld32 m (F + 24 * i + 12)) = int (n - i)))"

text \<open>A stored link can be followed as it is or through the direct map.\<close>

locale direct_map =
  fixes tr :: "u64 \<Rightarrow> u64"
  assumes loc_tr: "low a \<Longrightarrow> loc (tr (of_nat a)) = a"
    and tr_nonzero: "low a \<Longrightarrow> 0 < a \<Longrightarrow> tr (of_nat a) \<noteq> 0"
    and tr_add: "tr (x + y) = tr x + y"
begin

lemma loc_desc: "low (F + 24 * i) \<Longrightarrow> loc (tr (desc_ptr F i)) = F + 24 * i"
  unfolding desc_ptr_def by (rule loc_tr)

lemma desc_nonzero: "low (F + 24 * i) \<Longrightarrow> 0 < F \<Longrightarrow> tr (desc_ptr F i) \<noteq> 0"
  unfolding desc_ptr_def by (rule tr_nonzero) auto

lemma find_block_first:
  assumes lnk: "fl_linked m F hi" and F: "0 < F" "low (F + 24 * hi)"
    and taken: "\<forall>i<lo. ld32 m (F + 24 * i + 8) \<noteq> 0" and lo: "lo < hi"
    and free: "ld32 m (F + 24 * lo + 8) = 0" "pages \<le> sint (ld32 m (F + 24 * lo + 12))"
  shows "i \<le> lo \<Longrightarrow> find_block tr m (tr (desc_ptr F i)) pages (of_nat i)
    = Some (Some (tr (desc_ptr F lo), of_nat lo))"
proof (induction "lo - i" arbitrary: i)
  case 0
  then have "i = lo" by simp
  moreover have "low (F + 24 * lo)" using F(2) lo by (auto intro: low_mono)
  ultimately show ?case
    using free F by (subst find_block.simps) (simp add: desc_nonzero pg_used_def pg_block_size_def loc_desc)
next
  case (Suc k)
  then have i: "i < lo" by simp
  have l: "low (F + 24 * i)" using F(2) lo i by (auto intro: low_mono)
  then have "pg_used m (tr (desc_ptr F i)) \<noteq> 0"
    using taken i by (simp add: pg_used_def loc_desc)
  moreover have "pg_next m (tr (desc_ptr F i)) = desc_ptr F (Suc i)"
    using lnk i lo l by (simp add: pg_next_def loc_desc fl_linked_def)
  moreover have "tr (desc_ptr F i) \<noteq> 0"
    using l F(1) by (simp add: desc_nonzero)
  moreover have "find_block tr m (tr (desc_ptr F (Suc i))) pages (of_nat (Suc i))
      = Some (Some (tr (desc_ptr F lo), of_nat lo))"
    using Suc by (intro Suc.hyps(1)) auto
  ultimately show ?case
    by (subst find_block.simps) (simp add: add.commute)
qed

lemma mark_loop_marks:
  assumes "low (F + 24 * (i + k))" and "k < 2147483648"
    and "\<forall>j. i \<le> j \<and> j < i + k \<longrightarrow> ld64 m (F + 24 * j) = desc_ptr F (Suc j)"
  shows "\<exists>m'. mark_loop tr m (tr (desc_ptr F i)) (int (Suc k)) = Some m' \<and>
      (\<forall>a. a < F + 24 * i \<or> F + 24 * (i + k) \<le> a \<longrightarrow> m' a = m a) \<and>
      (\<forall>j. i \<le> j \<and> j < i + k \<longrightarrow> ld64 m' (F + 24 * j) = ld64 m (F + 24 * j) \<and> ld32 m' (F + 24 * j + 8) = 1)"
  using assms
proof (induction k arbitrary: i m)
  case 0
  then show ?case
    by (subst mark_loop.simps) (auto simp: int_ok_def)
next
  case (Suc k)
  let ?p = "tr (desc_ptr F i)"
  let ?m = "set_page m ?p 1 (word_of_int (int (Suc k))) 1"
  have p: "loc ?p = F + 24 * i"
    using Suc.prems(1) by (intro loc_desc) (auto intro: low_mono)
  have nxt: "pg_next ?m ?p = desc_ptr F (Suc i)"
    using Suc.prems(3) using set_page_fields(4) [of m ?p] by (simp add: pg_next_def p)
  have keep: "ld64 ?m (F + 24 * j) = ld64 m (F + 24 * j)" if "i < j" for j
    by (rule ld64_same, rule set_page_other) (use that p in auto)
  have "\<exists>m'. mark_loop tr ?m (tr (desc_ptr F (Suc i))) (int (Suc k)) = Some m' \<and>
      (\<forall>a. a < F + 24 * Suc i \<or> F + 24 * (Suc i + k) \<le> a \<longrightarrow> m' a = ?m a) \<and>
      (\<forall>j. Suc i \<le> j \<and> j < Suc i + k \<longrightarrow> ld64 m' (F + 24 * j) = ld64 ?m (F + 24 * j) \<and> ld32 m' (F + 24 * j + 8) = 1)"
    using Suc.prems keep by (intro Suc.IH) auto
  then obtain m' where m': "mark_loop tr ?m (tr (desc_ptr F (Suc i))) (int (Suc k)) = Some m'"
    "\<forall>a. a < F + 24 * Suc i \<or> F + 24 * (Suc i + k) \<le> a \<longrightarrow> m' a = ?m a"
    "\<forall>j. Suc i \<le> j \<and> j < Suc i + k \<longrightarrow> ld64 m' (F + 24 * j) = ld64 ?m (F + 24 * j) \<and> ld32 m' (F + 24 * j + 8) = 1"
    by blast
  have "mark_loop tr m ?p (int (Suc (Suc k))) = Some m'"
    using m'(1) nxt Suc.prems(2) by (subst mark_loop.simps) (simp add: int_ok_def Let_def)
  moreover have "m' a = m a" if "a < F + 24 * i \<or> F + 24 * (i + Suc k) \<le> a" for a
    using that m'(2) p by (auto simp: set_page_frame)
  moreover have "ld64 m' (F + 24 * j) = ld64 m (F + 24 * j) \<and> ld32 m' (F + 24 * j + 8) = 1"
    if "i \<le> j \<and> j < i + Suc k" for j
  proof (cases "j = i")
    case True
    have s: "same_on (F + 24 * i) 24 m' ?m"
      using m'(2) by (simp add: same_on_def)
    show ?thesis
      using desc_same [OF s] True by (simp add: p [symmetric])
  next
    case False
    with that m'(3) keep show ?thesis by simp
  qed
  ultimately show ?case by blast
qed

end

interpretation init_map: direct_map "\<lambda>p. p"
proof
  fix a :: nat
  assume a: "low a"
  then show "loc (of_nat a) = a" by (rule loc_of_nat)
  assume "0 < a"
  with a show "(of_nat a :: u64) \<noteq> 0"
    using of_nat_low_inj [of a 0] by (simp add: low_def)
qed simp

interpretation vaddr_map: direct_map VADDR
proof
  fix a :: nat
  assume a: "low a"
  then show "loc (VADDR (of_nat a)) = a" by (rule loc_VADDR_of_nat)
  show "VADDR (of_nat a) \<noteq> 0"
  proof
    assume "VADDR (of_nat a) = 0"
    then have "(of_nat a :: u64) = - KERNEL_VADDR"
      by (simp add: VADDR_def add_eq_0_iff)
    then have "unat (of_nat a :: u64) = 2147483648"
      by (simp add: KERNEL_VADDR_def)
    with a show False by (simp add: unat_of_nat_low) (simp add: low_def)
  qed
qed (simp add: VADDR_def add.assoc)

section \<open>What an allocation does\<close>

text \<open>Unfolded access to the invariant.\<close>

lemma fl_invD:
  assumes "fl_inv st lo hi n"
  defines "F \<equiv> unat (free_list st)" and "m \<equiv> kmem st"
  shows "0 < F" "F + 24 * hi \<le> 4096 * lo" "lo \<le> hi" "hi \<le> n" "low (4096 * n)" "fl_linked m F hi"
    "\<forall>i<lo. ld32 m (F + 24 * i + 8) \<noteq> 0"
    "\<forall>i<hi. lo \<le> i \<longrightarrow> ld32 m (F + 24 * i + 8) = 0 \<and> sint (ld32 m (F + 24 * i + 12)) = int (n - i)"
    "free_list st = desc_ptr F 0"
  using assms by (simp_all add: fl_inv_def Let_def desc_ptr_def)

text \<open>The effect of an allocation of \<open>k\<close> pages on memory, and the new invariant.\<close>

definition alloc_post :: "kst \<Rightarrow> kst \<Rightarrow> nat \<Rightarrow> nat \<Rightarrow> nat \<Rightarrow> bool" where
  "alloc_post st st' lo k hi \<longleftrightarrow>
     free_list st' = free_list st \<and>
     (\<forall>a. 4096 * lo \<le> a \<and> a < 4096 * (lo + k) \<longrightarrow> kmem st' a = 0) \<and>
     (\<forall>a. (a < unat (free_list st) \<or> unat (free_list st) + 24 * hi \<le> a) \<and>
          (a < 4096 * lo \<or> 4096 * (lo + k) \<le> a) \<longrightarrow> kmem st' a = kmem st a)"

lemma fl_inv_mark:
  assumes inv: "fl_inv st lo hi n" and k: "0 < k" "lo + k \<le> hi"
    and F: "F = unat (free_list st)"
    and below: "\<forall>j<lo. same_on (F + 24 * j) 24 m' (kmem st)"
    and marked: "\<forall>j. lo \<le> j \<and> j < lo + k \<longrightarrow>
        ld64 m' (F + 24 * j) = ld64 (kmem st) (F + 24 * j) \<and> ld32 m' (F + 24 * j + 8) \<noteq> 0"
    and above: "\<forall>j<hi. lo + k \<le> j \<longrightarrow> same_on (F + 24 * j) 24 m' (kmem st)"
  shows "fl_inv (st\<lparr>kmem := m'\<rparr>) (lo + k) hi n"
proof -
  note I = fl_invD [OF inv, folded F]
  have "fl_linked m' F hi"
    unfolding fl_linked_def
  proof (intro allI impI)
    fix i assume i: "i < hi"
    consider "i < lo" | "lo \<le> i \<and> i < lo + k" | "lo + k \<le> i" by linarith
    then have "ld64 m' (F + 24 * i) = ld64 (kmem st) (F + 24 * i)"
      by cases (use i below marked above in \<open>auto dest: desc_same(1)\<close>)
    then show "ld64 m' (F + 24 * i) = desc_ptr F (Suc i)"
      using I(6) i by (simp add: fl_linked_def)
  qed
  moreover have "ld32 m' (F + 24 * i + 8) \<noteq> 0" if "i < lo + k" for i
    by (cases "i < lo") (use that below marked I(7) in \<open>auto simp: desc_same(2)\<close>)
  moreover have "ld32 m' (F + 24 * i + 8) = 0 \<and> sint (ld32 m' (F + 24 * i + 12)) = int (n - i)"
    if "i < hi" "lo + k \<le> i" for i
    using that desc_same [OF above [rule_format, OF that]] I(8) by simp
  ultimately show ?thesis
    using I(1-5) k by (simp add: fl_inv_def Let_def F [symmetric])
qed

text \<open>
  The memory after the first descriptor is marked and the block is cleared: the other
  descriptors are untouched, the links are intact.
\<close>

definition mark_clear :: "mem \<Rightarrow> u64 \<Rightarrow> nat \<Rightarrow> nat \<Rightarrow> mem" where
  "mark_clear m p lo k = memset (set_page m p 1 (word_of_int (int k)) 1) (4096 * lo) 0 (4096 * k)"

lemma mark_clear_desc:
  assumes p: "loc p = F + 24 * lo" and area: "F + 24 * hi \<le> 4096 * lo" and lo: "lo < hi"
  shows "j < hi \<Longrightarrow> j \<noteq> lo \<Longrightarrow> same_on (F + 24 * j) 24 (mark_clear m p lo k) m"
    and "ld64 (mark_clear m p lo k) (F + 24 * lo) = ld64 m (F + 24 * lo)"
    and "ld32 (mark_clear m p lo k) (F + 24 * lo + 8) = 1"
proof -
  let ?m1 = "set_page m p 1 (word_of_int (int k)) 1"
  have d: "same_on (F + 24 * j) 24 (mark_clear m p lo k) ?m1" if "j < hi" for j
    using that area by (auto simp: same_on_def mark_clear_def memset_apply)
  show "same_on (F + 24 * j) 24 (mark_clear m p lo k) m" if "j < hi" "j \<noteq> lo"
  proof -
    have "same_on (F + 24 * j) 24 ?m1 m"
      by (rule set_page_other) (use that p in auto)
    with d [OF that(1)] show ?thesis by (simp add: same_on_def)
  qed
  show "ld64 (mark_clear m p lo k) (F + 24 * lo) = ld64 m (F + 24 * lo)"
    and "ld32 (mark_clear m p lo k) (F + 24 * lo + 8) = 1"
    using desc_same [OF d [OF lo]] set_page_fields(1,4) [of m p] by (simp_all add: p)
qed

lemma mark_clear_frame:
  "loc p = F + 24 * lo \<Longrightarrow> a < F + 24 * lo \<or> F + 24 * Suc lo \<le> a \<Longrightarrow>
    a < 4096 * lo \<or> 4096 * (lo + k) \<le> a \<Longrightarrow> mark_clear m p lo k a = m a"
  by (auto simp: mark_clear_def memset_apply set_page_frame)

lemma mark_clear_zero:
  "4096 * lo \<le> a \<Longrightarrow> a < 4096 * (lo + k) \<Longrightarrow> mark_clear m p lo k a = 0"
  by (simp add: mark_clear_def memset_apply)

context direct_map
begin

lemma alloc_block_run:
  assumes inv: "fl_inv st lo hi n" and sz: "pages_for sz = int k" and k: "0 < k" "lo + k \<le> hi"
    and F: "F = unat (free_list st)" and p: "p = tr (desc_ptr F lo)"
    and mark: "mark_loop tr (mark_clear (kmem st) p lo k)
        (tr (pg_next (mark_clear (kmem st) p lo k) p)) (int k) = Some m3"
  shows "alloc_block tr st sz = Some (st\<lparr>kmem := m3\<rparr>, Some (of_nat (4096 * lo)))"
proof -
  note I = fl_invD [OF inv, folded F]
  have lim: "lo < hi" and top: "4096 * (lo + k) \<le> 4096 * n"
    using k I(4) by auto
  have lowF: "low (F + 24 * hi)" using I(2-5) by (auto simp: low_def)
  have "find_block tr (kmem st) (tr (desc_ptr F 0)) (int k) (of_nat 0) = Some (Some (p, of_nat lo))"
    unfolding p using I k lim lowF by (intro find_block_first [where hi = hi]) auto
  then have find: "find_block tr (kmem st) (tr (free_list st)) (int k) 0 = Some (Some (p, of_nat lo))"
    using I(9) by simp
  have ret: "(of_nat lo * 4096 :: u64) = of_nat (4096 * lo)" by (simp add: mult.commute)
  moreover have "low (4096 * lo)" using I(5) top by (auto simp: low_def)
  ultimately have "loc (tr (of_nat lo * 4096)) = 4096 * lo" by (simp only: loc_tr)
  moreover have "nat (int k * 4096) = 4096 * k" by simp
  moreover have "int_ok (int k * 4096) \<and> 0 \<le> int k * 4096"
    using I(5) top by (auto simp: int_ok_def low_def)
  ultimately show ?thesis
    using find mark
    unfolding alloc_block_def sz mark_clear_def
    by (simp only: Let_def bind.bind_lunit option.case prod.case simp_thms if_True ret)
qed

lemma alloc_block_ok:
  assumes inv: "fl_inv st lo hi n" and sz: "pages_for sz = int k" and k: "0 < k" "lo + k \<le> hi"
  shows "\<exists>st'. alloc_block tr st sz = Some (st', Some (of_nat (4096 * lo))) \<and>
      fl_inv st' (lo + k) hi n \<and> alloc_post st st' lo k hi"
proof -
  define F where "F = unat (free_list st)"
  define m where "m = kmem st"
  define p where "p = tr (desc_ptr F lo)"
  define m2 where "m2 = mark_clear m p lo k"
  note I = fl_invD [OF inv, folded F_def m_def]
  have lim: "lo < hi" and lowF: "low (F + 24 * (Suc lo + (k - 1)))" "low (F + 24 * lo)"
    using k I(2-5) by (auto simp: low_def)
  have p: "loc p = F + 24 * lo" unfolding p_def by (rule loc_desc [OF lowF(2)])
  note mc = mark_clear_desc [OF p I(2) lim, where m = m and k = k, folded m2_def]
  have "\<exists>m'. mark_loop tr m2 (tr (desc_ptr F (Suc lo))) (int (Suc (k - 1))) = Some m' \<and>
      (\<forall>a. a < F + 24 * Suc lo \<or> F + 24 * (Suc lo + (k - 1)) \<le> a \<longrightarrow> m' a = m2 a) \<and>
      (\<forall>j. Suc lo \<le> j \<and> j < Suc lo + (k - 1) \<longrightarrow>
        ld64 m' (F + 24 * j) = ld64 m2 (F + 24 * j) \<and> ld32 m' (F + 24 * j + 8) = 1)"
    using lowF(1) k I(4-6) desc_same(1) [OF mc(1)]
    by (intro mark_loop_marks) (auto simp: low_def fl_linked_def)
  then obtain m3 where mark: "mark_loop tr m2 (tr (desc_ptr F (Suc lo))) (int k) = Some m3"
    and out: "\<And>a. a < F + 24 * Suc lo \<or> F + 24 * (lo + k) \<le> a \<Longrightarrow> m3 a = m2 a"
    and marked: "\<And>j. lo < j \<Longrightarrow> j < lo + k \<Longrightarrow>
        ld64 m3 (F + 24 * j) = ld64 m2 (F + 24 * j) \<and> ld32 m3 (F + 24 * j + 8) = 1"
    using k(1) by (auto simp: Suc_le_eq)
  have "pg_next m2 p = desc_ptr F (Suc lo)"
    using mc(2) I(6) lim by (simp add: pg_next_def p fl_linked_def)
  then have run: "alloc_block tr st sz = Some (st\<lparr>kmem := m3\<rparr>, Some (of_nat (4096 * lo)))"
    using mark by (intro alloc_block_run [OF inv sz k F_def p_def]) (simp add: m2_def m_def)
  have "same_on (F + 24 * j) 24 m3 m" if "j < hi" "j < lo \<or> lo + k \<le> j" for j
    using mc(1) [of j] out that k by (auto simp: same_on_def)
  moreover have "ld64 m3 (F + 24 * j) = ld64 m (F + 24 * j) \<and> ld32 m3 (F + 24 * j + 8) \<noteq> 0"
    if j: "lo \<le> j \<and> j < lo + k" for j
  proof (cases "j = lo")
    case True
    have "same_on (F + 24 * lo) 24 m3 m2" using out by (simp add: same_on_def)
    then show ?thesis using desc_same mc(2,3) True by auto
  next
    case False
    then show ?thesis using marked [of j] desc_same(1) [OF mc(1) [of j]] j k by simp
  qed
  ultimately have "fl_inv (st\<lparr>kmem := m3\<rparr>) (lo + k) hi n"
    using inv k lim by (intro fl_inv_mark [where F = F]) (auto simp: F_def m_def)
  moreover have "alloc_post st (st\<lparr>kmem := m3\<rparr>) lo k hi"
    using out I(2) k mark_clear_frame [OF p] mark_clear_zero [of lo _ k m p]
    by (auto simp: alloc_post_def F_def [symmetric] m_def [symmetric] m2_def)
  ultimately show ?thesis using run by blast
qed

lemma alloc_from_ok:
  assumes "fl_inv st lo hi n" and "pages_for sz = int k" and "0 < k" and "lo + k \<le> hi"
  shows "\<exists>st'. alloc_from tr st sz = Some (st', VADDR (of_nat (4096 * lo))) \<and>
      fl_inv st' (lo + k) hi n \<and> alloc_post st st' lo k hi"
  using alloc_block_ok [OF assms] by (auto simp: alloc_from_def)

end

section \<open>The contract of a page source\<close>

text \<open>
  What the page-table code relies on: as long as enough intact free pages remain, a request
  returns the lowest free block through the direct map, clears it, and changes nothing
  else but descriptors.
\<close>

locale frame_source =
  fixes al :: "kst \<Rightarrow> u64 \<Rightarrow> (kst \<times> u64) option"
  assumes al_ok: "\<lbrakk> fl_inv st lo hi n; pages_for sz = int k; 0 < k; lo + k \<le> hi \<rbrakk> \<Longrightarrow>
    \<exists>st'. al st sz = Some (st', VADDR (of_nat (4096 * lo))) \<and>
      fl_inv st' (lo + k) hi n \<and> alloc_post st st' lo k hi"

sublocale direct_map \<subseteq> src: frame_source "alloc_from tr"
  by unfold_locales (rule alloc_from_ok)

interpretation kmalloc_init_src: frame_source kmalloc_init
  unfolding kmalloc_init_def by (rule init_map.src.frame_source_axioms)

interpretation kmalloc_src: frame_source kmalloc
  unfolding kmalloc_def by (rule vaddr_map.src.frame_source_axioms)

text \<open>A run of requests, and the blocks it hands out: one after the other from \<open>lo\<close>.\<close>

fun alloc_seq :: "(kst \<Rightarrow> u64 \<Rightarrow> (kst \<times> u64) option) \<Rightarrow> kst \<Rightarrow> u64 list \<Rightarrow> (kst \<times> u64 list) option" where
  "alloc_seq al st [] = Some (st, [])"
| "alloc_seq al st (sz # szs) =
     do { (st, p) \<leftarrow> al st sz;
          (st, ps) \<leftarrow> alloc_seq al st szs;
          Some (st, p # ps) }"

fun bump :: "nat \<Rightarrow> nat list \<Rightarrow> nat list" where
  "bump lo [] = []"
| "bump lo (k # ks) = lo # bump (lo + k) ks"

lemma length_bump [simp]: "length (bump lo ks) = length ks"
  by (induction lo ks rule: bump.induct) auto

lemma bump_nth: "i < length ks \<Longrightarrow> bump lo ks ! i = lo + sum_list (take i ks)"
  by (induction lo ks arbitrary: i rule: bump.induct) (auto simp: nth_Cons take_Cons split: nat.split)

lemma bump_end: "i < length ks \<Longrightarrow> bump lo ks ! i + ks ! i \<le> lo + sum_list ks"
  by (induction lo ks arbitrary: i rule: bump.induct) (fastforce simp: nth_Cons split: nat.split)+

lemma bump_disjoint:
  assumes "i < j" and "j < length ks"
  shows "bump lo ks ! i + ks ! i \<le> bump lo ks ! j"
proof -
  have "sum_list (take (Suc i) ks) \<le> sum_list (take j ks)"
  proof -
    have "take j ks = take (Suc i) ks @ take (j - Suc i) (drop (Suc i) ks)"
      using assms(1) by (metis Suc_leI le_add_diff_inverse take_add)
    then show ?thesis by simp
  qed
  then show ?thesis
    using assms by (simp add: bump_nth take_Suc_conv_app_nth)
qed

context frame_source
begin

lemma alloc_seq_bump:
  "\<lbrakk> fl_inv st lo hi n; map pages_for szs = map int ks; \<forall>k\<in>set ks. 0 < k; lo + sum_list ks \<le> hi \<rbrakk> \<Longrightarrow>
    \<exists>st'. alloc_seq al st szs = Some (st', map (\<lambda>f. VADDR (of_nat (4096 * f))) (bump lo ks)) \<and>
      fl_inv st' (lo + sum_list ks) hi n"
proof (induction szs arbitrary: st lo ks)
  case Nil
  then show ?case by simp
next
  case (Cons sz szs)
  then obtain k ks' where ks: "ks = k # ks'" "pages_for sz = int k" "map pages_for szs = map int ks'"
    by auto
  then obtain st' where st': "al st sz = Some (st', VADDR (of_nat (4096 * lo)))" "fl_inv st' (lo + k) hi n"
    using al_ok [OF Cons.prems(1) ks(2)] Cons.prems by auto
  obtain st'' where "alloc_seq al st' szs = Some (st'', map (\<lambda>f. VADDR (of_nat (4096 * f))) (bump (lo + k) ks'))"
    "fl_inv st'' (lo + k + sum_list ks') hi n"
    using Cons.IH [OF st'(2) ks(3)] Cons.prems ks by auto
  with st' ks show ?case by (simp add: add.assoc)
qed

end

section \<open>Building the free list\<close>

lemma desc_ptr_Suc: "desc_ptr F i + 24 = desc_ptr F (Suc i)"
  by (simp add: desc_ptr_def)

lemma fl_init_loop_fields:
  assumes "low (F + 24 * (i + k))"
  shows "\<exists>m'. fl_init_loop m (desc_ptr F i) u r k = (m', desc_ptr F (i + k)) \<and>
    (\<forall>a. a < F + 24 * i \<or> F + 24 * (i + k) \<le> a \<longrightarrow> m' a = m a) \<and>
    (\<forall>j. i \<le> j \<and> j < i + k \<longrightarrow> ld64 m' (F + 24 * j) = desc_ptr F (Suc j) \<and>
       ld32 m' (F + 24 * j + 8) = u \<and> ld32 m' (F + 24 * j + 12) = of_nat (i + k - j))"
  using assms
proof (induction k arbitrary: i m)
  case 0
  then show ?case by auto
next
  case (Suc k)
  let ?p = "desc_ptr F i"
  have p: "loc ?p = F + 24 * i"
    using Suc.prems by (intro init_map.loc_desc) (auto intro: low_mono)
  define m1 where "m1 = st64 (set_page m ?p u (of_nat (Suc k)) r) (loc ?p) (desc_ptr F (Suc i))"
  obtain m' where m': "fl_init_loop m1 (desc_ptr F (Suc i)) u r k = (m', desc_ptr F (Suc i + k))"
    "\<forall>a. a < F + 24 * Suc i \<or> F + 24 * (Suc i + k) \<le> a \<longrightarrow> m' a = m1 a"
    "\<forall>j. Suc i \<le> j \<and> j < Suc i + k \<longrightarrow> ld64 m' (F + 24 * j) = desc_ptr F (Suc j) \<and>
       ld32 m' (F + 24 * j + 8) = u \<and> ld32 m' (F + 24 * j + 12) = of_nat (Suc i + k - j)"
    using Suc.IH [of "Suc i" m1] Suc.prems by auto
  have "fl_init_loop m ?p u r (Suc k) = (m', desc_ptr F (i + Suc k))"
    using m'(1) by (simp add: Let_def desc_ptr_Suc pg_next_def m1_def [symmetric]) (simp add: m1_def)
  moreover have "m' a = m a" if "a < F + 24 * i \<or> F + 24 * (i + Suc k) \<le> a" for a
    using that m'(2) p by (auto simp: m1_def cell64.st_frame set_page_frame)
  moreover have "ld64 m' (F + 24 * j) = desc_ptr F (Suc j) \<and>
       ld32 m' (F + 24 * j + 8) = u \<and> ld32 m' (F + 24 * j + 12) = of_nat (i + Suc k - j)"
    if j: "i \<le> j \<and> j < i + Suc k" for j
  proof (cases "j = i")
    case True
    have "same_on (F + 24 * i) 24 m' m1" using m'(2) by (simp add: same_on_def)
    from desc_same [OF this] show ?thesis
      using True p by (simp add: m1_def mem_simps) (simp add: set_page_def mem_simps)
  next
    case False
    with j m'(3) show ?thesis by simp
  qed
  ultimately show ?case by blast
qed

lemma fl_reserve_loop_fields:
  assumes "low (F + 24 * Suc e)" and "i + k \<le> e"
    and "\<forall>j. i \<le> j \<and> j < i + k \<longrightarrow> ld64 m (F + 24 * j) = desc_ptr F (Suc j)"
  shows "(\<forall>a. (a < F + 24 * i \<or> F + 24 * (i + k) \<le> a) \<and> (a < F + 24 * e + 16 \<or> F + 24 * e + 20 \<le> a) \<longrightarrow>
        fl_reserve_loop m (desc_ptr F i) (desc_ptr F e) k a = m a) \<and>
    (\<forall>j. i \<le> j \<and> j < i + k \<longrightarrow>
        ld64 (fl_reserve_loop m (desc_ptr F i) (desc_ptr F e) k) (F + 24 * j) = desc_ptr F (Suc j) \<and>
        ld32 (fl_reserve_loop m (desc_ptr F i) (desc_ptr F e) k) (F + 24 * j + 8) = 1)"
  using assms
proof (induction k arbitrary: i m)
  case 0
  then show ?case by auto
next
  case (Suc k)
  let ?p = "desc_ptr F i"
  have p: "loc ?p = F + 24 * i" "loc (desc_ptr F e) = F + 24 * e"
    using Suc.prems by (auto intro!: init_map.loc_desc intro: low_mono)
  define m1 where "m1 = st32 (st32 (st32 m (F + 24 * i + 8) 1) (F + 24 * i + 12) (of_nat (Suc k))) (F + 24 * e + 16) 1"
  define m' where "m' = fl_reserve_loop m1 (desc_ptr F (Suc i)) (desc_ptr F e) k"
  have m1f: "m1 a = m a" if "a < F + 24 * i + 8 \<or> F + 24 * i + 16 \<le> a" "a < F + 24 * e + 16 \<or> F + 24 * e + 20 \<le> a" for a
    using that by (auto simp: m1_def cell32.st_frame)
  have keep: "ld64 m1 (F + 24 * j) = ld64 m (F + 24 * j)" if "j < e" for j
  proof (rule ld64_same)
    have "m1 a = m a" if a: "F + 24 * j \<le> a" "a < F + 24 * j + 8" for a
    proof (rule m1f)
      show "a < F + 24 * i + 8 \<or> F + 24 * i + 16 \<le> a" using a by (cases "j \<le> i") auto
      show "a < F + 24 * e + 16 \<or> F + 24 * e + 20 \<le> a" using a \<open>j < e\<close> by linarith
    qed
    then show "same_on (F + 24 * j) 8 m1 m" by (simp add: same_on_def)
  qed
  then have nxt: "pg_next m1 ?p = desc_ptr F (Suc i)"
    using Suc.prems(2,3) by (simp add: pg_next_def p)
  have step: "fl_reserve_loop m ?p (desc_ptr F e) (Suc k) = m'"
    using nxt by (simp add: Let_def p m1_def [symmetric] m'_def del: of_nat_Suc)
  have IH: "(\<forall>a. (a < F + 24 * Suc i \<or> F + 24 * (Suc i + k) \<le> a) \<and> (a < F + 24 * e + 16 \<or> F + 24 * e + 20 \<le> a) \<longrightarrow>
        m' a = m1 a) \<and>
    (\<forall>j. Suc i \<le> j \<and> j < Suc i + k \<longrightarrow>
        ld64 m' (F + 24 * j) = desc_ptr F (Suc j) \<and> ld32 m' (F + 24 * j + 8) = 1)"
    unfolding m'_def using Suc.prems keep by (intro Suc.IH) auto
  have here: "ld64 m' (F + 24 * i) = desc_ptr F (Suc i) \<and> ld32 m' (F + 24 * i + 8) = 1"
  proof -
    have "same_on (F + 24 * i) 16 m' m1"
      using IH Suc.prems(2) by (simp add: same_on_def)
    then have "ld64 m' (F + 24 * i) = ld64 m1 (F + 24 * i)" "ld32 m' (F + 24 * i + 8) = ld32 m1 (F + 24 * i + 8)"
      by (auto intro!: ld64_same ld32_same elim: same_on_sub)
    then show ?thesis
      using nxt Suc.prems(2) p by (simp add: pg_next_def) (simp add: m1_def mem_simps)
  qed
  have "m' a = m a"
    if "a < F + 24 * i \<or> F + 24 * (i + Suc k) \<le> a" "a < F + 24 * e + 16 \<or> F + 24 * e + 20 \<le> a" for a
    using that IH m1f [of a] by auto
  moreover have "ld64 m' (F + 24 * j) = desc_ptr F (Suc j) \<and> ld32 m' (F + 24 * j + 8) = 1"
    if "i \<le> j" "j < i + Suc k" for j
    using that IH here by (cases "j = i") auto
  ultimately show ?case
    unfolding step by blast
qed

text \<open>
  The state after \<^verbatim>\<open>calculate_free_list\<close> for a list at page \<open>u\<close>: with
  \<open>r = num_pages * 24 / 4096\<close> pages reserved for the list, the pages below \<open>u + r\<close> are
  taken and the descriptors that lie in the reserved pages are intact.
\<close>

definition reserved_pages :: "nat \<Rightarrow> nat" where
  "reserved_pages n = 24 * n div 4096"

definition intact_descs :: "nat \<Rightarrow> nat" where
  "intact_descs n = 4096 * reserved_pages n div 24"

lemma sint_of_nat_u32: "x < 2147483648 \<Longrightarrow> sint (of_nat x :: u32) = int x"
  by (simp add: signed_of_nat signed_take_bit_int_eq_self)

lemma to_int_small: "x < 2147483648 \<Longrightarrow> to_int (of_nat x) = int x"
  by (simp add: to_int_def unsigned_of_nat sint_of_nat_u32 take_bit_nat_eq_self)

lemma intact_descs_le: "intact_descs n \<le> n" "24 * intact_descs n \<le> 4096 * reserved_pages n"
  by (auto simp: intact_descs_def reserved_pages_def)

lemma free_list_args:
  assumes "u \<le> n" and "low (4096 * n)"
  shows "unat ((of_nat (4096 * u) :: u64) div 0x1000) = u"
    and "unat ((of_nat n :: u64) - of_nat (4096 * u) div 0x1000) = n - u"
    and "to_int (of_nat n * 24 div 4096) = int (reserved_pages n)"
proof -
  have l: "low (4096 * u)" "low u" "low n" "low (n - u)" "low (24 * n)" "24 * n div 4096 < 2147483648"
    using assms by (auto simp: low_def)
  then show *: "unat ((of_nat (4096 * u) :: u64) div 0x1000) = u"
    by (simp add: unat_div_distrib unat_of_nat_low del: of_nat_mult)
  then have "(of_nat (4096 * u) :: u64) div 0x1000 = of_nat u"
    using l(2) by (simp add: word_unat_eq_iff unat_of_nat_low)
  moreover have "(of_nat n :: u64) - of_nat u = of_nat (n - u)" using assms(1) by simp
  ultimately show "unat ((of_nat n :: u64) - of_nat (4096 * u) div 0x1000) = n - u"
    using l(4) by (simp only: unat_of_nat_low)
  have "unat (of_nat n * 24 div 4096 :: u64) = 24 * n div 4096"
    using l(5) unat_of_nat_low [of "24 * n"] by (simp add: unat_div_distrib mult.commute)
  then have "(of_nat n * 24 div 4096 :: u64) = of_nat (24 * n div 4096)"
    using l(5) by (simp add: word_unat_eq_iff unat_of_nat_low low_mono [of "24 * n"])
  then show "to_int (of_nat n * 24 div 4096) = int (reserved_pages n)"
    using l(6) by (simp only: to_int_small reserved_pages_def)
qed

text \<open>The descriptors after the two initialising loops and the end marker.\<close>

lemma fl_init_both:
  assumes u: "u \<le> n" and fit: "low (F + 24 * Suc n)"
  shows "\<exists>m1 m2. fl_init_loop m (desc_ptr F 0) 1 1 u = (m1, desc_ptr F u) \<and>
    fl_init_loop m1 (desc_ptr F u) 0 0 (n - u) = (m2, desc_ptr F n) \<and>
    (\<forall>a. a < F \<or> F + 24 * n \<le> a \<longrightarrow> m2 a = m a) \<and>
    fl_linked m2 F n \<and> (\<forall>j<u. ld32 m2 (F + 24 * j + 8) = 1) \<and>
    (\<forall>j<n. u \<le> j \<longrightarrow> ld32 m2 (F + 24 * j + 8) = 0 \<and> ld32 m2 (F + 24 * j + 12) = of_nat (n - j))"
proof -
  obtain m1 where m1: "fl_init_loop m (desc_ptr F 0) 1 1 u = (m1, desc_ptr F u)"
    "\<forall>a. a < F \<or> F + 24 * u \<le> a \<longrightarrow> m1 a = m a"
    "\<forall>j<u. ld64 m1 (F + 24 * j) = desc_ptr F (Suc j) \<and> ld32 m1 (F + 24 * j + 8) = 1"
    using fl_init_loop_fields [of F 0 u m 1 1] low_mono [OF fit, of "F + 24 * u"] u by auto
  obtain m2 where m2: "fl_init_loop m1 (desc_ptr F u) 0 0 (n - u) = (m2, desc_ptr F n)"
    "\<forall>a. a < F + 24 * u \<or> F + 24 * n \<le> a \<longrightarrow> m2 a = m1 a"
    "\<forall>j. u \<le> j \<and> j < n \<longrightarrow> ld64 m2 (F + 24 * j) = desc_ptr F (Suc j) \<and>
       ld32 m2 (F + 24 * j + 8) = 0 \<and> ld32 m2 (F + 24 * j + 12) = of_nat (n - j)"
    using fl_init_loop_fields [of F u "n - u" m1 0 0] low_mono [OF fit, of "F + 24 * n"] u by auto
  have below: "same_on (F + 24 * j) 24 m2 m1" if "j < u" for j
    using that m2(2) by (auto simp: same_on_def)
  have "fl_linked m2 F n"
    unfolding fl_linked_def
  proof (intro allI impI)
    fix j assume "j < n"
    then show "ld64 m2 (F + 24 * j) = desc_ptr F (Suc j)"
      by (cases "j < u") (use m1(3) m2(3) desc_same(1) [OF below] in auto)
  qed
  moreover have "\<forall>j<u. ld32 m2 (F + 24 * j + 8) = 1"
    using m1(3) desc_same(2) [OF below] by simp
  moreover have "\<forall>a. a < F \<or> F + 24 * n \<le> a \<longrightarrow> m2 a = m a"
    using m1(2) m2(2) u by auto
  ultimately show ?thesis
    using m1(1) m2(1,3) by blast
qed

lemma calculate_free_list_inv:
  assumes u: "0 < u" "u \<le> n" and n: "low (4096 * n)" and fit: "low (4096 * u + 24 * Suc n)"
    and room: "u + reserved_pages n \<le> intact_descs n"
  shows "\<exists>st'. calculate_free_list st (of_nat n) (of_nat (4096 * u)) = Some st' \<and>
    fl_inv st' (u + reserved_pages n) (intact_descs n) n \<and> free_list st' = of_nat (4096 * u) \<and>
    (\<forall>a. a < 4096 * u \<or> 4096 * u + 24 * Suc n \<le> a \<longrightarrow> kmem st' a = kmem st a) \<and>
    ld32 (kmem st') (4096 * u + 24 * n + 8) = - 1"
proof -
  define F where "F = 4096 * u"
  let ?r = "reserved_pages n" and ?hi = "intact_descs n"
  have hi: "?hi \<le> n" and r: "u + ?r \<le> n" and F: "low F" "low (F + 24 * n)" "0 < F"
    using n u room intact_descs_le [of n] fit by (auto simp: low_def F_def)
  obtain m1 m2 where loops: "fl_init_loop (kmem st) (desc_ptr F 0) 1 1 u = (m1, desc_ptr F u)"
    "fl_init_loop m1 (desc_ptr F u) 0 0 (n - u) = (m2, desc_ptr F n)"
    and out2: "\<forall>a. a < F \<or> F + 24 * n \<le> a \<longrightarrow> m2 a = kmem st a"
    and d2: "fl_linked m2 F n" "\<forall>j<u. ld32 m2 (F + 24 * j + 8) = 1"
      "\<forall>j<n. u \<le> j \<longrightarrow> ld32 m2 (F + 24 * j + 8) = 0 \<and> ld32 m2 (F + 24 * j + 12) = of_nat (n - j)"
    using fl_init_both [OF u(2), of F "kmem st"] fit unfolding F_def [symmetric] by blast
  define m3 where "m3 = st32 m2 (F + 24 * n + 8) (- 1)"
  have m3: "m3 a = m2 a" if "a < F + 24 * n" for a
    using that by (simp add: m3_def cell32.st_frame)
  then have s3: "same_on (F + 24 * j) 24 m3 m2" if "j < n" for j
    using that by (auto simp: same_on_def)
  define m4 where "m4 = fl_reserve_loop m3 (desc_ptr F u) (desc_ptr F n) ?r"
  have res: "(\<forall>a. (a < F + 24 * u \<or> F + 24 * (u + ?r) \<le> a) \<and> (a < F + 24 * n + 16 \<or> F + 24 * n + 20 \<le> a) \<longrightarrow> m4 a = m3 a) \<and>
      (\<forall>j. u \<le> j \<and> j < u + ?r \<longrightarrow> ld64 m4 (F + 24 * j) = desc_ptr F (Suc j) \<and> ld32 m4 (F + 24 * j + 8) = 1)"
    unfolding m4_def using fit r d2(1) desc_same(1) [OF s3]
    by (intro fl_reserve_loop_fields) (auto simp: F_def fl_linked_def)
  then have s4: "same_on (F + 24 * j) 24 m4 m2" if "j < n" "j < u \<or> u + ?r \<le> j" for j
    using that s3 [OF that(1)] r by (auto simp: same_on_def)
  have eq: "calculate_free_list st (of_nat n) (of_nat F)
      = Some (st\<lparr>kmem := m4, free_list := of_nat F\<rparr>)"
  proof -
    have "(of_nat F :: u64) = desc_ptr F 0" by (simp add: desc_ptr_def)
    moreover have "loc (desc_ptr F n) = F + 24 * n" by (rule init_map.loc_desc [OF F(2)])
    ultimately show ?thesis
      using loops free_list_args [OF u(2) n, folded F_def]
      by (simp add: calculate_free_list_def Let_def m3_def m4_def)
  qed
  have Fu: "unat (of_nat F :: u64) = F" using F(1) by (rule unat_of_nat_low)
  have "F + 24 * ?hi \<le> 4096 * (u + ?r)"
    by (simp add: F_def intact_descs_def)
  moreover have "ld64 m4 (F + 24 * j) = desc_ptr F (Suc j)" if "j < ?hi" for j
    using that hi res d2(1) desc_same(1) [OF s4, of j]
    by (cases "j < u \<or> u + ?r \<le> j") (auto simp: fl_linked_def)
  moreover have "ld32 m4 (F + 24 * j + 8) \<noteq> 0" if "j < u + ?r" for j
    using that r res d2(2) desc_same(2) [OF s4, of j] by (cases "j < u") auto
  moreover have "ld32 m4 (F + 24 * j + 8) = 0 \<and> sint (ld32 m4 (F + 24 * j + 12)) = int (n - j)"
    if "j < ?hi" "u + ?r \<le> j" for j
  proof -
    have "n - j < 2147483648" using n by (simp add: low_def)
    then show ?thesis
      using that hi d2(3) desc_same(2,3) [OF s4, of j] by (simp add: sint_of_nat_u32 del: of_nat_diff)
  qed
  ultimately have "fl_inv (st\<lparr>kmem := m4, free_list := of_nat F\<rparr>) (u + ?r) ?hi n"
    using room hi n F(3) by (simp add: fl_inv_def Fu fl_linked_def Let_def)
  moreover have "m4 a = kmem st a" if "a < F \<or> F + 24 * Suc n \<le> a" for a
  proof -
    have "m4 a = m3 a" using that res r by auto
    also have "\<dots> = m2 a" using that m3 [of a] by (auto simp: m3_def cell32.st_frame)
    finally show ?thesis using that out2 by auto
  qed
  moreover have "ld32 m4 (F + 24 * n + 8) = - 1"
  proof -
    have "same_on (F + 24 * n + 8) 4 m4 m3" using res r by (auto simp: same_on_def)
    then show ?thesis by (simp add: ld32_same [of _ m4 m3] m3_def mem_simps)
  qed
  ultimately show ?thesis
    using eq by (auto simp: F_def)
qed

section \<open>The allocator after boot\<close>

text \<open>A machine with 171 pages whose kernel image fills the first one, after the list is built.\<close>

definition boot_st :: kst where
  "boot_st = the (calculate_free_list \<lparr>kmem = (\<lambda>_. 0), free_list = 0\<rparr> 171 4096)"

lemma boot_inv: "fl_inv boot_st 2 170 171"
proof -
  have num: "1 + reserved_pages 171 = 2" "intact_descs 171 = 170"
    by (simp_all add: reserved_pages_def intact_descs_def)
  have "\<exists>st'. calculate_free_list \<lparr>kmem = (\<lambda>_. 0), free_list = 0\<rparr> (of_nat 171) (of_nat (4096 * 1)) = Some st' \<and>
    fl_inv st' 2 170 171"
    using calculate_free_list_inv [of 1 171 "\<lparr>kmem = (\<lambda>_. 0), free_list = 0\<rparr>", unfolded num]
    by (auto simp: low_def)
  then show ?thesis
    by (auto simp: boot_st_def)
qed

lemma list_tail_bound:
  fixes n :: nat
  assumes "n mod 512 \<noteq> 341"
  shows "24 * n + 8 + 4 \<le> 4096 * (24 * n div 4096 + 1)"
proof -
  have "171 * (3 * n mod 512) mod 512 = (n + 512 * n) mod 512"
    by (simp only: mod_mult_right_eq) simp
  then have "n mod 512 = 171 * (3 * n mod 512) mod 512"
    by (simp only: mod_mult_self2)
  then have "3 * n mod 512 \<noteq> 511" using assms by auto
  moreover have "3 * n mod 512 < 512" by simp
  ultimately have "3 * n mod 512 \<le> 510" by linarith
  moreover define q r where "q = 3 * n div 512" and "r = 3 * n mod 512"
  then have "3 * n = 512 * q + r" "24 * n div 4096 = q" by simp_all
  ultimately show ?thesis by simp
qed

lemma desc_index:
  assumes inv: "fl_inv st lo hi n" and f: "0 < f" "f < n"
  shows "get_page_at_address st (VADDR (of_nat (4096 * f))) = desc_ptr (unat (free_list st)) (24 * f)"
proof -
  have low: "low (4096 * f)" using fl_invD(5) [OF inv] f by (auto simp: low_def)
  have div: "(of_nat (4096 * f) :: u64) div 4096 = of_nat f"
    using low by (simp add: word_unat_eq_iff unat_div_distrib unat_of_nat_low low_mono [of "4096 * f" f] del: of_nat_mult)
  have start: "get_starting_page (of_nat (4096 * f)) = of_nat (4096 * f)"
    using low by (simp add: word_unat_eq_iff unat_get_starting_page unat_of_nat_low del: of_nat_mult)
  have "get_page_at_address st (VADDR (of_nat (4096 * f))) = free_list st + of_nat f * 24 * 24"
    unfolding get_page_at_address_def using KERNEL_less_VADDR [OF low] f(1)
    by (simp only: Let_def PADDR_VADDR start div if_True simp_thms)
  then show ?thesis by (simp add: desc_ptr_def)
qed

section \<open>Properties of the allocator\<close>



text \<open>
  C13. One request of \<open>k\<close> pages: the block starts at the first free page, is filled with
  zeros, and nothing outside the block and the descriptors changes.
\<close>

theorem kmalloc_contract:
  assumes "fl_inv st lo hi n" and "pages_for sz = int k" and "0 < k" and "lo + k \<le> hi"
  shows "\<exists>st'. kmalloc st sz = Some (st', VADDR (of_nat (4096 * lo))) \<and> fl_inv st' (lo + k) hi n \<and>
    (\<forall>a. 4096 * lo \<le> a \<and> a < 4096 * (lo + k) \<longrightarrow> kmem st' a = 0) \<and>
    (\<forall>a. (a < unat (free_list st) \<or> unat (free_list st) + 24 * hi \<le> a) \<and>
         (a < 4096 * lo \<or> 4096 * (lo + k) \<le> a) \<longrightarrow> kmem st' a = kmem st a)"
  using kmalloc_src.al_ok [OF assms] unfolding alloc_post_def by blast

theorem kmalloc_contract_witness:
  "\<exists>st'. kmalloc boot_st 5000 = Some (st', VADDR (of_nat 8192)) \<and> fl_inv st' 4 170 171 \<and> kmem st' 10000 = 0"
proof -
  have "pages_for 5000 = int 2" by (simp add: pages_for_def to_int_def)
  from kmalloc_contract [OF boot_inv this] show ?thesis by auto
qed

text \<open>
  C14. \<^verbatim>\<open>calculate_free_list\<close> builds a list that satisfies the invariant: the pages of
  the kernel image and of the list are taken, the others are free, and no byte outside the
  list is written.
\<close>

theorem calculate_free_list_ok:
  assumes "0 < u" and "u \<le> n" and "low (4096 * n)" and "low (4096 * u + 24 * Suc n)"
    and "u + reserved_pages n \<le> intact_descs n"
  shows "\<exists>st'. calculate_free_list st (of_nat n) (of_nat (4096 * u)) = Some st' \<and>
    fl_inv st' (u + reserved_pages n) (intact_descs n) n \<and> free_list st' = of_nat (4096 * u) \<and>
    (\<forall>a. a < 4096 * u \<or> 4096 * u + 24 * Suc n \<le> a \<longrightarrow> kmem st' a = kmem st a)"
  using calculate_free_list_inv [OF assms] by blast

theorem calculate_free_list_ok_witness:
  "\<exists>st'. calculate_free_list boot_st 1000 8192 = Some st' \<and> fl_inv st' 7 853 1000 \<and> kmem st' 0 = kmem boot_st 0"
proof -
  have num: "2 + reserved_pages 1000 = 7" "intact_descs 1000 = 853"
    by (simp_all add: reserved_pages_def intact_descs_def)
  obtain st' where "calculate_free_list boot_st (of_nat 1000) (of_nat (4096 * 2)) = Some st'"
    "fl_inv st' 7 853 1000" "\<forall>a. a < 4096 * 2 \<or> 4096 * 2 + 24 * Suc 1000 \<le> a \<longrightarrow> kmem st' a = kmem boot_st a"
    using calculate_free_list_ok [of 2 1000 boot_st, unfolded num] by (auto simp: low_def)
  then show ?thesis by (intro exI [of _ st']) simp
qed

text \<open>
  C40. The number of pages reserved for the list is rounded down, so the end of the list is
  not reserved: the first page that is handed out after boot holds the end marker, whose
  \<^verbatim>\<open>used\<close> field goes from -1 to 0 (the number of pages with which the field falls
  exactly behind the page is left out).
\<close>

theorem end_marker_overwritten:
  assumes "0 < u" and "u \<le> n" and "low (4096 * n)" and "low (4096 * u + 24 * Suc n)"
    and "u + reserved_pages n < intact_descs n" and "n mod 512 \<noteq> 341"
  shows "\<exists>st1 st2 p. calculate_free_list st (of_nat n) (of_nat (4096 * u)) = Some st1 \<and>
    pg_used (kmem st1) (of_nat (4096 * u + 24 * n)) = - 1 \<and>
    kmalloc st1 1 = Some (st2, p) \<and> pg_used (kmem st2) (of_nat (4096 * u + 24 * n)) = 0"
proof -
  let ?F = "4096 * u" and ?r = "reserved_pages n"
  obtain st1 where st1: "calculate_free_list st (of_nat n) (of_nat ?F) = Some st1"
    "fl_inv st1 (u + ?r) (intact_descs n) n" "free_list st1 = of_nat ?F" "ld32 (kmem st1) (?F + 24 * n + 8) = - 1"
    using calculate_free_list_inv [OF assms(1-4), of st] assms(5) by auto
  have "pages_for 1 = int 1" by (simp add: pages_for_def to_int_def)
  from kmalloc_src.al_ok [OF st1(2) this] assms(5) obtain st2 p
    where st2: "kmalloc st1 1 = Some (st2, p)" "alloc_post st1 st2 (u + ?r) 1 (intact_descs n)"
    by auto
  have loc: "loc (of_nat (?F + 24 * n)) = ?F + 24 * n"
    by (rule loc_of_nat, rule low_mono [OF assms(4)]) simp
  have "24 * n + 8 + 4 \<le> 4096 * (?r + 1)" "4096 * ?r \<le> 24 * n"
    using list_tail_bound [OF assms(6)] by (simp_all add: reserved_pages_def)
  then have "same_on (?F + 24 * n + 8) 4 (kmem st2) (\<lambda>_. 0)"
    using st2(2) by (auto simp: same_on_def alloc_post_def)
  then have "ld32 (kmem st2) (?F + 24 * n + 8) = ld32 (\<lambda>_. 0) (?F + 24 * n + 8)" by (rule ld32_same)
  also have "\<dots> = 0" by (rule ld32_zero)
  finally show ?thesis
    using st1(1,4) st2(1) loc by (auto simp: pg_used_def)
qed

theorem end_marker_overwritten_witness:
  "\<exists>st1 st2 p. calculate_free_list boot_st 1000 8192 = Some st1 \<and> pg_used (kmem st1) 32192 = - 1 \<and>
     kmalloc st1 1 = Some (st2, p) \<and> pg_used (kmem st2) 32192 = 0"
proof -
  have "2 + reserved_pages 1000 < intact_descs 1000" by (simp add: reserved_pages_def intact_descs_def)
  then have "\<exists>st1 st2 p. calculate_free_list boot_st (of_nat 1000) (of_nat (4096 * 2)) = Some st1 \<and>
    pg_used (kmem st1) (of_nat (4096 * 2 + 24 * 1000)) = - 1 \<and>
    kmalloc st1 1 = Some (st2, p) \<and> pg_used (kmem st2) (of_nat (4096 * 2 + 24 * 1000)) = 0"
    by (intro end_marker_overwritten) (simp_all add: low_def)
  then show ?thesis by simp
qed

text \<open>
  \<^verbatim>\<open>get_page_at_address\<close> scales the page number twice: for page \<open>f\<close> it returns
  the descriptor of page \<open>24 * f\<close>, so reference counts and \<^verbatim>\<open>free\<close> work on the
  descriptor of another page.
\<close>

theorem get_page_at_address_index:
  assumes "fl_inv st lo hi n" and "0 < f" and "f < n"
  shows "get_page_at_address st (VADDR (of_nat (4096 * f))) = desc_ptr (unat (free_list st)) (24 * f) \<and>
    inc_ref_count st (VADDR (of_nat (4096 * f))) =
      st\<lparr>kmem := st32 (kmem st) (loc (desc_ptr (unat (free_list st)) (24 * f)) + 16)
        (pg_ref_count (kmem st) (desc_ptr (unat (free_list st)) (24 * f)) - 1)\<rparr>"
  using desc_index [OF assms] by (simp add: inc_ref_count_def Let_def)

theorem get_page_at_address_index_witness:
  "get_page_at_address boot_st (VADDR (of_nat (4096 * 5))) = desc_ptr (unat (free_list boot_st)) 120"
  using get_page_at_address_index [OF boot_inv, of 5] by simp

end
