(* ===== verification/PageTree.thy ===== *)
theory PageTree
  imports Prelude
begin

text \<open>
  Page tables as a tree: the frames that hold tables, with 512 entries each, and the walk
  along a list of indices that the code of \<^verbatim>\<open>sys/paging.c\<close> and the processor do. The
  lemmas say what linking a new table and writing the entries of a last-level table do to
  every walk and to the address map \<open>lookup\<close>, independently of how tables lie in memory.
\<close>

section \<open>Entries\<close>

text \<open>\<^verbatim>\<open>IS_PRESENT_PAGE\<close>.\<close>

definition IS_PRESENT_PAGE :: "u64 \<Rightarrow> bool" where
  "IS_PRESENT_PAGE e \<longleftrightarrow> e AND 1 \<noteq> 0"

definition frame_of :: "u64 \<Rightarrow> nat" where
  "frame_of e = unat e div 4096"

lemma page_base_frame: "page_base e = of_nat (4096 * frame_of e)"
proof -
  have "unat (drop_bit 12 e) = frame_of e"
    by (simp add: frame_of_def drop_bit_eq_div unat_div)
  then have "drop_bit 12 e = of_nat (frame_of e)"
    by (metis of_nat_unat ucast_id)
  then show ?thesis by (simp add: page_base_def push_bit_eq_mult)
qed

lemma frame_of_page_base: "frame_of e = unat (page_base e) div 4096"
proof -
  have "4096 * frame_of e \<le> unat e" by (simp add: frame_of_def)
  then have "unat (of_nat (4096 * frame_of e) :: u64) = 4096 * frame_of e" by (rule le_unat_uoi)
  then show ?thesis unfolding page_base_frame by (simp del: of_nat_mult)
qed

lemma link_entry:
  assumes "low (4096 * g)" and "unat a < 4096"
  shows "page_base (of_nat (4096 * g) OR a) = of_nat (4096 * g)"
    and "frame_of (of_nat (4096 * g) OR a) = g"
proof -
  have "page_base a = 0"
    using word_bit_below [of a 12] assms(2) by (fastforce simp: word_bits_eq_iff bit_facts)
  moreover have "page_base (x OR y) = page_base x OR page_base y" for x y
    by (auto simp: word_bits_eq_iff bit_facts bit_or_iff)
  ultimately show *: "page_base (of_nat (4096 * g) OR a) = of_nat (4096 * g)"
    using page_base_mult [of g] by simp
  show "frame_of (of_nat (4096 * g) OR a) = g"
    using assms(1) unfolding frame_of_page_base * by (simp add: unat_of_nat_low del: of_nat_mult)
qed

lemma IS_PRESENT_PAGE_bit: "IS_PRESENT_PAGE e \<longleftrightarrow> bit e 0"
  by (simp add: IS_PRESENT_PAGE_def and_one_eq odd_iff_mod_2_eq_one bit_0)

lemma IS_PRESENT_PAGE_or: "bit a 0 \<Longrightarrow> IS_PRESENT_PAGE (e OR a)"
  by (simp add: IS_PRESENT_PAGE_bit bit_or_iff)

lemma not_present_0 [simp]: "\<not> IS_PRESENT_PAGE 0"
  by (simp add: IS_PRESENT_PAGE_def)

section \<open>Walks\<close>

type_synonym tables = "nat \<Rightarrow> nat \<Rightarrow> u64"

fun walk :: "tables \<Rightarrow> nat \<Rightarrow> nat list \<Rightarrow> nat option" where
  "walk E f [] = Some f"
| "walk E f (i # is) = (if IS_PRESENT_PAGE (E f i) then walk E (frame_of (E f i)) is else None)"

lemma walk_append: "walk E f (p @ q) = Option.bind (walk E f p) (\<lambda>g. walk E g q)"
  by (induction p arbitrary: f) auto

lemma walk_snoc: "walk E f (p @ [i]) =
    (case walk E f p of None \<Rightarrow> None
     | Some g \<Rightarrow> if IS_PRESENT_PAGE (E g i) then Some (frame_of (E g i)) else None)"
  by (simp add: walk_append split: option.split)

text \<open>Paths to tables have at most three indices; the fourth index selects a last-level entry.\<close>

definition valid_path :: "nat list \<Rightarrow> bool" where
  "valid_path p \<longleftrightarrow> length p \<le> 3 \<and> (\<forall>i\<in>set p. i < 512)"

lemma valid_path_snoc: "valid_path (p @ [i]) \<longleftrightarrow> valid_path p \<and> length p < 3 \<and> i < 512"
  by (auto simp: valid_path_def)

text \<open>
  The tables reachable from \<open>root\<close> lie in the frames \<open>T\<close> and form a tree: no two paths
  lead to the same frame.
\<close>

definition tree :: "tables \<Rightarrow> nat \<Rightarrow> nat set \<Rightarrow> bool" where
  "tree E root T \<longleftrightarrow>
     (\<forall>p f. valid_path p \<and> walk E root p = Some f \<longrightarrow> f \<in> T) \<and>
     (\<forall>p q f. valid_path p \<and> valid_path q \<and> walk E root p = Some f \<and> walk E root q = Some f \<longrightarrow> p = q)"

lemma tree_in: "tree E root T \<Longrightarrow> valid_path p \<Longrightarrow> walk E root p = Some f \<Longrightarrow> f \<in> T"
  by (auto simp: tree_def)

lemma tree_inj: "tree E root T \<Longrightarrow> valid_path p \<Longrightarrow> valid_path q \<Longrightarrow>
    walk E root p = Some f \<Longrightarrow> walk E root q = Some f \<Longrightarrow> p = q"
  by (auto simp: tree_def)

text \<open>The address map: the present last-level entry for a path of four indices.\<close>

definition present_entry :: "u64 \<Rightarrow> u64 option" where
  "present_entry e = (if IS_PRESENT_PAGE e then Some e else None)"

definition lookup :: "tables \<Rightarrow> nat \<Rightarrow> nat list \<Rightarrow> nat \<Rightarrow> u64 option" where
  "lookup E root p i = (case walk E root p of None \<Rightarrow> None | Some f \<Rightarrow> present_entry (E f i))"

section \<open>Linking a new table\<close>

text \<open>The tables \<open>E'\<close> after the empty frame \<open>g\<close> is linked at entry \<open>i\<close> of \<open>f\<close>.\<close>

definition linked :: "tables \<Rightarrow> tables \<Rightarrow> nat set \<Rightarrow> nat \<Rightarrow> nat \<Rightarrow> nat \<Rightarrow> bool" where
  "linked E E' T f i g \<longleftrightarrow>
     IS_PRESENT_PAGE (E' f i) \<and> frame_of (E' f i) = g \<and> \<not> IS_PRESENT_PAGE (E f i) \<and> g \<notin> T \<and>
     (\<forall>h\<in>T. \<forall>j<512. (h, j) \<noteq> (f, i) \<longrightarrow> E' h j = E h j) \<and>
     (\<forall>j<512. E' g j = 0)"

lemma walk_link:
  assumes t: "tree E root T" and p: "valid_path (p @ [i])" "walk E root p = Some f"
    and l: "linked E E' T f i g"
  shows "valid_path q \<Longrightarrow> walk E' root q = (if q = p @ [i] then Some g else walk E root q)"
proof (induction q rule: rev_induct)
  case Nil
  then show ?case by simp
next
  case (snoc j q)
  then have q: "valid_path q" "j < 512" and IH: "walk E' root q = (if q = p @ [i] then Some g else walk E root q)"
    by (auto simp: valid_path_snoc)
  show ?case
  proof (cases "q = p @ [i]")
    case True
    then have "walk E root (q @ [j]) = None"
      using l p(2) by (simp add: walk_append linked_def)
    moreover have "walk E' root (q @ [j]) = None"
      using True IH l q(2) by (simp only: walk_snoc if_True option.case) (simp add: linked_def)
    ultimately show ?thesis using True by simp
  next
    case other: False
    show ?thesis
    proof (cases "walk E root q")
      case None
      then have "q \<noteq> p" using p(2) by auto
      with None other IH show ?thesis by (simp add: walk_snoc)
    next
      case (Some h)
      have h: "h \<in> T" by (rule tree_in [OF t q(1) Some])
      have "(h, j) = (f, i) \<longleftrightarrow> q @ [j] = p @ [i]"
        using tree_inj [OF t q(1), of p f] p Some by (auto simp: valid_path_snoc)
      then show ?thesis
        using l h q(2) Some other IH by (auto simp: walk_snoc linked_def)
    qed
  qed
qed

lemma tree_link:
  assumes t: "tree E root T" and p: "valid_path (p @ [i])" "walk E root p = Some f"
    and l: "linked E E' T f i g"
  shows "tree E' root (insert g T)"
proof -
  note w = walk_link [OF assms]
  have fresh: "walk E root q \<noteq> Some g" if "valid_path q" for q
    using tree_in [OF t that] l by (auto simp: linked_def)
  have "h \<in> insert g T" if "valid_path q" "walk E' root q = Some h" for q h
    using that w [OF that(1)] tree_in [OF t that(1)] by (auto split: if_splits)
  moreover have "q = r" if v: "valid_path q" "valid_path r" and "walk E' root q = Some h" "walk E' root r = Some h" for q r h
    using that w [OF v(1)] w [OF v(2)] fresh [OF v(1)] fresh [OF v(2)] tree_inj [OF t v]
    by (auto split: if_splits)
  ultimately show ?thesis unfolding tree_def by blast
qed

lemma lookup_link:
  assumes t: "tree E root T" and p: "valid_path (p @ [i])" "walk E root p = Some f"
    and l: "linked E E' T f i g" and q: "valid_path q" "length q = 3" "j < 512"
  shows "lookup E' root q j = lookup E root q j"
proof (cases "q = p @ [i]")
  case True
  then have "walk E root q = None" using l p(2) by (simp add: walk_snoc linked_def)
  moreover have "walk E' root q = Some g" using walk_link [OF t p l q(1)] True by simp
  ultimately show ?thesis using l q(3) by (simp add: lookup_def present_entry_def linked_def)
next
  case False
  then have w: "walk E' root q = walk E root q" using walk_link [OF t p l q(1)] by simp
  show ?thesis
  proof (cases "walk E root q")
    case (Some h)
    have "q \<noteq> p" using p(1) q(2) by (auto simp: valid_path_snoc)
    then have "h \<noteq> f" using tree_inj [OF t q(1), of p h] p Some by (auto simp: valid_path_snoc)
    then have "E' h j = E h j" using l tree_in [OF t q(1) Some] q(3) by (auto simp: linked_def)
    then show ?thesis by (simp add: lookup_def w Some)
  qed (simp add: lookup_def w)
qed

section \<open>Writing last-level entries\<close>

text \<open>Only entries of the last-level table \<open>f\<close> differ between \<open>E\<close> and \<open>E'\<close>.\<close>

lemma walk_leaf:
  assumes t: "tree E root T" and p: "valid_path p" "length p = 3" "walk E root p = Some f"
    and same: "\<forall>h\<in>T. h \<noteq> f \<longrightarrow> (\<forall>j<512. E' h j = E h j)"
  shows "valid_path q \<Longrightarrow> walk E' root q = walk E root q"
proof (induction q rule: rev_induct)
  case Nil
  then show ?case by simp
next
  case (snoc j q)
  then have q: "valid_path q" "j < 512" "length q < 3" and IH: "walk E' root q = walk E root q"
    by (auto simp: valid_path_snoc)
  show ?case
  proof (cases "walk E root q")
    case (Some h)
    then have "h \<noteq> f" using tree_inj [OF t q(1) p(1), of h] p q(3) by auto
    then show ?thesis using same tree_in [OF t q(1) Some] q(2) by (simp add: walk_snoc IH Some)
  qed (simp add: walk_snoc IH)
qed

lemma tree_leaf:
  assumes "tree E root T" and "valid_path p" "length p = 3" "walk E root p = Some f"
    and "\<forall>h\<in>T. h \<noteq> f \<longrightarrow> (\<forall>j<512. E' h j = E h j)"
  shows "tree E' root T"
  using assms(1) walk_leaf [OF assms] unfolding tree_def by metis

lemma lookup_leaf:
  assumes t: "tree E root T" and p: "valid_path p" "length p = 3" "walk E root p = Some f"
    and same: "\<forall>h\<in>T. h \<noteq> f \<longrightarrow> (\<forall>j<512. E' h j = E h j)" and q: "valid_path q" "length q = 3" "j < 512"
  shows "lookup E' root q j = (if q = p then present_entry (E' f j) else lookup E root q j)"
proof (cases "q = p")
  case False
  have w: "walk E' root q = walk E root q" using walk_leaf [OF t p same q(1)] .
  show ?thesis
  proof (cases "walk E root q")
    case (Some h)
    then have "h \<noteq> f" using tree_inj [OF t q(1) p(1), of h] p False by auto
    then show ?thesis using same tree_in [OF t q(1) Some] q(3) False by (simp add: lookup_def w Some)
  qed (simp add: lookup_def w False)
qed (use walk_leaf [OF t p same q(1)] p(3) in \<open>simp add: lookup_def\<close>)

declare walk.simps [simp del]

end
