(* ===== verification/Paging.thy ===== *)
theory Paging
  imports FrameAlloc PageTree
begin

text \<open>
  Page tables: \<^verbatim>\<open>sys/paging.c\<close>, and the functions of \<^verbatim>\<open>sys/mem.c\<close> that map
  memory (\<^verbatim>\<open>kmalloc_stack\<close>, \<^verbatim>\<open>region_alloc\<close>). Tables are pages of the flat
  memory. \<open>pt_inv\<close> says that the tables reachable from a root form a tree of pages the
  allocator has handed out; under it \<^verbatim>\<open>init_map_virt_phys_addr\<close> is an update of the
  address map \<open>pmap\<close>. Lines the code prints are not part of this model.
\<close>

section \<open>Entries and indices\<close>

definition RW_KERNEL_FLAGS :: u64 where
  "RW_KERNEL_FLAGS = 3"

definition RW_USER_FLAGS :: u64 where
  "RW_USER_FLAGS = 7"

abbreviation ENTRIES_PER_PTE :: u64 where
  "ENTRIES_PER_PTE \<equiv> 512"

definition pte_index :: "u64 \<Rightarrow> u64" where
  "pte_index vaddr = drop_bit 12 vaddr AND 0x1FF"

definition pde_index :: "u64 \<Rightarrow> u64" where
  "pde_index vaddr = drop_bit 21 vaddr AND 0x1FF"

definition pdpe_index :: "u64 \<Rightarrow> u64" where
  "pdpe_index vaddr = drop_bit 30 vaddr AND 0x1FF"

definition pml4_index :: "u64 \<Rightarrow> u64" where
  "pml4_index vaddr = drop_bit 39 vaddr AND 0x1FF"

definition entry_at :: "mem \<Rightarrow> u64 \<Rightarrow> u64 \<Rightarrow> u64" where
  "entry_at m table off = ld64 m (loc (table + 8 * off))"

definition set_entry :: "mem \<Rightarrow> u64 \<Rightarrow> u64 \<Rightarrow> u64 \<Rightarrow> mem" where
  "set_entry m table off v = st64 m (loc (table + 8 * off)) v"

section \<open>Allocating a table\<close>

text \<open>The body that the three functions share; they differ in the level of the table.\<close>

definition alloc_table ::
  "(kst \<Rightarrow> u64 \<Rightarrow> (kst \<times> u64) option) \<Rightarrow> u64 \<Rightarrow> kst \<Rightarrow> u64 \<Rightarrow> int \<Rightarrow> (kst \<times> u64) option" where
  "alloc_table al flags st table off =
     do { (st, p) \<leftarrow> al st 1;
          let t = PADDR p;
          Some (st\<lparr>kmem := set_entry (kmem st) table (of_int off) (t OR flags)\<rparr>, VADDR t) }"

definition alloc_pte :: "kst \<Rightarrow> u64 \<Rightarrow> int \<Rightarrow> int \<Rightarrow> (kst \<times> u64) option" where
  "alloc_pte st pde_table pde_off access =
     (if access = 1 then alloc_table kmalloc RW_USER_FLAGS st pde_table pde_off
      else alloc_table kmalloc_init RW_KERNEL_FLAGS st pde_table pde_off)"

definition alloc_pde :: "kst \<Rightarrow> u64 \<Rightarrow> int \<Rightarrow> int \<Rightarrow> (kst \<times> u64) option" where
  "alloc_pde st pdpe_table pdpe_off access =
     (if access = 1 then alloc_table kmalloc RW_USER_FLAGS st pdpe_table pdpe_off
      else alloc_table kmalloc_init RW_KERNEL_FLAGS st pdpe_table pdpe_off)"

definition alloc_pdpe :: "kst \<Rightarrow> u64 \<Rightarrow> int \<Rightarrow> int \<Rightarrow> (kst \<times> u64) option" where
  "alloc_pdpe st pml4_table pml4_off access =
     (if access = 1 then alloc_table kmalloc RW_USER_FLAGS st pml4_table pml4_off
      else alloc_table kmalloc_init RW_KERNEL_FLAGS st pml4_table pml4_off)"

section \<open>walk_page_table\<close>

text \<open>\<open>cr3\<close> is the value the function reads from the control register.\<close>

definition walk_page_table :: "mem \<Rightarrow> u64 \<Rightarrow> u64 \<Rightarrow> u64" where
  "walk_page_table m cr3 vaddr =
     (let e = entry_at m (VADDR cr3) (pml4_index vaddr) in
      if IS_PRESENT_PAGE e then
        let e = entry_at m (VADDR (page_base e)) (pdpe_index vaddr) in
        if IS_PRESENT_PAGE e then
          let e = entry_at m (VADDR (page_base e)) (pde_index vaddr) in
          if IS_PRESENT_PAGE e then
            let ptee = entry_at m (VADDR (page_base e)) (pte_index vaddr) in page_base ptee
          else - 1
        else - 1
      else - 1)"

section \<open>init_map_virt_phys_addr\<close>

text \<open>The first part: finds or creates the tables on the path; returns the last two.\<close>

definition map_tables :: "kst \<Rightarrow> u64 \<Rightarrow> u64 \<Rightarrow> int \<Rightarrow> (kst \<times> u64 \<times> u64) option" where
  "map_tables st vaddr pml4_table access =
     (let pde_off = pde_index vaddr; pdpe_off = pdpe_index vaddr; pml4_off = pml4_index vaddr;
          phys_addr = entry_at (kmem st) pml4_table pml4_off in
      if IS_PRESENT_PAGE phys_addr then
        let phys_addr = page_base phys_addr;
            pdpe_table = (if access = 1 then VADDR phys_addr else phys_addr);
            phys_addr = entry_at (kmem st) pdpe_table pdpe_off in
        if IS_PRESENT_PAGE phys_addr then
          let phys_addr = page_base phys_addr;
              pde_table = (if access = 1 then VADDR phys_addr else phys_addr);
              phys_addr = entry_at (kmem st) pde_table pde_off in
          if IS_PRESENT_PAGE phys_addr then Some (st, pde_table, VADDR (page_base phys_addr))
          else do { (st, pte_table) \<leftarrow> alloc_pte st pde_table (to_int pde_off) access;
                    Some (st, pde_table, pte_table) }
        else do { (st, pde_table) \<leftarrow> alloc_pde st pdpe_table (to_int pdpe_off) access;
                  (st, pte_table) \<leftarrow> alloc_pte st pde_table (to_int pde_off) access;
                  Some (st, pde_table, pte_table) }
      else do { (st, pdpe_table) \<leftarrow> alloc_pdpe st pml4_table (to_int pml4_off) access;
                (st, pde_table) \<leftarrow> alloc_pde st pdpe_table (to_int pdpe_off) access;
                (st, pte_table) \<leftarrow> alloc_pte st pde_table (to_int pde_off) access;
                Some (st, pde_table, pte_table) })"

text \<open>The loops that fill a table: \<open>n\<close> entries from \<open>i\<close>, one page further each time.\<close>

fun fill_entries :: "mem \<Rightarrow> u64 \<Rightarrow> (u64 \<Rightarrow> u64) \<Rightarrow> u64 \<Rightarrow> u64 \<Rightarrow> nat \<Rightarrow> mem \<times> u64" where
  "fill_entries m table mk phys_addr i 0 = (m, phys_addr)"
| "fill_entries m table mk phys_addr i (Suc n) =
     fill_entries (set_entry m table i (mk phys_addr)) table mk (phys_addr + 4096) (i + 1) n"

text \<open>The entry written when everything fits in one table, and the one of the other branch.\<close>

definition one_table_entry :: "int \<Rightarrow> u64 \<Rightarrow> u64" where
  "one_table_entry access phys_addr =
     (if access = 1 then page_base phys_addr OR RW_USER_FLAGS else phys_addr OR RW_KERNEL_FLAGS)"

definition more_tables_entry :: "int \<Rightarrow> u64 \<Rightarrow> u64" where
  "more_tables_entry access phys_addr =
     (if access = 1 then phys_addr OR RW_USER_FLAGS else phys_addr OR RW_KERNEL_FLAGS)"

text \<open>The loop over the full tables after the first; it also returns the final \<^verbatim>\<open>j\<close>.\<close>

fun fill_tables :: "kst \<Rightarrow> u64 \<Rightarrow> u64 \<Rightarrow> int \<Rightarrow> u64 \<Rightarrow> u64 \<Rightarrow> nat \<Rightarrow> (kst \<times> u64 \<times> u64) option" where
  "fill_tables st pde_table pde_off access phys_addr j 0 = Some (st, phys_addr, j)"
| "fill_tables st pde_table pde_off access phys_addr j (Suc n) =
     do { (st, pte_table) \<leftarrow> alloc_pte st pde_table (to_int (pde_off + j)) access;
          let (m, phys_addr) = fill_entries (kmem st) pte_table (more_tables_entry access) phys_addr 0 512;
          fill_tables (st\<lparr>kmem := m\<rparr>) pde_table pde_off access phys_addr (j + 1) n }"

text \<open>Division of \<^verbatim>\<open>int\<close> values rounds towards zero.\<close>

definition c_div :: "int \<Rightarrow> int \<Rightarrow> int" where
  "c_div a b = (if 0 \<le> a then a div b else - ((- a) div b))"

text \<open>
  The second part when the pages do not fit in one table. A negative number of tables or of
  remaining pages turns into a bound near \<open>2 ^ 64\<close> when it is compared with an unsigned
  counter; such a loop leaves every object and has no defined result.
\<close>

definition map_more_tables :: "kst \<Rightarrow> u64 \<Rightarrow> u64 \<Rightarrow> u64 \<Rightarrow> u64 \<Rightarrow> u64 \<Rightarrow> u64 \<Rightarrow> int \<Rightarrow> kst option" where
  "map_more_tables st pde_table pte_table pde_off pte_off paddr no_of_pages access =
     (let lno_of_pages = to_int no_of_pages;
          (m, phys_addr) = fill_entries (kmem st) pte_table (more_tables_entry access) paddr pte_off
                             (unat (ENTRIES_PER_PTE - pte_off));
          lno_of_pages = to_int (of_int lno_of_pages - (ENTRIES_PER_PTE - pte_off));
          no_of_pte_t = c_div lno_of_pages 512
      in if no_of_pte_t < 0 then None else
         do { (st, phys_addr, j) \<leftarrow> fill_tables (st\<lparr>kmem := m\<rparr>) pde_table pde_off access phys_addr 1 (nat no_of_pte_t);
              let lno_of_pages = to_int (of_int lno_of_pages - ENTRIES_PER_PTE * pte_off);
              (st, pte_table) \<leftarrow> alloc_pte st pde_table (to_int (pde_off + j)) access;
              if lno_of_pages < 0 then None else
              let (m, phys_addr) = fill_entries (kmem st) pte_table (more_tables_entry access) phys_addr 0 (nat lno_of_pages) in
              Some (st\<lparr>kmem := m\<rparr>) })"

definition init_map_virt_phys_addr :: "kst \<Rightarrow> u64 \<Rightarrow> u64 \<Rightarrow> u64 \<Rightarrow> u64 \<Rightarrow> int \<Rightarrow> kst option" where
  "init_map_virt_phys_addr st vaddr paddr no_of_pages pml4_table access =
     (let pte_off = pte_index vaddr in
      do { (st, pde_table, pte_table) \<leftarrow> map_tables st vaddr pml4_table access;
           if no_of_pages + pte_off \<le> ENTRIES_PER_PTE then
             let (m, phys_addr) = fill_entries (kmem st) pte_table (one_table_entry access) paddr pte_off
                                    (unat (pte_off + no_of_pages) - unat pte_off) in
             Some (st\<lparr>kmem := m\<rparr>)
           else map_more_tables st pde_table pte_table (pde_index vaddr) pte_off paddr no_of_pages access })"

section \<open>init_paging\<close>

record vmst =
  vkst :: kst
  topVAddr :: u64
  ker_cr3 :: u64
  ker_pml4_t :: u64
  cr3 :: u64

definition set_highest_virtaddr :: "vmst \<Rightarrow> u64 \<Rightarrow> vmst" where
  "set_highest_virtaddr v addr = v\<lparr>topVAddr := addr\<rparr>"

definition get_highest_virtaddr :: "vmst \<Rightarrow> u64" where
  "get_highest_virtaddr v = topVAddr v"

definition LOAD_CR3 :: "vmst \<Rightarrow> u64 \<Rightarrow> vmst" where
  "LOAD_CR3 v addr = v\<lparr>cr3 := addr\<rparr>"

definition init_paging :: "vmst \<Rightarrow> u64 \<Rightarrow> u64 \<Rightarrow> u64 \<Rightarrow> vmst option" where
  "init_paging v kernmem physbase num_pages =
     do { (st, p) \<leftarrow> kmalloc_init (vkst v) 1;
          let v = v\<lparr>ker_cr3 := PADDR p\<rparr>;
          let v = v\<lparr>ker_pml4_t := VADDR (ker_cr3 v)\<rparr>;
          st \<leftarrow> init_map_virt_phys_addr st 0 0 num_pages (ker_pml4_t v) 0;
          st \<leftarrow> init_map_virt_phys_addr st kernmem physbase (num_pages - physbase div 4096 + 1) (ker_pml4_t v) 0;
          st \<leftarrow> init_map_virt_phys_addr st 0xFFFFFFFF800B8000 0xB8000 1 (ker_pml4_t v) 0;
          let v = LOAD_CR3 (v\<lparr>vkst := st\<rparr>) (ker_cr3 v);
          Some (set_highest_virtaddr v (kernmem + num_pages * 4096)) }"

section \<open>Page faults\<close>

definition fetch_pte_entry :: "u64 \<Rightarrow> u64" where
  "fetch_pte_entry vaddr =
     (let p_entry = push_bit 3 (drop_bit 28 (push_bit 16 vaddr)) in p_entry OR 0xFFFFFF0000000000)"

definition IS_PAGE_WRITABLE :: "u64 \<Rightarrow> bool" where
  "IS_PAGE_WRITABLE addr \<longleftrightarrow> addr AND 2 \<noteq> 0"

text \<open>The messages of the fault handler and the final value of its variable \<^verbatim>\<open>seg_fault\<close>; it
  has no other effect.\<close>

datatype fault_msg = Above_kernel | PEntry u64 u64 | PE u64 u64

definition handle_page_fault :: "u64 \<Rightarrow> u64 \<Rightarrow> fault_msg list \<times> int" where
  "handle_page_fault addr err_code =
     (if KERNEL_VADDR \<le> addr then ([Above_kernel], 0)
      else if err_code AND 1 \<noteq> 0 then
        let pte_e = fetch_pte_entry addr;
            paddr = pte_e AND 0x000FFFFFFFFFF000
        in ([PEntry (push_bit 3 (drop_bit 28 (push_bit 16 addr))) addr, PE pte_e paddr],
            if \<not> IS_PAGE_WRITABLE pte_e then 0 else 1)
      else ([], 0))"

section \<open>Mapping functions of mem.c\<close>

partial_function (option) region_loop :: "kst \<Rightarrow> u64 \<Rightarrow> u64 \<Rightarrow> u64 \<Rightarrow> kst option" where
  "region_loop st pml4 v end_page =
     (if v < end_page then
        do { (st, addr) \<leftarrow> kmalloc st 1;
             st \<leftarrow> init_map_virt_phys_addr st v (PADDR addr) 1 pml4 1;
             region_loop st pml4 (v + 4096) end_page }
      else Some st)"

text \<open>The function uses only the page-table root of its \<^verbatim>\<open>pcb\<close> argument.\<close>

definition region_alloc :: "kst \<Rightarrow> u64 \<Rightarrow> u64 \<Rightarrow> u64 \<Rightarrow> kst option" where
  "region_alloc st pml4 va sz = region_loop st pml4 (get_starting_page va) (get_ending_page (va + sz))"

definition bumpPtr :: u64 where
  "bumpPtr = 0xFFFFF0F080700000"

definition kmalloc_stack :: "kst \<Rightarrow> u64 \<Rightarrow> u64 \<Rightarrow> (kst \<times> u64) option" where
  "kmalloc_stack st sz pml4e =
     do { (st, r) \<leftarrow> alloc_block VADDR st sz;
          case r of
            None \<Rightarrow> Some (st, 0)
          | Some ret \<Rightarrow> do { st \<leftarrow> init_map_virt_phys_addr st (bumpPtr + ret) ret 1 pml4e 1;
                             Some (st, bumpPtr + ret) } }"

section \<open>Tables in memory\<close>

definition tabs :: "mem \<Rightarrow> tables" where
  "tabs m f i = ld64 m (4096 * f + 8 * i)"

definition is_table :: "u64 \<Rightarrow> nat \<Rightarrow> bool" where
  "is_table table f \<longleftrightarrow> (\<forall>i<512. loc (table + 8 * of_nat i) = 4096 * f + 8 * i)"

context direct_map
begin

lemma is_table_tr:
  assumes "low (4096 * Suc f)"
  shows "is_table (tr (of_nat (4096 * f))) f"
proof -
  have "loc (tr (of_nat (4096 * f)) + 8 * of_nat i) = 4096 * f + 8 * i" if "i < 512" for i
  proof -
    have "tr (of_nat (4096 * f)) + 8 * of_nat i = tr (of_nat (4096 * f + 8 * i))"
      by (simp add: tr_add)
    moreover have "low (4096 * f + 8 * i)" using assms that by (auto simp: low_def)
    ultimately show ?thesis by (simp only: loc_tr)
  qed
  then show ?thesis by (simp add: is_table_def)
qed

end

lemma is_table_loc:
  assumes "is_table table f" and "unat off < 512"
  shows "loc (table + 8 * off) = 4096 * f + 8 * unat off"
  using assms unfolding is_table_def by (metis of_nat_unat ucast_id)

lemma entry_at_tabs: "is_table table f \<Longrightarrow> unat off < 512 \<Longrightarrow> entry_at m table off = tabs m f (unat off)"
  by (simp add: entry_at_def tabs_def is_table_loc)

lemma tabs_set_entry:
  assumes "is_table table f" and "unat off < 512" and "j < 512"
  shows "tabs (set_entry m table off v) h j = (if h = f \<and> j = unat off then v else tabs m h j)"
proof (cases "h = f \<and> j = unat off")
  case True
  then show ?thesis using assms by (simp add: set_entry_def is_table_loc tabs_def mem_simps)
next
  case False
  have "4096 * h + 8 * j + 8 \<le> 4096 * f + 8 * unat off \<or> 4096 * f + 8 * unat off + 8 \<le> 4096 * h + 8 * j"
    using False assms(2,3) by (cases h f rule: linorder_cases) auto
  then show ?thesis
    using False assms by (auto simp: set_entry_def is_table_loc tabs_def cell64.ld_st_other)
qed

lemma set_entry_frame:
  assumes "is_table table f" and "unat off < 512" and "a < 4096 * f \<or> 4096 * Suc f \<le> a"
  shows "set_entry m table off v a = m a"
  using assms by (auto simp: set_entry_def is_table_loc cell64.st_frame)

lemma index_less: "unat (x AND 0x1FF :: u64) < 512"
  using word_and_le1 [of x "0x1FF"] by (simp add: word_le_nat_alt)

lemma index_bounds [simp]:
  "unat (pte_index va) < 512" "unat (pde_index va) < 512" "unat (pdpe_index va) < 512" "unat (pml4_index va) < 512"
  by (simp_all only: pte_index_def pde_index_def pdpe_index_def pml4_index_def index_less)

definition path_of :: "u64 \<Rightarrow> nat list" where
  "path_of va = [unat (pml4_index va), unat (pdpe_index va), unat (pde_index va)]"

lemma valid_path_of [simp]: "valid_path (path_of va)" "length (path_of va) = 3"
  by (simp_all add: path_of_def valid_path_def)

lemma of_int_to_int:
  assumes "unat off < 2147483648"
  shows "of_int (to_int off) = off"
proof -
  have "of_nat (unat off) = off" by simp
  then have "to_int off = int (unat off)" using to_int_small [OF assms] by (simp only:)
  then show ?thesis by simp
qed

section \<open>The invariant of the page tables\<close>

definition table_frames :: "kst \<Rightarrow> nat \<Rightarrow> nat \<Rightarrow> nat set" where
  "table_frames st lo hi = {f. unat (free_list st) + 24 * hi \<le> 4096 * f \<and> f < lo}"

definition pt_inv :: "kst \<Rightarrow> nat \<Rightarrow> nat \<Rightarrow> nat \<Rightarrow> nat \<Rightarrow> bool" where
  "pt_inv st root lo hi n \<longleftrightarrow> fl_inv st lo hi n \<and> tree (tabs (kmem st)) root (table_frames st lo hi)"

text \<open>A page that holds no table of this root.\<close>

definition off_tree :: "kst \<Rightarrow> nat \<Rightarrow> nat \<Rightarrow> bool" where
  "off_tree st root f \<longleftrightarrow> (\<forall>p. valid_path p \<longrightarrow> walk (tabs (kmem st)) root p \<noteq> Some f)"

text \<open>
  What every step of the mapping code keeps: the invariant, the tables that are linked, the place of
  the descriptors, and
  the contents of the memory below the descriptors and of the pages that are handed out but hold
  no table.
\<close>

definition walks_kept :: "kst \<Rightarrow> kst \<Rightarrow> nat \<Rightarrow> bool" where
  "walks_kept st st' root \<longleftrightarrow> (\<forall>p f. valid_path p \<and> walk (tabs (kmem st)) root p = Some f \<longrightarrow> walk (tabs (kmem st')) root p = Some f)"

definition pt_step :: "kst \<Rightarrow> kst \<Rightarrow> nat \<Rightarrow> nat \<Rightarrow> nat \<Rightarrow> nat \<Rightarrow> nat \<Rightarrow> bool" where
  "pt_step st st' root lo lo' hi n \<longleftrightarrow>
     pt_inv st' root lo' hi n \<and> lo \<le> lo' \<and> free_list st' = free_list st \<and>
     same_on 0 (unat (free_list st)) (kmem st') (kmem st) \<and> walks_kept st st' root \<and>
     (\<forall>f\<in>table_frames st lo hi. off_tree st root f \<longrightarrow>
        off_tree st' root f \<and> same_on (4096 * f) 4096 (kmem st') (kmem st))"

definition same_map :: "kst \<Rightarrow> kst \<Rightarrow> nat \<Rightarrow> bool" where
  "same_map st st' root \<longleftrightarrow> (\<forall>q j. valid_path q \<and> length q = 3 \<and> j < 512 \<longrightarrow>
     lookup (tabs (kmem st')) root q j = lookup (tabs (kmem st)) root q j)"

lemma pt_step_refl: "pt_inv st root lo hi n \<Longrightarrow> pt_step st st root lo lo hi n"
  by (simp add: pt_step_def same_on_def walks_kept_def)

lemma pt_step_trans:
  assumes "pt_step st st1 root lo lo1 hi n" and "pt_step st1 st2 root lo1 lo2 hi n"
  shows "pt_step st st2 root lo lo2 hi n"
proof -
  have "table_frames st lo hi \<subseteq> table_frames st1 lo1 hi"
    using assms(1) by (auto simp: table_frames_def pt_step_def)
  then show ?thesis
    using assms by (auto simp: pt_step_def same_on_def subset_iff walks_kept_def)
qed

lemma same_map_refl: "same_map st st root"
  by (simp add: same_map_def)

lemma same_map_trans: "same_map st st1 root \<Longrightarrow> same_map st1 st2 root \<Longrightarrow> same_map st st2 root"
  by (simp add: same_map_def)

lemma fl_inv_write:
  assumes "fl_inv st lo hi n" and "same_on (unat (free_list st)) (24 * hi) m (kmem st)"
  shows "fl_inv (st\<lparr>kmem := m\<rparr>) lo hi n"
proof -
  let ?F = "unat (free_list st)"
  have d: "same_on (?F + 24 * i) 24 m (kmem st)" if "i < hi" for i
    using assms(2) by (rule same_on_sub) (use that in auto)
  note I = fl_invD [OF assms(1)]
  show ?thesis
    using I desc_same [OF d] by (auto simp: fl_inv_def fl_linked_def Let_def)
qed

lemma table_low:
  assumes "fl_inv st lo hi n" and "f < hi"
  shows "low (4096 * Suc f)"
  using fl_invD(4,5) [OF assms(1)] assms(2) by (auto simp: low_def)

lemma table_pointers:
  assumes "fl_inv st lo hi n" and "f < hi"
  shows "is_table (VADDR (of_nat (4096 * f))) f" and "is_table (of_nat (4096 * f)) f"
  using vaddr_map.is_table_tr [OF table_low [OF assms]] init_map.is_table_tr [OF table_low [OF assms]] .

section \<open>One new table\<close>

lemma pages_for_1 [simp]: "pages_for 1 = int 1"
  by (simp add: pages_for_def to_int_def)

text \<open>What an allocation leaves of the tables: the old ones as they were, the new one empty.\<close>

lemma tabs_alloc:
  assumes inv: "fl_inv st lo hi n" and post: "alloc_post st st1 lo k hi"
  shows "f \<in> table_frames st lo hi \<Longrightarrow> same_on (4096 * f) 4096 (kmem st1) (kmem st)"
    and "\<lbrakk> f \<in> table_frames st lo hi; j < 512 \<rbrakk> \<Longrightarrow> tabs (kmem st1) f j = tabs (kmem st) f j"
    and "\<lbrakk> lo \<le> g; g < lo + k; j < 512 \<rbrakk> \<Longrightarrow> tabs (kmem st1) g j = 0"
proof -
  show same: "same_on (4096 * f) 4096 (kmem st1) (kmem st)" if "f \<in> table_frames st lo hi" for f
    using that post by (auto simp: same_on_def alloc_post_def table_frames_def)
  show "tabs (kmem st1) f j = tabs (kmem st) f j" if "f \<in> table_frames st lo hi" "j < 512"
    unfolding tabs_def by (rule ld64_same, rule same_on_sub [OF same]) (use that in auto)
  show "tabs (kmem st1) g j = 0" if "lo \<le> g" "g < lo + k" "j < 512"
  proof -
    have "same_on (4096 * g + 8 * j) 8 (kmem st1) (\<lambda>_. 0)"
      using that post by (auto simp: same_on_def alloc_post_def)
    then show ?thesis by (simp add: tabs_def ld64_same [where m = "kmem st1"] ld64_zero)
  qed
qed

lemma pt_step_link:
  assumes inv: "pt_inv st root lo hi n" and inv': "fl_inv st' (Suc lo) hi n"
    and fl: "free_list st' = free_list st"
    and p: "walk (tabs (kmem st)) root p = Some f" "valid_path (p @ [i])"
    and l: "linked (tabs (kmem st)) (tabs (kmem st')) (table_frames st lo hi) f i lo"
    and same: "\<And>h. h \<in> table_frames st lo hi \<Longrightarrow> h \<noteq> f \<Longrightarrow> same_on (4096 * h) 4096 (kmem st') (kmem st)"
    and below: "same_on 0 (unat (free_list st)) (kmem st') (kmem st)"
  shows "pt_step st st' root lo (Suc lo) hi n" and "same_map st st' root"
    and "walk (tabs (kmem st')) root (p @ [i]) = Some lo"
    and "\<And>q. valid_path q \<Longrightarrow> q \<noteq> p @ [i] \<Longrightarrow> walk (tabs (kmem st')) root q = walk (tabs (kmem st)) root q"
proof -
  have t: "tree (tabs (kmem st)) root (table_frames st lo hi)" using inv by (simp add: pt_inv_def)
  note w = walk_link [OF t p(2,1) l]
  have vp: "valid_path p" using p(2) by (simp add: valid_path_snoc)
  have T: "table_frames st' (Suc lo) hi = insert lo (table_frames st lo hi)"
    using inv fl fl_invD(2) [of st lo hi n] by (auto simp: table_frames_def pt_inv_def less_Suc_eq)
  have "pt_inv st' root (Suc lo) hi n"
    using inv' tree_link [OF t p(2,1) l] by (simp add: pt_inv_def T)
  moreover have "off_tree st' root h \<and> same_on (4096 * h) 4096 (kmem st') (kmem st)"
    if h: "h \<in> table_frames st lo hi" "off_tree st root h" for h
  proof -
    have "h \<noteq> f" using h(2) p(1) vp by (auto simp: off_tree_def)
    moreover have "h \<noteq> lo" using h(1) by (auto simp: table_frames_def)
    ultimately show ?thesis using h w same by (auto simp: off_tree_def)
  qed
  moreover have "walk (tabs (kmem st)) root (p @ [i]) = None" using p(1) l by (simp add: walk_snoc linked_def)
  then have "walks_kept st st' root" using w by (auto simp: walks_kept_def)
  ultimately show "pt_step st st' root lo (Suc lo) hi n" using fl below by (simp add: pt_step_def)
  show "same_map st st' root"
    unfolding same_map_def using lookup_link [OF t p(2,1) l] by blast
  show "walk (tabs (kmem st')) root (p @ [i]) = Some lo" using w p(2) by simp
  show "\<And>q. valid_path q \<Longrightarrow> q \<noteq> p @ [i] \<Longrightarrow> walk (tabs (kmem st')) root q = walk (tabs (kmem st)) root q"
    using w by simp
qed

context frame_source
begin

lemma alloc_table_link:
  assumes inv: "pt_inv st root lo hi n" and room: "Suc lo \<le> hi"
    and p: "walk (tabs (kmem st)) root p = Some f" "valid_path (p @ [unat off])"
    and tbl: "is_table tbl f" and absent: "\<not> IS_PRESENT_PAGE (tabs (kmem st) f (unat off))"
    and flags: "unat flags < 4096" "bit flags 0"
  shows "\<exists>st'. alloc_table al flags st tbl (to_int off) = Some (st', VADDR (of_nat (4096 * lo))) \<and>
      pt_step st st' root lo (Suc lo) hi n \<and> same_map st st' root \<and>
      walk (tabs (kmem st')) root (p @ [unat off]) = Some lo \<and>
      (\<forall>q. valid_path q \<and> q \<noteq> p @ [unat off] \<longrightarrow> walk (tabs (kmem st')) root q = walk (tabs (kmem st)) root q) \<and>
      (\<forall>j<512. tabs (kmem st') lo j = 0)"
proof -
  let ?T = "table_frames st lo hi"
  have fl: "fl_inv st lo hi n" and t: "tree (tabs (kmem st)) root ?T" using inv by (auto simp: pt_inv_def)
  have off: "unat off < 512" and vp: "valid_path p" using p(2) by (auto simp: valid_path_snoc)
  have f: "f \<in> ?T" by (rule tree_in [OF t vp p(1)])
  obtain st1 where st1: "al st 1 = Some (st1, VADDR (of_nat (4096 * lo)))" "fl_inv st1 (Suc lo) hi n"
    and post: "alloc_post st st1 lo 1 hi"
    using al_ok [OF fl pages_for_1] room by auto
  have free: "free_list st1 = free_list st" using post by (simp add: alloc_post_def)
  let ?e = "of_nat (4096 * lo) OR flags"
  define st' where "st' = st1\<lparr>kmem := set_entry (kmem st1) tbl off ?e\<rparr>"
  have run: "alloc_table al flags st tbl (to_int off) = Some (st', VADDR (of_nat (4096 * lo)))"
    using st1(1) off by (simp add: alloc_table_def st'_def of_int_to_int Let_def del: of_nat_mult)
  have frame: "kmem st' a = kmem st1 a" if "a < 4096 * f \<or> 4096 * Suc f \<le> a" for a
    using that set_entry_frame [OF tbl off] by (simp add: st'_def)
  have set: "tabs (kmem st') h j = (if h = f \<and> j = unat off then ?e else tabs (kmem st1) h j)" if "j < 512" for h j
    using tabs_set_entry [OF tbl off that] by (simp add: st'_def)
  have "same_on (unat (free_list st1)) (24 * hi) (kmem st') (kmem st1)"
    using f free frame by (auto simp: same_on_def table_frames_def)
  then have "fl_inv st' (Suc lo) hi n"
    using fl_inv_write [OF st1(2)] by (simp add: st'_def)
  moreover have link: "linked (tabs (kmem st)) (tabs (kmem st')) ?T f (unat off) lo"
  proof -
    have "low (4096 * lo)" using table_low [OF fl, of lo] room by (simp add: low_def)
    moreover have "f \<noteq> lo" using f by (auto simp: table_frames_def)
    ultimately show ?thesis
      using set off absent tabs_alloc [OF fl post] link_entry(2) [of lo flags] flags IS_PRESENT_PAGE_or [of flags]
      by (auto simp: linked_def table_frames_def)
  qed
  moreover have "same_on (4096 * h) 4096 (kmem st') (kmem st)" if "h \<in> ?T" "h \<noteq> f" for h
    using that tabs_alloc(1) [OF fl post that(1)] frame by (cases "h < f") (auto simp: same_on_def)
  moreover have "same_on 0 (unat (free_list st)) (kmem st') (kmem st)"
    using f frame post fl_invD(2) [OF fl] by (auto simp: same_on_def table_frames_def alloc_post_def)
  moreover have "free_list st' = free_list st" using free by (simp add: st'_def)
  ultimately show ?thesis
    using run pt_step_link [OF inv _ _ p, of st'] unfolding linked_def by blast
qed

end

lemma alloc_pte_link:
  assumes "pt_inv st root lo hi n" and "Suc lo \<le> hi"
    and "walk (tabs (kmem st)) root p = Some f" "valid_path (p @ [unat off])"
    and "is_table tbl f" and "\<not> IS_PRESENT_PAGE (tabs (kmem st) f (unat off))"
  shows "\<exists>st'. alloc_pte st tbl (to_int off) access = Some (st', VADDR (of_nat (4096 * lo))) \<and>
      pt_step st st' root lo (Suc lo) hi n \<and> same_map st st' root \<and>
      walk (tabs (kmem st')) root (p @ [unat off]) = Some lo \<and>
      (\<forall>q. valid_path q \<and> q \<noteq> p @ [unat off] \<longrightarrow> walk (tabs (kmem st')) root q = walk (tabs (kmem st)) root q) \<and>
      (\<forall>j<512. tabs (kmem st') lo j = 0)"
proof (cases "access = 1")
  case True
  then show ?thesis
    using kmalloc_src.alloc_table_link [OF assms, of RW_USER_FLAGS]
    by (simp add: alloc_pte_def) (simp add: RW_USER_FLAGS_def bit_numeral_rec)
next
  case False
  then show ?thesis
    using kmalloc_init_src.alloc_table_link [OF assms, of RW_KERNEL_FLAGS]
    by (simp add: alloc_pte_def) (simp add: RW_KERNEL_FLAGS_def bit_numeral_rec)
qed

lemma alloc_levels: "alloc_pde = alloc_pte" "alloc_pdpe = alloc_pte"
  by (auto simp: fun_eq_iff alloc_pte_def alloc_pde_def alloc_pdpe_def)

section \<open>The tables on a path\<close>

text \<open>What is left to do below a table that is on the path: make the tables for \<open>offs\<close>.\<close>

fun make_tables :: "kst \<Rightarrow> u64 \<Rightarrow> u64 list \<Rightarrow> int \<Rightarrow> (kst \<times> u64) option" where
  "make_tables st tbl [] access = Some (st, tbl)"
| "make_tables st tbl (off # offs) access =
     do { (st, t) \<leftarrow> alloc_pte st tbl (to_int off) access; make_tables st t offs access }"

lemma make_tables_ok:
  "\<lbrakk> pt_inv st root lo hi n; lo + length offs \<le> hi; walk (tabs (kmem st)) root p = Some f;
     valid_path (p @ map unat offs); is_table tbl f;
     offs \<noteq> [] \<longrightarrow> \<not> IS_PRESENT_PAGE (tabs (kmem st) f (unat (hd offs))) \<rbrakk> \<Longrightarrow>
    \<exists>st' t g. make_tables st tbl offs access = Some (st', t) \<and> is_table t g \<and>
      pt_step st st' root lo (lo + length offs) hi n \<and> same_map st st' root \<and>
      walk (tabs (kmem st')) root (p @ map unat offs) = Some g \<and>
      (offs \<noteq> [] \<longrightarrow> t = VADDR (of_nat (4096 * g)) \<and> (\<forall>j<512. tabs (kmem st') g j = 0)) \<and>
      (\<forall>q. valid_path q \<and> length p + length offs < length q \<longrightarrow> walk (tabs (kmem st')) root q = walk (tabs (kmem st)) root q)"
proof (induction offs arbitrary: st lo p f tbl)
  case Nil
  then show ?case by (auto simp: pt_step_refl same_map_refl)
next
  case (Cons off offs)
  have v: "valid_path (p @ [unat off])" using Cons.prems(4) by (auto simp: valid_path_def)
  obtain st1 where st1: "alloc_pte st tbl (to_int off) access = Some (st1, VADDR (of_nat (4096 * lo)))"
    "pt_step st st1 root lo (Suc lo) hi n" "same_map st st1 root"
    "walk (tabs (kmem st1)) root (p @ [unat off]) = Some lo" "\<forall>j<512. tabs (kmem st1) lo j = 0"
    "\<forall>q. valid_path q \<and> q \<noteq> p @ [unat off] \<longrightarrow> walk (tabs (kmem st1)) root q = walk (tabs (kmem st)) root q"
    using alloc_pte_link [OF Cons.prems(1) _ Cons.prems(3) v Cons.prems(5), of access] Cons.prems(2,6) by auto
  have inv1: "pt_inv st1 root (Suc lo) hi n" using st1(2) by (simp add: pt_step_def)
  have tbl1: "is_table (VADDR (of_nat (4096 * lo))) lo"
    using table_pointers [of st1 "Suc lo" hi n lo] inv1 Cons.prems(2) by (auto simp: pt_inv_def)
  have "\<exists>st' t g. make_tables st1 (VADDR (of_nat (4096 * lo))) offs access = Some (st', t) \<and> is_table t g \<and>
      pt_step st1 st' root (Suc lo) (Suc lo + length offs) hi n \<and> same_map st1 st' root \<and>
      walk (tabs (kmem st')) root ((p @ [unat off]) @ map unat offs) = Some g \<and>
      (offs \<noteq> [] \<longrightarrow> t = VADDR (of_nat (4096 * g)) \<and> (\<forall>j<512. tabs (kmem st') g j = 0)) \<and>
      (\<forall>q. valid_path q \<and> length (p @ [unat off]) + length offs < length q \<longrightarrow> walk (tabs (kmem st')) root q = walk (tabs (kmem st1)) root q)"
  proof (rule Cons.IH [OF inv1 _ st1(4) _ tbl1])
    show "offs \<noteq> [] \<longrightarrow> \<not> IS_PRESENT_PAGE (tabs (kmem st1) lo (unat (hd offs)))"
      using st1(5) Cons.prems(4) by (cases offs) (auto simp: valid_path_def)
  qed (use Cons.prems in auto)
  then obtain st' t g where r: "make_tables st1 (VADDR (of_nat (4096 * lo))) offs access = Some (st', t)" "is_table t g"
    "pt_step st1 st' root (Suc lo) (Suc lo + length offs) hi n" "same_map st1 st' root"
    "walk (tabs (kmem st')) root ((p @ [unat off]) @ map unat offs) = Some g"
    "offs \<noteq> [] \<longrightarrow> t = VADDR (of_nat (4096 * g)) \<and> (\<forall>j<512. tabs (kmem st') g j = 0)"
    "\<forall>q. valid_path q \<and> length (p @ [unat off]) + length offs < length q \<longrightarrow> walk (tabs (kmem st')) root q = walk (tabs (kmem st1)) root q"
    by blast
  have "t = VADDR (of_nat (4096 * g)) \<and> (\<forall>j<512. tabs (kmem st') g j = 0)"
    using r st1(4,5) by (cases offs) auto
  moreover have "walk (tabs (kmem st')) root q = walk (tabs (kmem st)) root q"
    if "valid_path q" "length p + length (off # offs) < length q" for q
    using that r(7) st1(6) by force
  ultimately show ?case
    using st1(1) r(1-3,5) same_map_trans [OF st1(3) r(4)] pt_step_trans [OF st1(2) r(3)]
    by (intro exI [of _ st'] exI [of _ t] exI [of _ g]) (simp del: of_nat_mult)
qed

definition tables_for :: "kst \<Rightarrow> kst \<Rightarrow> nat \<Rightarrow> nat \<Rightarrow> nat \<Rightarrow> nat \<Rightarrow> u64 \<Rightarrow> u64 \<Rightarrow> u64 \<Rightarrow> bool" where
  "tables_for st st' root lo hi n va pde_table pte_table \<longleftrightarrow>
     (\<exists>lo' d f. lo' \<le> lo + 3 \<and> pt_step st st' root lo lo' hi n \<and> same_map st st' root \<and>
        walk (tabs (kmem st')) root [unat (pml4_index va), unat (pdpe_index va)] = Some d \<and> is_table pde_table d \<and>
        walk (tabs (kmem st')) root (path_of va) = Some f \<and> pte_table = VADDR (of_nat (4096 * f)) \<and>
        (\<forall>q. valid_path q \<and> length q = 3 \<and> q \<noteq> path_of va \<longrightarrow>
           walk (tabs (kmem st')) root q = walk (tabs (kmem st)) root q))"

text \<open>The last level below a table \<open>pde\<close> that was just made or found.\<close>

lemma last_table:
  assumes made: "pt_step st st1 root lo lo1 hi n" "same_map st st1 root" and room: "lo1 \<le> lo + 2" "lo + 3 \<le> hi"
    and d: "walk (tabs (kmem st1)) root [unat (pml4_index va), unat (pdpe_index va)] = Some d" "is_table pde d"
    and absent: "\<not> IS_PRESENT_PAGE (tabs (kmem st1) d (unat (pde_index va)))"
    and others: "\<forall>q. valid_path q \<and> length q = 3 \<longrightarrow> walk (tabs (kmem st1)) root q = walk (tabs (kmem st)) root q"
  shows "\<exists>st' pte. alloc_pte st1 pde (to_int (pde_index va)) access = Some (st', pte) \<and>
    tables_for st st' root lo hi n va pde pte"
proof -
  let ?p = "[unat (pml4_index va), unat (pdpe_index va)]"
  have inv: "pt_inv st1 root lo1 hi n" using made(1) by (simp add: pt_step_def)
  have v: "valid_path ?p" "valid_path (?p @ [unat (pde_index va)])" by (simp_all add: valid_path_def)
  have "Suc lo1 \<le> hi" using room by simp
  from alloc_pte_link [OF inv this d(1) v(2) d(2) absent, of access] obtain st' where
    st': "alloc_pte st1 pde (to_int (pde_index va)) access = Some (st', VADDR (of_nat (4096 * lo1)))"
    "pt_step st1 st' root lo1 (Suc lo1) hi n" "same_map st1 st' root"
    "walk (tabs (kmem st')) root (?p @ [unat (pde_index va)]) = Some lo1"
    "\<forall>q. valid_path q \<and> q \<noteq> ?p @ [unat (pde_index va)] \<longrightarrow> walk (tabs (kmem st')) root q = walk (tabs (kmem st1)) root q"
    by blast
  have "walk (tabs (kmem st')) root ?p = Some d" using st'(5) v(1) d(1) by simp
  then have "tables_for st st' root lo hi n va pde (VADDR (of_nat (4096 * lo1)))"
    using pt_step_trans [OF made(1) st'(2)] same_map_trans [OF made(2) st'(3)] st'(4,5) d(2) room(1) others
    unfolding tables_for_def path_of_def by (intro exI [of _ "Suc lo1"] exI [of _ d] exI [of _ lo1]) simp
  with st'(1) show ?thesis by blast
qed

lemma walk_Cons: "IS_PRESENT_PAGE (E f i) \<Longrightarrow> walk E f (i # is) = walk E (frame_of (E f i)) is"
  by (simp add: walk.simps)

lemma table_via_entry:
  assumes inv: "pt_inv st root lo hi n" and p: "walk (tabs (kmem st)) root p = Some f" "valid_path (p @ [i])"
    and e: "e = tabs (kmem st) f i" "IS_PRESENT_PAGE e"
  shows "walk (tabs (kmem st)) root (p @ [i]) = Some (frame_of e)"
    and "is_table (if access = 1 then VADDR (page_base e) else page_base e) (frame_of e)"
    and "is_table (VADDR (page_base e)) (frame_of e)"
proof -
  show w: "walk (tabs (kmem st)) root (p @ [i]) = Some (frame_of e)"
    using p(1) e by (simp add: walk_snoc)
  then have "frame_of e \<in> table_frames st lo hi"
    using inv p(2) by (auto simp: pt_inv_def intro: tree_in)
  then have "frame_of e < hi" using inv fl_invD(3) [of st lo hi n] by (auto simp: table_frames_def pt_inv_def)
  then show "is_table (if access = 1 then VADDR (page_base e) else page_base e) (frame_of e)"
    and "is_table (VADDR (page_base e)) (frame_of e)"
    using table_pointers [of st lo hi n "frame_of e"] inv by (auto simp: page_base_frame pt_inv_def simp del: of_nat_mult)
qed

lemma make_path:
  assumes inv: "pt_inv st root lo hi n" and room: "lo + 3 \<le> hi" and p: "walk (tabs (kmem st)) root p = Some f"
    and path: "p @ map unat offs = [unat (pml4_index va), unat (pdpe_index va)]" and tbl: "is_table tbl f"
    and absent: "\<not> IS_PRESENT_PAGE (tabs (kmem st) f (unat (hd (offs @ [pde_index va]))))"
  shows "\<exists>st1 pde st' pte. make_tables st tbl offs access = Some (st1, pde) \<and>
    alloc_pte st1 pde (to_int (pde_index va)) access = Some (st', pte) \<and> tables_for st st' root lo hi n va pde pte"
proof -
  have len: "length offs \<le> 2" using arg_cong [OF path, of length] by simp
  have v: "valid_path (p @ map unat offs)" unfolding path by (simp add: valid_path_def)
  have room': "lo + length offs \<le> hi" using room len by simp
  have "offs \<noteq> [] \<longrightarrow> \<not> IS_PRESENT_PAGE (tabs (kmem st) f (unat (hd offs)))"
    using absent by (cases offs) auto
  from make_tables_ok [OF inv room' p v tbl this, of access] obtain st1 pde d where
    st1: "make_tables st tbl offs access = Some (st1, pde)" "is_table pde d"
      "pt_step st st1 root lo (lo + length offs) hi n" "same_map st st1 root"
      "walk (tabs (kmem st1)) root (p @ map unat offs) = Some d" "offs \<noteq> [] \<longrightarrow> (\<forall>j<512. tabs (kmem st1) d j = 0)"
      "\<forall>q. valid_path q \<and> length p + length offs < length q \<longrightarrow> walk (tabs (kmem st1)) root q = walk (tabs (kmem st)) root q"
    by blast
  moreover have "length p + length offs = 2" using arg_cong [OF path, of length] by simp
  ultimately have others: "\<forall>q. valid_path q \<and> length q = 3 \<longrightarrow> walk (tabs (kmem st1)) root q = walk (tabs (kmem st)) root q"
    by simp
  have "\<not> IS_PRESENT_PAGE (tabs (kmem st1) d (unat (pde_index va)))"
    using st1 p absent by (cases offs) auto
  with last_table [OF st1(3,4) _ room st1(5) [unfolded path] st1(2) _ others, of access] len st1(1) show ?thesis by auto
qed

lemma map_tables_ok:
  assumes inv: "pt_inv st root lo hi n" and room: "lo + 3 \<le> hi" and root: "is_table pml4 root"
  shows "\<exists>st' pde pte. map_tables st va pml4 access = Some (st', pde, pte) \<and> tables_for st st' root lo hi n va pde pte"
proof -
  let ?m = "kmem st" and ?i4 = "unat (pml4_index va)" and ?i3 = "unat (pdpe_index va)" and ?i2 = "unat (pde_index va)"
  have v: "valid_path [?i4]" "valid_path [?i4, ?i3]" by (simp_all add: valid_path_def)
  have w0: "walk (tabs ?m) root [] = Some root" by (simp add: walk.simps)
  define e4 where "e4 = tabs ?m root ?i4"
  let ?pdpe = "if access = 1 then VADDR (page_base e4) else page_base e4"
  define e3 where "e3 = tabs ?m (frame_of e4) ?i3"
  let ?pde = "if access = 1 then VADDR (page_base e3) else page_base e3"
  define e2 where "e2 = tabs ?m (frame_of e3) ?i2"
  have r4: "entry_at ?m pml4 (pml4_index va) = e4" using root by (simp add: e4_def entry_at_tabs)
  consider "\<not> IS_PRESENT_PAGE e4" | "IS_PRESENT_PAGE e4" "\<not> IS_PRESENT_PAGE e3"
    | "IS_PRESENT_PAGE e4" "IS_PRESENT_PAGE e3" by blast
  then show ?thesis
  proof cases
    case 1
    then show ?thesis
      using make_path [OF inv room w0, where offs = "[pml4_index va, pdpe_index va]" and va = va and access = access] root r4
      by (fastforce simp: e4_def map_tables_def Let_def alloc_levels bind_eq_Some_conv)
  next
    case 2
    note t3 = table_via_entry [OF inv w0 _ e4_def 2(1), unfolded append_Nil, OF v(1)]
    have r3: "entry_at ?m ?pdpe (pdpe_index va) = e3" using t3(2) [of access] by (simp only: e3_def entry_at_tabs index_bounds)
    show ?thesis
      using make_path [OF inv room t3(1) _ t3(2) [of access], where offs = "[pdpe_index va]" and va = va and access = access] r4 r3 2
      by (fastforce simp: e3_def map_tables_def Let_def alloc_levels bind_eq_Some_conv)
  next
    case 3
    note t3 = table_via_entry [OF inv w0 _ e4_def 3(1), unfolded append_Nil, OF v(1)]
    have r3: "entry_at ?m ?pdpe (pdpe_index va) = e3" using t3(2) [of access] by (simp only: e3_def entry_at_tabs index_bounds)
    note t2 = table_via_entry [OF inv t3(1) _ e3_def 3(2), unfolded append.simps, OF v(2)]
    have r2: "entry_at ?m ?pde (pde_index va) = e2" using t2(2) [of access] by (simp only: e2_def entry_at_tabs index_bounds)
    show ?thesis
    proof (cases "IS_PRESENT_PAGE e2")
      case True
      have "walk (tabs ?m) root (path_of va) = Some (frame_of e2)"
        using t2(1) True by (simp add: path_of_def walk_snoc [of _ _ "[?i4, ?i3]", simplified] e2_def)
      then have "tables_for st st root lo hi n va ?pde (VADDR (page_base e2))"
        unfolding tables_for_def page_base_frame [of e2]
        using pt_step_refl [OF inv] same_map_refl t2(1) t2(2) [of access] le_add1 [of lo 3] by blast
      then show ?thesis
        using r4 r3 r2 3 True by (auto simp: map_tables_def Let_def)
    next
      case False
      then show ?thesis
        using make_path [OF inv room t2(1) _ t2(2) [of access], where offs = "[]" and va = va and access = access] r4 r3 r2 3
        by (fastforce simp: e2_def map_tables_def Let_def bind_eq_Some_conv)
    qed
  qed
qed

section \<open>Filling a table\<close>

lemma fill_entries_ok:
  assumes "is_table t f"
  shows "unat i + n \<le> 512 \<Longrightarrow> \<exists>m'. fill_entries m t mk pa i n = (m', pa + 4096 * of_nat n) \<and>
    (\<forall>h j. j < 512 \<longrightarrow> tabs m' h j =
      (if h = f \<and> unat i \<le> j \<and> j < unat i + n then mk (pa + 4096 * of_nat (j - unat i)) else tabs m h j)) \<and>
    (\<forall>a. a < 4096 * f \<or> 4096 * Suc f \<le> a \<longrightarrow> m' a = m a)"
proof (induction n arbitrary: m pa i)
  case 0
  then show ?case by auto
next
  case (Suc n)
  have i: "unat i < 512" using Suc.prems by simp
  then have i1: "unat (i + 1) = Suc (unat i)" by (subst unat_add_lem [THEN iffD1]) auto
  let ?m1 = "set_entry m t i (mk pa)"
  obtain m' where m': "fill_entries ?m1 t mk (pa + 4096) (i + 1) n = (m', pa + 4096 + 4096 * of_nat n)"
    "\<forall>h j. j < 512 \<longrightarrow> tabs m' h j =
      (if h = f \<and> Suc (unat i) \<le> j \<and> j < Suc (unat i) + n then mk (pa + 4096 + 4096 * of_nat (j - Suc (unat i))) else tabs ?m1 h j)"
    "\<forall>a. a < 4096 * f \<or> 4096 * Suc f \<le> a \<longrightarrow> m' a = ?m1 a"
    using Suc.IH [of "i + 1" ?m1 "pa + 4096"] Suc.prems i1 by auto
  have shift: "pa + 4096 + 4096 * of_nat (j - Suc (unat i)) = pa + 4096 * of_nat (j - unat i)" if "unat i < j" for j
  proof -
    have "j - unat i = Suc (j - Suc (unat i))" using that by simp
    then show ?thesis by (simp add: algebra_simps)
  qed
  have "tabs m' h j = (if h = f \<and> unat i \<le> j \<and> j < unat i + Suc n then mk (pa + 4096 * of_nat (j - unat i)) else tabs m h j)"
    if "j < 512" for h j
    using that m'(2) shift [of j] tabs_set_entry [OF assms i that, of m "mk pa" h] by auto
  moreover have "m' a = m a" if "a < 4096 * f \<or> 4096 * Suc f \<le> a" for a
    using that m'(3) set_entry_frame [OF assms i that] by auto
  ultimately show ?case using m'(1) by (auto simp: algebra_simps)
qed

lemma pt_step_leaf:
  assumes inv: "pt_inv st root lo hi n" and p: "valid_path p" "length p = 3" "walk (tabs (kmem st)) root p = Some f"
    and frame: "\<forall>a. (a < 4096 * f \<or> 4096 * Suc f \<le> a) \<and> a < 4096 * lo \<longrightarrow> m' a = kmem st a"
  shows "pt_step st (st\<lparr>kmem := m'\<rparr>) root lo lo hi n"
    and "\<And>q j. valid_path q \<Longrightarrow> length q = 3 \<Longrightarrow> j < 512 \<Longrightarrow>
      lookup (tabs m') root q j = (if q = p then present_entry (tabs m' f j) else lookup (tabs (kmem st)) root q j)"
    and "\<And>q. valid_path q \<Longrightarrow> walk (tabs m') root q = walk (tabs (kmem st)) root q"
proof -
  let ?T = "table_frames st lo hi"
  have fl: "fl_inv st lo hi n" and t: "tree (tabs (kmem st)) root ?T" using inv by (auto simp: pt_inv_def)
  have f: "f \<in> ?T" by (rule tree_in [OF t p(1,3)])
  have pages: "same_on (4096 * h) 4096 m' (kmem st)" if "h \<noteq> f" "h < lo" for h
    using that frame by (cases "h < f") (auto simp: same_on_def)
  have same: "\<forall>h\<in>?T. h \<noteq> f \<longrightarrow> (\<forall>j<512. tabs m' h j = tabs (kmem st) h j)"
    unfolding tabs_def table_frames_def by (auto intro!: ld64_same same_on_sub [OF pages])
  note w = walk_leaf [OF t p same]
  have "fl_inv (st\<lparr>kmem := m'\<rparr>) lo hi n"
    by (rule fl_inv_write [OF fl]) (use f frame fl_invD(2) [OF fl] in \<open>auto simp: same_on_def table_frames_def\<close>)
  moreover have "table_frames (st\<lparr>kmem := m'\<rparr>) lo hi = ?T" by (simp add: table_frames_def)
  ultimately have "pt_inv (st\<lparr>kmem := m'\<rparr>) root lo hi n"
    using tree_leaf [OF t p same] by (simp add: pt_inv_def)
  moreover have "off_tree (st\<lparr>kmem := m'\<rparr>) root h \<and> same_on (4096 * h) 4096 m' (kmem st)"
    if "off_tree st root h" "h \<in> ?T" for h
    using that p(1,3) w pages [of h] by (auto simp: off_tree_def table_frames_def)
  moreover have "same_on 0 (unat (free_list st)) m' (kmem st)"
    using f frame fl_invD(2) [OF fl] by (auto simp: same_on_def table_frames_def)
  moreover have "walks_kept st (st\<lparr>kmem := m'\<rparr>) root" using w by (simp add: walks_kept_def)
  ultimately show "pt_step st (st\<lparr>kmem := m'\<rparr>) root lo lo hi n" by (simp add: pt_step_def)
  show "\<And>q j. valid_path q \<Longrightarrow> length q = 3 \<Longrightarrow> j < 512 \<Longrightarrow>
      lookup (tabs m') root q j = (if q = p then present_entry (tabs m' f j) else lookup (tabs (kmem st)) root q j)"
    by (rule lookup_leaf [OF t p same])
  show "\<And>q. valid_path q \<Longrightarrow> walk (tabs m') root q = walk (tabs (kmem st)) root q" by (rule w)
qed

section \<open>Mapping within one table\<close>

text \<open>The entry for each of the \<open>c\<close> pages from \<open>va\<close>.\<close>

definition mapped :: "kst \<Rightarrow> kst \<Rightarrow> nat \<Rightarrow> u64 \<Rightarrow> nat \<Rightarrow> (nat \<Rightarrow> u64) \<Rightarrow> bool" where
  "mapped st st' root va c ent \<longleftrightarrow> (\<forall>q j. valid_path q \<and> length q = 3 \<and> j < 512 \<longrightarrow>
     lookup (tabs (kmem st')) root q j =
       (if q = path_of va \<and> unat (pte_index va) \<le> j \<and> j < unat (pte_index va) + c
        then Some (ent (j - unat (pte_index va))) else lookup (tabs (kmem st)) root q j))"

lemma reached_table:
  assumes "pt_inv st root lo hi n" and "valid_path p" and "walk (tabs (kmem st)) root p = Some f"
  shows "is_table (VADDR (of_nat (4096 * f))) f"
proof -
  have "f \<in> table_frames st lo hi"
    using assms unfolding pt_inv_def by (blast intro: tree_in)
  then show ?thesis
    using table_pointers(1) [of st lo hi n f] assms(1) fl_invD(3) [of st lo hi n]
    by (auto simp: pt_inv_def table_frames_def simp del: of_nat_mult)
qed

lemma present_one_table [simp]: "present_entry (one_table_entry access pa) = Some (one_table_entry access pa)"
proof -
  have "IS_PRESENT_PAGE (one_table_entry access pa)"
    unfolding one_table_entry_def using IS_PRESENT_PAGE_or
    by (simp add: RW_USER_FLAGS_def RW_KERNEL_FLAGS_def bit_numeral_rec)
  then show ?thesis by (simp add: present_entry_def)
qed

lemma init_map_one_table:
  assumes inv: "pt_inv st root lo hi n" and room: "lo + 3 \<le> hi" and root: "is_table pml4 root"
    and c: "unat no_of_pages + unat (pte_index va) \<le> 512"
  shows "\<exists>st' lo'. init_map_virt_phys_addr st va pa no_of_pages pml4 access = Some st' \<and> lo' \<le> lo + 3 \<and>
    pt_step st st' root lo lo' hi n \<and>
    mapped st st' root va (unat no_of_pages) (\<lambda>k. one_table_entry access (pa + 4096 * of_nat k)) \<and>
    walk (tabs (kmem st')) root (path_of va) \<noteq> None"
proof -
  let ?i = "unat (pte_index va)" and ?c = "unat no_of_pages"
  obtain st1 pde pte where run1: "map_tables st va pml4 access = Some (st1, pde, pte)"
    and "tables_for st st1 root lo hi n va pde pte"
    using map_tables_ok [OF inv room root] by blast
  then obtain lo' f where st1: "lo' \<le> lo + 3" "pt_step st st1 root lo lo' hi n" "same_map st st1 root"
    "walk (tabs (kmem st1)) root (path_of va) = Some f" "pte = VADDR (of_nat (4096 * f))"
    unfolding tables_for_def by blast
  have inv1: "pt_inv st1 root lo' hi n" using st1(2) by (simp add: pt_step_def)
  have pte: "is_table pte f" unfolding st1(5) by (rule reached_table [OF inv1 valid_path_of(1) st1(4)])
  have sum: "unat (pte_index va + no_of_pages) = ?i + ?c"
    using c by (intro unat_add_lem [THEN iffD1]) simp
  obtain m' where m': "fill_entries (kmem st1) pte (one_table_entry access) pa (pte_index va) ?c = (m', pa + 4096 * of_nat ?c)"
    "\<forall>h j. j < 512 \<longrightarrow> tabs m' h j =
      (if h = f \<and> ?i \<le> j \<and> j < ?i + ?c then one_table_entry access (pa + 4096 * of_nat (j - ?i)) else tabs (kmem st1) h j)"
    "\<forall>a. (a < 4096 * f \<or> 4096 * Suc f \<le> a) \<and> a < 4096 * lo' \<longrightarrow> m' a = kmem st1 a"
    using fill_entries_ok [OF pte, of "pte_index va" ?c "kmem st1" "one_table_entry access" pa] c
    by (auto simp: add.commute)
  have "unat ENTRIES_PER_PTE = 512" by simp
  then have "no_of_pages + pte_index va \<le> ENTRIES_PER_PTE"
    using c sum unfolding word_le_nat_alt add.commute [of no_of_pages] by linarith
  then have run: "init_map_virt_phys_addr st va pa no_of_pages pml4 access = Some (st1\<lparr>kmem := m'\<rparr>)"
    using run1 m'(1) sum by (simp add: init_map_virt_phys_addr_def Let_def)
  note leaf = pt_step_leaf [OF inv1 valid_path_of st1(4) m'(3)]
  have old: "lookup (tabs (kmem st)) root (path_of va) j = present_entry (tabs (kmem st1) f j)" if "j < 512" for j
    using st1(3) [unfolded same_map_def, rule_format, of "path_of va" j] that st1(4) by (simp add: lookup_def)
  have "mapped st (st1\<lparr>kmem := m'\<rparr>) root va ?c (\<lambda>k. one_table_entry access (pa + 4096 * of_nat k))"
    using leaf(2) m'(2) st1(3) old by (auto simp: mapped_def same_map_def)
  then show ?thesis
    using run st1(1,4) pt_step_trans [OF st1(2) leaf(1)] leaf(3) [OF valid_path_of(1)] by auto
qed

section \<open>The address map\<close>

definition pmap :: "kst \<Rightarrow> nat \<Rightarrow> u64 \<Rightarrow> u64 option" where
  "pmap st root va = lookup (tabs (kmem st)) root (path_of va) (unat (pte_index va))"

text \<open>The number of the virtual page of an address: bits 12 to 47.\<close>

definition pgno :: "u64 \<Rightarrow> nat" where
  "pgno va = unat va div 4096 mod 2 ^ 36"

lemma and_1FF: "unat (x AND 0x1FF :: u64) = unat x mod 512"
proof -
  have "x AND 0x1FF = take_bit 9 x" by (simp add: take_bit_eq_mask mask_eq_exp_minus_1)
  then show ?thesis by (simp add: take_bit_eq_mod unat_mod_distrib)
qed

lemma index_digits:
  "unat (pte_index va) = unat va div 4096 mod 512"
  "unat (pde_index va) = unat va div 4096 div 512 mod 512"
  "unat (pdpe_index va) = unat va div 4096 div 512 div 512 mod 512"
  "unat (pml4_index va) = unat va div 4096 div 512 div 512 div 512 mod 512"
  unfolding pte_index_def pde_index_def pdpe_index_def pml4_index_def and_1FF unat_drop_bit_eq drop_bit_eq_div
  by (simp_all add: unat_div_distrib div_mult2_eq [symmetric])

lemma digits4: "(k :: nat) mod 2 ^ 36 =
    k mod 512 + 512 * (k div 512 mod 512) + 512 ^ 2 * (k div 512 div 512 mod 512) + 512 ^ 3 * (k div 512 div 512 div 512 mod 512)"
proof -
  have "k mod (512 * (512 * (512 * 512))) = k mod 512 + 512 * (k div 512 mod 512 + 512 * (k div 512 div 512 mod 512 + 512 * (k div 512 div 512 div 512 mod 512)))"
    by (simp only: mod_mult2_eq add.commute)
  then show ?thesis by simp
qed

lemma pgno_path: "pgno va = unat (pte_index va) + 512 * unat (pde_index va) + 512 ^ 2 * unat (pdpe_index va) + 512 ^ 3 * unat (pml4_index va)"
  unfolding pgno_def index_digits by (rule digits4)

lemma digit_split: "(a :: nat) < 512 \<Longrightarrow> (a + 512 * x) mod 512 = a" "a < 512 \<Longrightarrow> (a + 512 * x) div 512 = x"
  by simp_all

lemma same_page_iff: "path_of va = path_of va' \<and> unat (pte_index va) = unat (pte_index va') \<longleftrightarrow> pgno va = pgno va'"
proof
  assume "path_of va = path_of va' \<and> unat (pte_index va) = unat (pte_index va')"
  then show "pgno va = pgno va'" by (simp add: pgno_path path_of_def)
next
  assume *: "pgno va = pgno va'"
  have d: "unat (pte_index w) = pgno w mod 512" "unat (pde_index w) = pgno w div 512 mod 512"
    "unat (pdpe_index w) = pgno w div 512 div 512 mod 512" "unat (pml4_index w) = pgno w div 512 div 512 div 512 mod 512" for w
  proof -
    have "pgno w = unat (pte_index w) + 512 * (unat (pde_index w) + 512 * (unat (pdpe_index w) + 512 * unat (pml4_index w)))"
      by (simp add: pgno_path)
    then show "unat (pte_index w) = pgno w mod 512" "unat (pde_index w) = pgno w div 512 mod 512"
      "unat (pdpe_index w) = pgno w div 512 div 512 mod 512" "unat (pml4_index w) = pgno w div 512 div 512 div 512 mod 512"
      using index_bounds [of w] by (simp_all only: digit_split mod_less)
  qed
  show "path_of va = path_of va' \<and> unat (pte_index va) = unat (pte_index va')"
    unfolding path_of_def d * by simp
qed

lemma mapped_pmap:
  assumes "mapped st st' root va 1 ent"
  shows "pmap st' root w = (if pgno w = pgno va then Some (ent 0) else pmap st root w)"
proof -
  have "unat (pte_index va) \<le> unat (pte_index w) \<and> unat (pte_index w) < unat (pte_index va) + 1 \<longleftrightarrow> unat (pte_index w) = unat (pte_index va)"
    by auto
  then show ?thesis
    using assms [unfolded mapped_def, rule_format, of "path_of w" "unat (pte_index w)"] same_page_iff [of w va]
    by (auto simp: pmap_def)
qed

lemma init_map_page:
  assumes "pt_inv st root lo hi n" and "lo + 3 \<le> hi" and "is_table pml4 root"
  shows "\<exists>st' lo'. init_map_virt_phys_addr st va pa 1 pml4 access = Some st' \<and> lo' \<le> lo + 3 \<and>
    pt_step st st' root lo lo' hi n \<and>
    (\<forall>w. pmap st' root w = (if pgno w = pgno va then Some (one_table_entry access pa) else pmap st root w)) \<and>
    walk (tabs (kmem st')) root (path_of va) \<noteq> None"
proof -
  have "unat (1 :: u64) + unat (pte_index va) \<le> 512"
    using index_bounds(1) [of va] unfolding unsigned_1 by linarith
  from init_map_one_table [OF assms this, of pa access] show ?thesis
    using mapped_pmap [of st _ root va] by fastforce
qed

lemma walk_page_table_eq:
  assumes inv: "pt_inv st root lo hi n"
  shows "walk_page_table (kmem st) (of_nat (4096 * root)) va =
    (case walk (tabs (kmem st)) root (path_of va) of None \<Rightarrow> - 1 | Some f \<Rightarrow> page_base (tabs (kmem st) f (unat (pte_index va))))"
proof -
  let ?E = "tabs (kmem st)"
  have w0: "walk ?E root [] = Some root" by (simp add: walk.simps)
  have fl: "fl_inv st lo hi n" using inv by (simp add: pt_inv_def)
  have tbl: "is_table (VADDR (page_base e)) (frame_of e)" "walk ?E root (p @ [i]) = Some (frame_of e)"
    if "walk ?E root p = Some f" "valid_path (p @ [i])" "e = ?E f i" "IS_PRESENT_PAGE e" for p f i e
    using table_via_entry [OF inv that] by auto
  have root: "is_table (VADDR (of_nat (4096 * root))) root"
    by (rule reached_table [OF inv _ w0]) (simp add: valid_path_def)
  define e4 where "e4 = ?E root (unat (pml4_index va))"
  define e3 where "e3 = ?E (frame_of e4) (unat (pdpe_index va))"
  define e2 where "e2 = ?E (frame_of e3) (unat (pde_index va))"
  have v: "valid_path [unat (pml4_index va)]" "valid_path [unat (pml4_index va), unat (pdpe_index va)]"
    "valid_path [unat (pml4_index va), unat (pdpe_index va), unat (pde_index va)]" by (simp_all add: valid_path_def)
  have t3: "IS_PRESENT_PAGE e4 \<Longrightarrow> is_table (VADDR (page_base e4)) (frame_of e4) \<and> walk ?E root [unat (pml4_index va)] = Some (frame_of e4)"
    using tbl [OF w0 _ e4_def] v by simp
  then have t2: "IS_PRESENT_PAGE e4 \<Longrightarrow> IS_PRESENT_PAGE e3 \<Longrightarrow> is_table (VADDR (page_base e3)) (frame_of e3) \<and>
      walk ?E root [unat (pml4_index va), unat (pdpe_index va)] = Some (frame_of e3)"
    using tbl [OF _ _ e3_def] v by fastforce
  then have t1: "IS_PRESENT_PAGE e4 \<Longrightarrow> IS_PRESENT_PAGE e3 \<Longrightarrow> IS_PRESENT_PAGE e2 \<Longrightarrow> is_table (VADDR (page_base e2)) (frame_of e2)"
    using tbl [OF _ _ e2_def] v by fastforce
  have r4: "entry_at (kmem st) (VADDR (of_nat (4096 * root))) (pml4_index va) = e4"
    using entry_at_tabs [OF root index_bounds(4)] by (simp only: e4_def)
  have r3: "IS_PRESENT_PAGE e4 \<Longrightarrow> entry_at (kmem st) (VADDR (page_base e4)) (pdpe_index va) = e3"
    using t3 entry_at_tabs index_bounds(3) unfolding e3_def by blast
  have r2: "IS_PRESENT_PAGE e4 \<Longrightarrow> IS_PRESENT_PAGE e3 \<Longrightarrow> entry_at (kmem st) (VADDR (page_base e3)) (pde_index va) = e2"
    using t2 entry_at_tabs index_bounds(2) unfolding e2_def by blast
  have r1: "IS_PRESENT_PAGE e4 \<Longrightarrow> IS_PRESENT_PAGE e3 \<Longrightarrow> IS_PRESENT_PAGE e2 \<Longrightarrow>
      entry_at (kmem st) (VADDR (page_base e2)) (pte_index va) = ?E (frame_of e2) (unat (pte_index va))"
    using t1 entry_at_tabs index_bounds(1) by blast
  have "walk ?E root (path_of va) = (if IS_PRESENT_PAGE e4 \<and> IS_PRESENT_PAGE e3 \<and> IS_PRESENT_PAGE e2 then Some (frame_of e2) else None)"
    by (simp add: path_of_def walk.simps e4_def e3_def e2_def)
  then show ?thesis
    using r4 r3 r2 r1
    by (cases "IS_PRESENT_PAGE e4"; cases "IS_PRESENT_PAGE e3"; cases "IS_PRESENT_PAGE e2")
      (simp_all add: walk_page_table_def Let_def)
qed

section \<open>Allocation beside the tables\<close>

lemma pt_step_alloc:
  assumes inv: "pt_inv st root lo hi n" and fl': "fl_inv st' (lo + k) hi n" and post: "alloc_post st st' lo k hi"
  shows "pt_step st st' root lo (lo + k) hi n" and "\<And>w. pmap st' root w = pmap st root w"
    and "\<And>g. lo \<le> g \<Longrightarrow> g < lo + k \<Longrightarrow> off_tree st' root g"
    and "\<And>g. lo \<le> g \<Longrightarrow> g < lo + k \<Longrightarrow> same_on (4096 * g) 4096 (kmem st') (\<lambda>_. 0)"
proof -
  let ?E = "tabs (kmem st)" and ?E' = "tabs (kmem st')" and ?T = "table_frames st lo hi"
  have fl: "fl_inv st lo hi n" and t: "tree ?E root ?T" using inv by (auto simp: pt_inv_def)
  have free: "free_list st' = free_list st" using post by (simp add: alloc_post_def)
  note keep = tabs_alloc [OF fl post]
  have w: "walk ?E' root q = walk ?E root q" if "valid_path q" for q
    using that
  proof (induction q rule: rev_induct)
    case (snoc j q)
    then have q: "valid_path q" "j < 512" by (auto simp: valid_path_snoc)
    show ?case
      using snoc.IH [OF q(1)] tree_in [OF t q(1)] keep(2) q(2) by (auto simp: walk_snoc split: option.split)
  qed (simp add: walk.simps)
  have off: "off_tree st' root g" if "g \<notin> ?T" for g
    using that w tree_in [OF t] by (auto simp: off_tree_def)
  have "?T \<subseteq> table_frames st' (lo + k) hi" using free by (auto simp: table_frames_def)
  then have "tree ?E' root (table_frames st' (lo + k) hi)"
    using t w unfolding tree_def by (metis subsetD)
  moreover have "same_on 0 (unat (free_list st)) (kmem st') (kmem st)"
    using post fl_invD(2) [OF fl] by (auto simp: same_on_def alloc_post_def)
  moreover have "walks_kept st st' root" using w by (simp add: walks_kept_def)
  ultimately show "pt_step st st' root lo (lo + k) hi n"
    using fl' free keep(1) w by (auto simp: pt_step_def pt_inv_def off_tree_def)
  show "\<And>v. pmap st' root v = pmap st root v"
    using w [OF valid_path_of(1)] keep(2) tree_in [OF t valid_path_of(1)] by (auto simp: pmap_def lookup_def split: option.split)
  show "off_tree st' root g" if "lo \<le> g" "g < lo + k" for g
    using off [of g] that by (simp add: table_frames_def)
  show "same_on (4096 * g) 4096 (kmem st') (\<lambda>_. 0)" if "lo \<le> g" "g < lo + k" for g
    using post that by (auto simp: same_on_def alloc_post_def)
qed

text \<open>A new, empty page as the root of an address map.\<close>

lemma new_root:
  assumes fl: "fl_inv st lo hi n" and fl': "fl_inv st' (Suc lo) hi n" and post: "alloc_post st st' lo 1 hi"
  shows "pt_inv st' lo (Suc lo) hi n" and "pmap st' lo w = None"
    and "valid_path p \<Longrightarrow> walk (tabs (kmem st')) lo p = (if p = [] then Some lo else None)"
proof -
  have zero: "tabs (kmem st') lo j = 0" if "j < 512" for j
    using tabs_alloc(3) [OF fl post] that by simp
  have w: "walk (tabs (kmem st')) lo p = (if p = [] then Some lo else None)" if "valid_path p" for p
    using that zero by (cases p) (auto simp: walk.simps valid_path_def)
  have "lo \<in> table_frames st' (Suc lo) hi"
    using fl_invD(2) [OF fl] post by (simp add: table_frames_def alloc_post_def)
  then have "tree (tabs (kmem st')) lo (table_frames st' (Suc lo) hi)"
    using w by (auto simp: tree_def split: if_splits)
  then show "pt_inv st' lo (Suc lo) hi n" using fl' by (simp add: pt_inv_def)
  show "pmap st' lo w = None"
    using w [OF valid_path_of(1) [of w]] by (simp add: pmap_def lookup_def path_of_def)
  show "valid_path p \<Longrightarrow> walk (tabs (kmem st')) lo p = (if p = [] then Some lo else None)" by (rule w)
qed

section \<open>region_alloc\<close>

text \<open>
  The pages \<open>gs\<close> back the virtual pages from \<open>v\<close>: they are mapped in order for user
  access, hold no table and are zero; every other virtual page is as before.
\<close>

definition backed :: "kst \<Rightarrow> kst \<Rightarrow> nat \<Rightarrow> nat \<Rightarrow> nat \<Rightarrow> nat \<Rightarrow> u64 \<Rightarrow> nat list \<Rightarrow> bool" where
  "backed st st' root lo lo' hi v gs \<longleftrightarrow>
     distinct gs \<and>
     (\<forall>g\<in>set gs. lo \<le> g \<and> g < lo' \<and> off_tree st' root g \<and> same_on (4096 * g) 4096 (kmem st') (\<lambda>_. 0)) \<and>
     (\<forall>w. pmap st' root w = (if pgno v \<le> pgno w \<and> pgno w < pgno v + length gs
        then Some (of_nat (4096 * gs ! (pgno w - pgno v)) OR RW_USER_FLAGS) else pmap st root w))"

lemma pgno_next:
  assumes "unat v + 4096 < 2 ^ 48"
  shows "pgno (v + 4096) = Suc (pgno v)" and "unat (v + 4096) = unat v + 4096"
proof -
  show s: "unat (v + 4096) = unat v + 4096"
    using assms by (subst unat_add_lem [THEN iffD1]) simp_all
  have "unat v div 4096 + 1 < 2 ^ 36" using assms by simp
  then show "pgno (v + 4096) = Suc (pgno v)" using assms by (simp add: pgno_def s)
qed

lemma one_table_user: "one_table_entry 1 (of_nat (4096 * g)) = of_nat (4096 * g) OR RW_USER_FLAGS"
  unfolding one_table_entry_def page_base_mult by simp

text \<open>One round of the loop.\<close>

lemma region_round:
  assumes inv: "pt_inv st root lo hi n" and room: "lo + 4 \<le> hi" and root: "is_table pml4 root"
  shows "\<exists>st1 st' lo'. kmalloc st 1 = Some (st1, VADDR (of_nat (4096 * lo))) \<and>
    init_map_virt_phys_addr st1 v (of_nat (4096 * lo)) 1 pml4 1 = Some st' \<and>
    pt_step st st' root lo lo' hi n \<and> lo < lo' \<and> lo' \<le> lo + 4 \<and> off_tree st' root lo \<and>
    same_on (4096 * lo) 4096 (kmem st') (\<lambda>_. 0) \<and>
    (\<forall>w. pmap st' root w = (if pgno w = pgno v then Some (of_nat (4096 * lo) OR RW_USER_FLAGS) else pmap st root w))"
proof -
  have fl: "fl_inv st lo hi n" using inv by (simp add: pt_inv_def)
  obtain st1 where st1: "kmalloc st 1 = Some (st1, VADDR (of_nat (4096 * lo)))" "fl_inv st1 (lo + 1) hi n" "alloc_post st st1 lo 1 hi"
    using kmalloc_src.al_ok [OF fl pages_for_1] room by auto
  note a = pt_step_alloc [OF inv st1(2,3)]
  have inv1: "pt_inv st1 root (lo + 1) hi n" using a(1) by (simp add: pt_step_def)
  obtain st' lo' where st': "init_map_virt_phys_addr st1 v (of_nat (4096 * lo)) 1 pml4 1 = Some st'" "lo' \<le> lo + 1 + 3"
    "pt_step st1 st' root (lo + 1) lo' hi n"
    "\<forall>w. pmap st' root w = (if pgno w = pgno v then Some (one_table_entry 1 (of_nat (4096 * lo))) else pmap st1 root w)"
    using init_map_page [OF inv1 _ root, where va = v and pa = "of_nat (4096 * lo)" and access = 1] room by auto
  have "lo \<in> table_frames st1 (lo + 1) hi"
    using fl_invD(2) [OF fl] st1(3) by (simp add: table_frames_def alloc_post_def)
  then have "off_tree st' root lo \<and> same_on (4096 * lo) 4096 (kmem st') (\<lambda>_. 0)"
    using st'(3) a(3,4) [of lo] by (auto simp: pt_step_def same_on_def)
  moreover have "lo < lo'" using st'(3) by (simp add: pt_step_def)
  moreover have "lo' \<le> lo + 4" using st'(2) by simp
  ultimately show ?thesis
    using st1(1) st'(1,4) a(2) pt_step_trans [OF a(1) st'(3)] one_table_user [of lo] by fastforce
qed

lemma region_loop_ok:
  "\<lbrakk> pt_inv st root lo hi n; is_table pml4 root; unat v + 4096 * c = unat e; unat e < 2 ^ 48; lo + 4 * c \<le> hi \<rbrakk> \<Longrightarrow>
    \<exists>st' lo' gs. region_loop st pml4 v e = Some st' \<and> length gs = c \<and> lo' \<le> lo + 4 * c \<and> (0 < c \<longrightarrow> hd gs = lo) \<and>
      pt_step st st' root lo lo' hi n \<and> backed st st' root lo lo' hi v gs"
proof (induction c arbitrary: st lo v)
  case 0
  then have "\<not> v < e" by (simp add: word_less_nat_alt)
  then show ?case
    using pt_step_refl [OF 0(1)] by (intro exI [of _ st] exI [of _ lo] exI [of _ "[]"]) (auto simp: region_loop.simps backed_def)
next
  case (Suc c)
  have room: "lo + 4 \<le> hi" using Suc.prems(5) by simp
  have v: "unat v + 4096 < 2 ^ 48" "v < e" using Suc.prems(3,4) by (auto simp: word_less_nat_alt)
  obtain st1 st2 lo2 where r: "kmalloc st 1 = Some (st1, VADDR (of_nat (4096 * lo)))"
    "init_map_virt_phys_addr st1 v (of_nat (4096 * lo)) 1 pml4 1 = Some st2"
    "pt_step st st2 root lo lo2 hi n" "lo < lo2" "lo2 \<le> lo + 4" "off_tree st2 root lo"
    "same_on (4096 * lo) 4096 (kmem st2) (\<lambda>_. 0)"
    "\<forall>w. pmap st2 root w = (if pgno w = pgno v then Some (of_nat (4096 * lo) OR RW_USER_FLAGS) else pmap st root w)"
    using region_round [OF Suc.prems(1) room Suc.prems(2), of v] by blast
  have inv2: "pt_inv st2 root lo2 hi n" using r(3) by (simp add: pt_step_def)
  have sum: "unat (v + 4096) + 4096 * c = unat e" "lo2 + 4 * c \<le> hi"
    using pgno_next(2) [OF v(1)] Suc.prems(3,5) r(5) by simp_all
  obtain st' lo' gs where st': "region_loop st2 pml4 (v + 4096) e = Some st'" "length gs = c" "lo' \<le> lo2 + 4 * c"
    "pt_step st2 st' root lo2 lo' hi n" "backed st2 st' root lo2 lo' hi (v + 4096) gs"
    using Suc.IH [OF inv2 Suc.prems(2) sum(1) Suc.prems(4) sum(2)] by blast
  have "region_loop st pml4 v e = Some st'"
    using r(1,2) st'(1) v(2) by (subst region_loop.simps) (simp del: of_nat_mult)
  moreover have "lo' \<le> lo + 4 * Suc c" using st'(3) r(5) by simp
  moreover have "backed st st' root lo lo' hi v (lo # gs)"
  proof -
    have "lo \<in> table_frames st2 lo2 hi"
      using fl_invD(2) [of st lo hi n] Suc.prems(1) r(3,4) by (simp add: table_frames_def pt_step_def pt_inv_def)
    then have "off_tree st' root lo \<and> same_on (4096 * lo) 4096 (kmem st') (\<lambda>_. 0)"
      using st'(4) r(6,7) by (auto simp: pt_step_def same_on_def)
    moreover have "lo2 \<le> lo'" using st'(4) by (simp add: pt_step_def)
    moreover have "pmap st' root w = (if pgno v \<le> pgno w \<and> pgno w < pgno v + length (lo # gs)
        then Some (of_nat (4096 * (lo # gs) ! (pgno w - pgno v)) OR RW_USER_FLAGS) else pmap st root w)" for w
      using st'(5) r(8) pgno_next(1) [OF v(1)] by (cases "pgno w = pgno v") (auto simp: backed_def nth_Cons')
    ultimately show ?thesis
      using st'(5) r(4) by (fastforce simp: backed_def)
  qed
  ultimately show ?case
    using st'(2) pt_step_trans [OF r(3) st'(4)] by (intro exI [of _ st'] exI [of _ lo'] exI [of _ "lo # gs"]) simp
qed

section \<open>Properties of the page tables\<close>

text \<open>The machine of the allocator's examples with one more page as an empty root.\<close>

definition paged_st :: kst where
  "paged_st = fst (the (kmalloc_init boot_st 1))"

lemma paged_inv: "pt_inv paged_st 2 3 170 171" "is_table (VADDR (of_nat (4096 * 2))) 2" "pmap paged_st 2 w = None"
proof -
  obtain st' where st': "kmalloc_init boot_st 1 = Some (st', VADDR (of_nat (4096 * 2)))" "fl_inv st' (2 + 1) 170 171" "alloc_post boot_st st' 2 1 170"
    using kmalloc_init_src.al_ok [OF boot_inv pages_for_1] by auto
  then have eq: "paged_st = st'" by (simp add: paged_st_def)
  note root = new_root [OF boot_inv st'(2) [folded Suc_eq_plus1] st'(3)]
  show "pt_inv paged_st 2 3 170 171" using root(1) by (simp add: eq eval_nat_numeral)
  show "pmap paged_st 2 w = None" using root(2) by (simp add: eq)
  show "is_table (VADDR (of_nat (4096 * 2))) 2" by (rule table_pointers [OF boot_inv]) simp
qed

text \<open>
  C11. Mapping one page is an update of the address map at one virtual page: every other
  virtual page keeps its entry, the invariant of the tables is kept, and no page that holds no
  table of this root is written.
\<close>

theorem init_map_updates_map:
  assumes "pt_inv st root lo hi n" and "lo + 3 \<le> hi"
  shows "\<exists>st' lo'. init_map_virt_phys_addr st va pa 1 (VADDR (of_nat (4096 * root))) 1 = Some st' \<and>
    pt_inv st' root lo' hi n \<and> lo' \<le> lo + 3 \<and>
    (\<forall>w. pmap st' root w = (if pgno w = pgno va then Some (page_base pa OR RW_USER_FLAGS) else pmap st root w)) \<and>
    same_on 0 (unat (free_list st)) (kmem st') (kmem st) \<and>
    (\<forall>f. f \<in> table_frames st lo hi \<and> off_tree st root f \<longrightarrow> same_on (4096 * f) 4096 (kmem st') (kmem st))"
proof -
  have "walk (tabs (kmem st)) root [] = Some root" by (simp add: walk.simps)
  then have "is_table (VADDR (of_nat (4096 * root))) root"
    by (intro reached_table [OF assms(1), of "[]"]) (simp_all add: valid_path_def)
  from init_map_page [OF assms this, of va pa 1] show ?thesis
    by (auto simp: pt_step_def one_table_entry_def)
qed

theorem init_map_updates_map_witness:
  "\<exists>st'. init_map_virt_phys_addr paged_st 0x400000 0x5123 1 (VADDR (of_nat (4096 * 2))) 1 = Some st' \<and>
    pmap st' 2 0x400abc = Some (page_base 0x5123 OR RW_USER_FLAGS) \<and> pmap st' 2 0x401000 = None"
proof -
  obtain st' where st': "init_map_virt_phys_addr paged_st 0x400000 0x5123 1 (VADDR (of_nat (4096 * 2))) 1 = Some st'"
    "\<forall>w. pmap st' 2 w = (if pgno w = pgno 0x400000 then Some (page_base 0x5123 OR RW_USER_FLAGS) else pmap paged_st 2 w)"
    using init_map_updates_map [OF paged_inv(1), of "0x400000" "0x5123"] by auto
  have "pgno 0x400abc = pgno 0x400000" "pgno 0x401000 \<noteq> pgno 0x400000" by (simp_all add: pgno_def)
  then show ?thesis using st' paged_inv(3) by (intro exI [of _ st']) (simp del: of_nat_mult)
qed

text \<open>
  C33. The walk of \<^verbatim>\<open>walk_page_table\<close> agrees with the address map: where a page is
  mapped it returns the base of its frame. Where only the last entry is missing it returns the
  base of an empty entry, 0, and where a table is missing it returns -1.
\<close>

theorem walk_page_table_spec:
  assumes "pt_inv st root lo hi n"
  shows "walk_page_table (kmem st) (of_nat (4096 * root)) va =
    (case pmap st root va of
       Some e \<Rightarrow> page_base e
     | None \<Rightarrow> (case walk (tabs (kmem st)) root (path_of va) of
                 None \<Rightarrow> - 1 | Some f \<Rightarrow> page_base (tabs (kmem st) f (unat (pte_index va)))))"
  using walk_page_table_eq [OF assms, of va]
  by (auto simp: pmap_def lookup_def present_entry_def split: option.split)

theorem walk_page_table_spec_witness: "walk_page_table (kmem paged_st) (of_nat (4096 * 2)) 0x400000 = - 1"
proof -
  have "walk (tabs (kmem paged_st)) 2 (path_of 0x400000) = None"
  proof -
    obtain st' where "kmalloc_init boot_st 1 = Some (st', VADDR (of_nat (4096 * 2)))" "fl_inv st' (2 + 1) 170 171" "alloc_post boot_st st' 2 1 170"
      using kmalloc_init_src.al_ok [OF boot_inv pages_for_1] by auto
    then show ?thesis
      using new_root(3) [OF boot_inv, of st' "path_of 0x400000"] valid_path_of(1) [of "0x400000"]
      by (simp add: paged_st_def path_of_def)
  qed
  then show ?thesis
    using walk_page_table_spec [OF paged_inv(1), of "0x400000"] paged_inv(3) by (simp del: of_nat_mult)
qed

definition region_pages :: "u64 \<Rightarrow> u64 \<Rightarrow> nat" where
  "region_pages va sz = (unat va + unat sz + 4095) div 4096 - unat va div 4096"

lemma region_bounds:
  assumes "unat va + unat sz + 4096 < 2 ^ 48"
  shows "unat (get_starting_page va) + 4096 * region_pages va sz = unat (get_ending_page (va + sz))"
    and "unat (get_ending_page (va + sz)) < 2 ^ 48"
    and "pgno (get_starting_page va) = unat va div 4096"
proof -
  have sum: "unat (va + sz) = unat va + unat sz"
    using assms by (intro unat_add_lem [THEN iffD1]) simp
  then have e: "unat (get_ending_page (va + sz)) = (unat va + unat sz + 4095) div 4096 * 4096"
    using unat_get_ending_page [of "va + sz"] assms by simp
  have "unat va div 4096 \<le> (unat va + unat sz + 4095) div 4096" by (rule div_le_mono) simp
  then show "unat (get_starting_page va) + 4096 * region_pages va sz = unat (get_ending_page (va + sz))"
    unfolding e unat_get_starting_page region_pages_def by (simp add: diff_mult_distrib2)
  have "(unat va + unat sz + 4095) div 4096 * 4096 \<le> unat va + unat sz + 4095" by (rule div_times_less_eq_dividend)
  then show "unat (get_ending_page (va + sz)) < 2 ^ 48" unfolding e using assms by linarith
  have "unat va div 4096 < 2 ^ 36" using assms by simp
  then show "pgno (get_starting_page va) = unat va div 4096"
    by (simp add: pgno_def unat_get_starting_page)
qed

lemma region_alloc_ok:
  assumes inv: "pt_inv st root lo hi n" and fit: "unat va + unat sz + 4096 < 2 ^ 48"
    and room: "lo + 4 * region_pages va sz \<le> hi"
  shows "\<exists>st' lo' gs. region_alloc st (VADDR (of_nat (4096 * root))) va sz = Some st' \<and> pt_step st st' root lo lo' hi n \<and>
    lo' \<le> lo + 4 * region_pages va sz \<and> (0 < region_pages va sz \<longrightarrow> hd gs = lo) \<and>
    length gs = region_pages va sz \<and> backed st st' root lo lo' hi (get_starting_page va) gs"
proof -
  have "walk (tabs (kmem st)) root [] = Some root" by (simp add: walk.simps)
  then have tbl: "is_table (VADDR (of_nat (4096 * root))) root"
    by (intro reached_table [OF inv, of "[]"]) (simp_all add: valid_path_def)
  note b = region_bounds [OF fit]
  show ?thesis using region_loop_ok [OF inv tbl b(1,2) room] by (auto simp: region_alloc_def)
qed

lemma region_covers:
  assumes fit: "unat va + unat sz + 4096 < 2 ^ 48" and w: "unat va \<le> unat w" "unat w < unat va + unat sz"
  shows "pgno (get_starting_page va) \<le> pgno w" "pgno w < pgno (get_starting_page va) + region_pages va sz"
proof -
  note b = region_bounds(3) [OF fit]
  have "unat w div 4096 < 2 ^ 36" using w fit by simp
  then have p: "pgno w = unat w div 4096" by (simp add: pgno_def)
  have "unat w div 4096 < (unat va + unat sz + 4095) div 4096"
    using div_le_mono [of "unat w + 4096" "unat va + unat sz + 4095" 4096] w by simp
  then show "pgno w < pgno (get_starting_page va) + region_pages va sz" unfolding p b region_pages_def by simp
  show "pgno (get_starting_page va) \<le> pgno w" unfolding p b by (rule div_le_mono [OF w(1)])
qed

text \<open>
  C12. \<^verbatim>\<open>region_alloc\<close> returns and backs every address of the region: the pages that
  cover it are mapped, in order, to distinct new pages that are zero and hold no table; every
  other virtual page keeps its entry.
\<close>

theorem region_alloc_backed:
  assumes inv: "pt_inv st root lo hi n" and fit: "unat va + unat sz + 4096 < 2 ^ 48"
    and room: "lo + 4 * region_pages va sz \<le> hi"
  shows "\<exists>st' lo' gs. region_alloc st (VADDR (of_nat (4096 * root))) va sz = Some st' \<and> pt_inv st' root lo' hi n \<and>
    length gs = region_pages va sz \<and> backed st st' root lo lo' hi (get_starting_page va) gs \<and>
    (\<forall>w. unat va \<le> unat w \<and> unat w < unat va + unat sz \<longrightarrow> pmap st' root w \<noteq> None)"
proof -
  obtain st' lo' gs where r: "region_alloc st (VADDR (of_nat (4096 * root))) va sz = Some st'" "pt_step st st' root lo lo' hi n"
    "length gs = region_pages va sz" "backed st st' root lo lo' hi (get_starting_page va) gs"
    using region_alloc_ok [OF assms] by blast
  have "pmap st' root w \<noteq> None" if w: "unat va \<le> unat w" "unat w < unat va + unat sz" for w
    using r(3,4) region_covers [OF fit w] by (simp add: backed_def)
  then show ?thesis using r by (auto simp: pt_step_def)
qed

theorem region_alloc_backed_witness:
  "\<exists>st'. region_alloc paged_st (VADDR (of_nat (4096 * 2))) 0x400100 0x1000 = Some st' \<and>
    pmap st' 2 0x400100 \<noteq> None \<and> pmap st' 2 0x4010ff \<noteq> None"
proof -
  have two: "region_pages 0x400100 0x1000 = 2" by (simp add: region_pages_def)
  obtain st' where r: "region_alloc paged_st (VADDR (of_nat (4096 * 2))) 0x400100 0x1000 = Some st'"
    "\<forall>w. unat (0x400100 :: u64) \<le> unat w \<and> unat w < unat (0x400100 :: u64) + unat (0x1000 :: u64) \<longrightarrow> pmap st' 2 w \<noteq> None"
    using region_alloc_backed [OF paged_inv(1), of "0x400100" "0x1000"] two by auto
  show ?thesis
    using r(1) r(2) [rule_format, of "0x400100"] r(2) [rule_format, of "0x4010ff"]
    by (intro exI [of _ st']) simp
qed

text \<open>
  \<^verbatim>\<open>kmalloc_stack\<close> returns an address in its own window whose first page is mapped to
  the first page of the new block. However many pages are asked for, only that one is mapped.
\<close>

theorem kmalloc_stack_one_page:
  assumes inv: "pt_inv st root lo hi n" and sz: "pages_for sz = int k" and k: "0 < k" "lo + k + 3 \<le> hi"
  shows "\<exists>st' lo'. kmalloc_stack st sz (VADDR (of_nat (4096 * root))) = Some (st', bumpPtr + of_nat (4096 * lo)) \<and>
    pt_inv st' root lo' hi n \<and>
    (\<forall>w. pmap st' root w = (if pgno w = pgno (bumpPtr + of_nat (4096 * lo))
       then Some (of_nat (4096 * lo) OR RW_USER_FLAGS) else pmap st root w))"
proof -
  have "walk (tabs (kmem st)) root [] = Some root" by (simp add: walk.simps)
  then have tbl: "is_table (VADDR (of_nat (4096 * root))) root"
    by (intro reached_table [OF inv, of "[]"]) (simp_all add: valid_path_def)
  have fl: "fl_inv st lo hi n" using inv by (simp add: pt_inv_def)
  obtain st1 where st1: "alloc_block VADDR st sz = Some (st1, Some (of_nat (4096 * lo)))" "fl_inv st1 (lo + k) hi n" "alloc_post st st1 lo k hi"
    using vaddr_map.alloc_block_ok [OF fl sz k(1)] k(2) by auto
  note a = pt_step_alloc [OF inv st1(2,3)]
  have inv1: "pt_inv st1 root (lo + k) hi n" using a(1) by (simp add: pt_step_def)
  from init_map_page [OF inv1 k(2) tbl, of "bumpPtr + of_nat (4096 * lo)" "of_nat (4096 * lo)" 1] show ?thesis
    using st1(1) a(2) by (auto simp: kmalloc_stack_def one_table_user pt_step_def simp del: of_nat_mult)
qed

theorem kmalloc_stack_one_page_witness:
  "\<exists>st'. kmalloc_stack paged_st 8192 (VADDR (of_nat (4096 * 2))) = Some (st', bumpPtr + of_nat (4096 * 3)) \<and>
    pmap st' 2 (bumpPtr + of_nat (4096 * 3)) \<noteq> None \<and> pmap st' 2 (bumpPtr + of_nat (4096 * 4)) = None"
proof -
  have "pages_for 8192 = int 2" by (simp add: pages_for_def to_int_def)
  from kmalloc_stack_one_page [OF paged_inv(1) this] obtain st' where
    st': "kmalloc_stack paged_st 8192 (VADDR (of_nat (4096 * 2))) = Some (st', bumpPtr + of_nat (4096 * 3))"
    "\<forall>w. pmap st' 2 w = (if pgno w = pgno (bumpPtr + of_nat (4096 * 3))
       then Some (of_nat (4096 * 3) OR RW_USER_FLAGS) else pmap paged_st 2 w)" by auto
  moreover have "pgno (bumpPtr + of_nat (4096 * 4)) \<noteq> pgno (bumpPtr + of_nat (4096 * 3))"
    by (simp add: pgno_def bumpPtr_def)
  ultimately show ?thesis using paged_inv(3) by (intro exI [of _ st']) (simp del: of_nat_mult)
qed

text \<open>
  \<^verbatim>\<open>handle_page_fault\<close> never finds a segmentation fault: what it tests for the
  writable bit is not the page-table entry but a computed address, in which the bit is clear.
\<close>

theorem handle_page_fault_silent: "snd (handle_page_fault addr err_code) = 0"
proof -
  have "\<not> bit (fetch_pte_entry addr) 1"
    by (simp add: fetch_pte_entry_def Let_def bit_or_iff bit_push_bit_iff bit_numeral_rec)
  moreover have "fetch_pte_entry addr AND 2 = push_bit 1 (of_bool (bit (fetch_pte_entry addr) 1))"
    by (auto simp: word_bits_eq_iff bit_and_iff bit_push_bit_iff bit_of_bool_iff bit_simps)
  ultimately have "\<not> IS_PAGE_WRITABLE (fetch_pte_entry addr)" by (simp add: IS_PAGE_WRITABLE_def)
  then show ?thesis by (simp add: handle_page_fault_def Let_def)
qed

end
