(* ===== verification/BootMap.thy ===== *)
theory BootMap
  imports Paging
begin

text \<open>
  The branch of \<^verbatim>\<open>init_map_virt_phys_addr\<close> that fills several tables, and
  \<^verbatim>\<open>init_paging\<close>, which uses it for the kernel's maps. The result is stated by
  virtual page numbers: a range of pages is mapped to consecutive frames, everything else is
  as before. The last table is written with too many entries; the lemmas say where they go.
\<close>

section \<open>Page numbers of paths\<close>

definition tnum :: "nat list \<Rightarrow> nat" where
  "tnum q = q ! 2 + 512 * (q ! 1 + 512 * (q ! 0))"

definition pnum :: "nat list \<Rightarrow> nat \<Rightarrow> nat" where
  "pnum q j = j + 512 * tnum q"

lemma pgno_pnum: "pgno va = pnum (path_of va) (unat (pte_index va))"
  by (simp add: pgno_path pnum_def tnum_def path_of_def)

lemma length3: "length q = 3 \<longleftrightarrow> (\<exists>a b c. q = [a, b, c])"
  by (auto simp: numeral_3_eq_3 length_Suc_conv)

lemma tnum_inj:
  assumes "valid_path p" "length p = 3" "valid_path q" "length q = 3" and "tnum p = tnum q"
  shows "p = q"
proof -
  obtain a b c a' b' c' where pq: "p = [a, b, c]" "q = [a', b', c']" using assms(2,4) by (auto simp: length3)
  then have *: "a < 512" "b < 512" "c < 512" "a' < 512" "b' < 512" "c' < 512"
    "c + 512 * (b + 512 * a) = c' + 512 * (b' + 512 * a')"
    using assms by (auto simp: valid_path_def tnum_def numeral_2_eq_2)
  then have "c = c'" "b + 512 * a = b' + 512 * a'"
    by (metis digit_split(1), metis digit_split(2))
  with * show ?thesis unfolding pq by (metis digit_split)
qed

definition range_mapped :: "kst \<Rightarrow> kst \<Rightarrow> nat \<Rightarrow> nat \<Rightarrow> nat \<Rightarrow> (nat \<Rightarrow> u64) \<Rightarrow> bool" where
  "range_mapped st st' root B c ent \<longleftrightarrow> (\<forall>q j. valid_path q \<and> length q = 3 \<and> j < 512 \<longrightarrow>
     lookup (tabs (kmem st')) root q j =
       (if B \<le> pnum q j \<and> pnum q j < B + c then Some (ent (pnum q j - B)) else lookup (tabs (kmem st)) root q j))"

lemma range_mapped_pmap:
  "range_mapped st st' root B c ent \<Longrightarrow>
    pmap st' root w = (if B \<le> pgno w \<and> pgno w < B + c then Some (ent (pgno w - B)) else pmap st root w)"
  by (simp add: range_mapped_def pmap_def pgno_pnum)

lemma range_mapped_trans:
  assumes "range_mapped st st1 root B c ent" and "range_mapped st1 st2 root (B + c) c' ent'"
    and "\<And>k. k < c' \<Longrightarrow> ent' k = ent (c + k)"
  shows "range_mapped st st2 root B (c + c') ent"
  using assms unfolding range_mapped_def by (auto simp: assms(3) not_less split: if_splits)

lemma range_mapped_zero: "range_mapped st st root B 0 ent"
  by (auto simp: range_mapped_def)

lemma mapped_range:
  assumes "mapped st st' root va c ent" and "unat (pte_index va) + c \<le> 512"
  shows "range_mapped st st' root (pgno va) c ent"
  unfolding range_mapped_def
proof (intro allI impI)
  fix q :: "nat list" and j :: nat assume q: "valid_path q \<and> length q = 3 \<and> j < 512"
  let ?i = "unat (pte_index va)"
  have iff: "pgno va \<le> pnum q j \<and> pnum q j < pgno va + c \<longleftrightarrow> q = path_of va \<and> ?i \<le> j \<and> j < ?i + c"
  proof (cases "tnum q = tnum (path_of va)")
    case True
    then have "q = path_of va" using q tnum_inj valid_path_of by blast
    then show ?thesis by (auto simp: pgno_pnum pnum_def)
  next
    case False
    then have "q \<noteq> path_of va" by auto
    moreover have "\<not> (pgno va \<le> pnum q j \<and> pnum q j < pgno va + c)"
      using False q assms(2) index_bounds(1) [of va] by (cases "tnum q < tnum (path_of va)") (auto simp: pgno_pnum pnum_def)
    ultimately show ?thesis by simp
  qed
  have "pnum q j - pgno va = j - ?i" if "q = path_of va" using that by (simp add: pgno_pnum pnum_def)
  then show "lookup (tabs (kmem st')) root q j =
       (if pgno va \<le> pnum q j \<and> pnum q j < pgno va + c then Some (ent (pnum q j - pgno va)) else lookup (tabs (kmem st)) root q j)"
    using assms(1) q unfolding iff mapped_def by auto
qed

section \<open>Writing a run of entries\<close>

lemma fill_entries_snoc:
  "fill_entries m t mk pa i (Suc n) =
    (let (m', pa') = fill_entries m t mk pa i n in (set_entry m' t (i + of_nat n) (mk pa'), pa' + 4096))"
proof (induction n arbitrary: m pa i)
  case (Suc n)
  show ?case
    by (subst fill_entries.simps(2), subst Suc.IH) (simp add: Let_def ac_simps split: prod.split)
qed simp

lemma fill_entries_run:
  assumes "\<And>k. k < n \<Longrightarrow> loc (t + 8 * of_nat k) = P + 8 * k"
  shows "fill_entries m t mk pa 0 n = (write_run st64 8 (\<lambda>k. mk (pa + 4096 * of_nat k)) m P n, pa + 4096 * of_nat n)"
  using assms
proof (induction n)
  case (Suc n)
  then show ?case
    by (subst fill_entries_snoc) (simp add: Let_def set_entry_def algebra_simps)
qed simp

text \<open>
  A new last-level table at entry \<open>off\<close> of \<open>d\<close>, written with \<open>cnt\<close> entries; those
  beyond the 512 of the table go to the free pages behind it.
\<close>

definition new_table :: "kst \<Rightarrow> u64 \<Rightarrow> u64 \<Rightarrow> int \<Rightarrow> u64 \<Rightarrow> nat \<Rightarrow> (kst \<times> u64) option" where
  "new_table st pde_table off access phys_addr cnt =
     do { (st, pte_table) \<leftarrow> alloc_pte st pde_table (to_int off) access;
          let (m, phys_addr) = fill_entries (kmem st) pte_table (more_tables_entry access) phys_addr 0 cnt;
          Some (st\<lparr>kmem := m\<rparr>, phys_addr) }"

lemma present_more_tables [simp]: "present_entry (more_tables_entry access pa) = Some (more_tables_entry access pa)"
proof -
  have "IS_PRESENT_PAGE (more_tables_entry access pa)"
    unfolding more_tables_entry_def using IS_PRESENT_PAGE_or
    by (simp add: RW_USER_FLAGS_def RW_KERNEL_FLAGS_def bit_numeral_rec)
  then show ?thesis by (simp add: present_entry_def)
qed

lemma present_entry_0 [simp]: "present_entry 0 = None"
  by (simp add: present_entry_def)

lemma new_table_ok:
  assumes inv: "pt_inv st root lo hi n" and room: "Suc lo \<le> hi" and spill: "low (4096 * lo + 8 * cnt)"
    and d: "walk (tabs (kmem st)) root p = Some d" "length p = 2" "valid_path (p @ [unat off])" "is_table pde d"
    and absent: "walk (tabs (kmem st)) root (p @ [unat off]) = None"
  shows "\<exists>st'. new_table st pde off access pa cnt = Some (st', pa + 4096 * of_nat cnt) \<and>
    pt_step st st' root lo (Suc lo) hi n \<and>
    range_mapped st st' root (512 * tnum (p @ [unat off])) (min 512 cnt) (\<lambda>k. more_tables_entry access (pa + 4096 * of_nat k)) \<and>
    (\<forall>q. valid_path q \<and> q \<noteq> p @ [unat off] \<longrightarrow> walk (tabs (kmem st')) root q = walk (tabs (kmem st)) root q)"
proof -
  let ?p = "p @ [unat off]" and ?t = "VADDR (of_nat (4096 * lo))" and ?ent = "\<lambda>k. more_tables_entry access (pa + 4096 * of_nat k)"
  have "\<not> IS_PRESENT_PAGE (tabs (kmem st) d (unat off))"
    using absent d(1) by (auto simp: walk_snoc split: if_splits)
  from alloc_pte_link [OF inv room d(1,3,4) this, of access] obtain st1 where
    st1: "alloc_pte st pde (to_int off) access = Some (st1, ?t)" "pt_step st st1 root lo (Suc lo) hi n" "same_map st st1 root"
      "walk (tabs (kmem st1)) root ?p = Some lo" "\<forall>j<512. tabs (kmem st1) lo j = 0"
      "\<forall>q. valid_path q \<and> q \<noteq> ?p \<longrightarrow> walk (tabs (kmem st1)) root q = walk (tabs (kmem st)) root q"
    by blast
  have inv1: "pt_inv st1 root (Suc lo) hi n" using st1(2) by (simp add: pt_step_def)
  define m' where "m' = write_run st64 8 ?ent (kmem st1) (4096 * lo) cnt"
  have "loc (?t + 8 * of_nat k) = 4096 * lo + 8 * k" if "k < cnt" for k
  proof -
    have "low (4096 * lo + 8 * k)" using spill that by (auto simp: low_def)
    moreover have "?t + 8 * of_nat k = VADDR (of_nat (4096 * lo + 8 * k))" by (simp add: VADDR_def)
    ultimately show ?thesis by (simp only: loc_VADDR_of_nat)
  qed
  then have run: "new_table st pde off access pa cnt = Some (st1\<lparr>kmem := m'\<rparr>, pa + 4096 * of_nat cnt)"
    using st1(1) fill_entries_run [of cnt ?t] by (simp add: new_table_def m'_def)
  have frame: "\<forall>a. (a < 4096 * lo \<or> 4096 * Suc lo \<le> a) \<and> a < 4096 * Suc lo \<longrightarrow> m' a = kmem st1 a"
    by (auto simp: m'_def cell64.write_run_frame)
  have ent: "tabs m' lo j = (if j < cnt then ?ent j else 0)" if "j < 512" for j
    using that st1(5) by (auto simp: tabs_def m'_def cell64.write_run_ld cell64.write_run_ld_other)
  have len: "length ?p = 3" using d(2) by simp
  note leaf = pt_step_leaf [OF inv1 d(3) len st1(4) frame]
  have "range_mapped st (st1\<lparr>kmem := m'\<rparr>) root (512 * tnum ?p) (min 512 cnt) ?ent"
    unfolding range_mapped_def
  proof (intro allI impI)
    fix q :: "nat list" and j :: nat assume q: "valid_path q \<and> length q = 3 \<and> j < 512"
    have iff: "512 * tnum ?p \<le> pnum q j \<and> pnum q j < 512 * tnum ?p + min 512 cnt \<longleftrightarrow> q = ?p \<and> j < cnt"
    proof (cases "tnum q = tnum ?p")
      case True
      then have "q = ?p" using q tnum_inj d(3) len by blast
      then show ?thesis using q by (auto simp: pnum_def)
    next
      case False
      then have "q \<noteq> ?p" by auto
      then show ?thesis using False q by (cases "tnum q < tnum ?p") (auto simp: pnum_def)
    qed
    have "lookup (tabs (kmem st)) root ?p j = None" using absent by (simp add: lookup_def)
    then show "lookup (tabs (kmem (st1\<lparr>kmem := m'\<rparr>))) root q j =
       (if 512 * tnum ?p \<le> pnum q j \<and> pnum q j < 512 * tnum ?p + min 512 cnt then Some (?ent (pnum q j - 512 * tnum ?p))
        else lookup (tabs (kmem st)) root q j)"
      using leaf(2) [of q j] q ent [of j] st1(3) unfolding iff
      by (auto simp: same_map_def pnum_def)
  qed
  then show ?thesis
    using run pt_step_trans [OF st1(2) leaf(1)] leaf(3) st1(6) by (intro exI [of _ "st1\<lparr>kmem := m'\<rparr>"]) simp
qed

section \<open>The loop over full tables\<close>

lemma fill_tables_Suc:
  "fill_tables st pde off access pa j (Suc n) =
    do { (st, pa) \<leftarrow> new_table st pde (off + j) access pa 512; fill_tables st pde off access pa (j + 1) n }"
  by (simp add: new_table_def bind_assoc split: prod.split option.split Option.bind_split)

lemma tnum_snoc: "length p = 2 \<Longrightarrow> tnum (p @ [i]) = i + 512 * (p ! 1 + 512 * p ! 0)"
  by (simp add: tnum_def nth_append)

text \<open>Entries \<open>i\<close> to \<open>i + n\<close> of the table at \<open>p\<close> are unused.\<close>

definition unused :: "kst \<Rightarrow> nat \<Rightarrow> nat list \<Rightarrow> nat \<Rightarrow> nat \<Rightarrow> bool" where
  "unused st root p i n \<longleftrightarrow> (\<forall>k. i \<le> k \<and> k < i + n \<longrightarrow> walk (tabs (kmem st)) root (p @ [k]) = None)"

lemma fill_tables_ok:
  "\<lbrakk> pt_inv st root lo hi N; walk (tabs (kmem st)) root p = Some d; length p = 2; valid_path p; is_table pde d;
     unat off + unat j + n < 512; lo + n \<le> hi; unused st root p (unat off + unat j) (Suc n) \<rbrakk> \<Longrightarrow>
    \<exists>st'. fill_tables st pde off access pa j n = Some (st', pa + 4096 * of_nat (512 * n), j + of_nat n) \<and>
      pt_step st st' root lo (lo + n) hi N \<and>
      range_mapped st st' root (512 * tnum (p @ [unat off + unat j])) (512 * n) (\<lambda>k. more_tables_entry access (pa + 4096 * of_nat k)) \<and>
      walk (tabs (kmem st')) root p = Some d \<and> unused st' root p (unat off + unat j + n) 1 \<and>
      (\<forall>q. valid_path q \<and> take 2 q \<noteq> p \<longrightarrow> walk (tabs (kmem st')) root q = walk (tabs (kmem st)) root q)"
proof (induction n arbitrary: st lo j pa)
  case 0
  then show ?case by (simp add: pt_step_refl range_mapped_zero unused_def)
next
  case (Suc n)
  let ?i = "unat off + unat j" and ?ent = "\<lambda>k. more_tables_entry access (pa + 4096 * of_nat k)"
  have "unat off + unat j < 2 ^ LENGTH(64)" "unat j + unat (1 :: u64) < 2 ^ LENGTH(64)"
    using Suc.prems(6) by simp_all
  then have oj: "unat (off + j) = ?i" "unat (j + 1) = unat j + 1"
    unfolding unat_add_lem by simp_all
  have low: "low (4096 * lo + 8 * 512)"
    using table_low [of st lo hi N lo] Suc.prems(1,7) by (simp add: pt_inv_def add.commute)
  have v: "valid_path (p @ [unat (off + j)])" using Suc.prems(3,4,6) oj by (simp add: valid_path_snoc)
  have "walk (tabs (kmem st)) root (p @ [unat (off + j)]) = None" using Suc.prems(8) oj by (simp add: unused_def)
  from new_table_ok [OF Suc.prems(1) _ low Suc.prems(2,3) v Suc.prems(5) this, of access pa] Suc.prems(7) obtain st1 where
    st1: "new_table st pde (off + j) access pa 512 = Some (st1, pa + 4096 * of_nat 512)"
      "pt_step st st1 root lo (Suc lo) hi N" "range_mapped st st1 root (512 * tnum (p @ [?i])) 512 ?ent"
      "\<forall>q. valid_path q \<and> q \<noteq> p @ [?i] \<longrightarrow> walk (tabs (kmem st1)) root q = walk (tabs (kmem st)) root q"
    unfolding oj by auto
  have inv1: "pt_inv st1 root (Suc lo) hi N" using st1(2) by (simp add: pt_step_def)
  have w1: "walk (tabs (kmem st1)) root p = Some d" using st1(4) Suc.prems(2-4) by simp
  have un1: "unused st1 root p (unat off + unat (j + 1)) (Suc n)"
    using st1(4) Suc.prems(3,4,6,8) by (auto simp: unused_def oj valid_path_snoc)
  obtain st' where st': "fill_tables st1 pde off access (pa + 4096 * of_nat 512) (j + 1) n =
        Some (st', pa + 4096 * of_nat 512 + 4096 * of_nat (512 * n), j + 1 + of_nat n)"
    "pt_step st1 st' root (Suc lo) (Suc lo + n) hi N"
    "range_mapped st1 st' root (512 * tnum (p @ [unat off + unat (j + 1)])) (512 * n)
       (\<lambda>k. more_tables_entry access (pa + 4096 * of_nat 512 + 4096 * of_nat k))"
    "walk (tabs (kmem st')) root p = Some d" "unused st' root p (unat off + unat (j + 1) + n) 1"
    "\<forall>q. valid_path q \<and> take 2 q \<noteq> p \<longrightarrow> walk (tabs (kmem st')) root q = walk (tabs (kmem st1)) root q"
    using Suc.IH [OF inv1 w1 Suc.prems(3-5) _ _ un1, of "pa + 4096 * of_nat 512"] Suc.prems(6,7) oj by auto
  have T: "512 * tnum (p @ [unat off + unat (j + 1)]) = 512 * tnum (p @ [?i]) + 512"
    unfolding oj(2) using Suc.prems(3) by (simp add: tnum_snoc)
  have "range_mapped st st' root (512 * tnum (p @ [?i])) (512 + 512 * n) ?ent"
  proof (rule range_mapped_trans [OF st1(3)])
    show "range_mapped st1 st' root (512 * tnum (p @ [?i]) + 512) (512 * n)
       (\<lambda>k. more_tables_entry access (pa + 4096 * of_nat 512 + 4096 * of_nat k))"
      using st'(3) unfolding T .
  qed (simp add: algebra_simps)
  moreover have "fill_tables st pde off access pa j (Suc n) = Some (st', pa + 4096 * of_nat (512 * Suc n), j + of_nat (Suc n))"
    using st1(1) st'(1) by (simp only: fill_tables_Suc bind.bind_lunit prod.case) (simp add: algebra_simps)
  moreover have "walk (tabs (kmem st')) root q = walk (tabs (kmem st)) root q" if "valid_path q" "take 2 q \<noteq> p" for q
    using that st'(6) st1(4) Suc.prems(3) by force
  ultimately show ?case
    using pt_step_trans [OF st1(2) st'(2)] st'(4,5) unfolding oj(2) by (intro exI [of _ st']) simp
qed

section \<open>Mapping with several tables\<close>

text \<open>
  The case the kernel uses: the first page is the first of a table. With \<open>c\<close> pages, the
  code fills \<open>c div 512\<close> whole tables and writes \<open>c - 512\<close> entries to one more; so the
  mapping covers \<open>512 * (c div 512) + min 512 (c - 512)\<close> pages, at least the \<open>c\<close> asked for.
\<close>

definition extent :: "nat \<Rightarrow> nat" where
  "extent c = 512 * (c div 512) + min 512 (c - 512)"

lemma extent_ge:
  assumes "512 < c" shows "c \<le> extent c"
proof (cases "c < 1024")
  case True
  then have "c div 512 = 1" using assms by simp
  then show ?thesis using assms by (simp add: extent_def)
qed (use mod_less_divisor [of 512 c] div_mult_mod_eq [of c 512] in \<open>simp add: extent_def\<close>)

lemma map_more_tables_run:
  assumes c: "512 < c" "c < 2147483648"
  shows "map_more_tables st pde pte off 0 pa (of_nat c) access =
    (let (m, pa) = fill_entries (kmem st) pte (more_tables_entry access) pa 0 512 in
     do { (st, pa, j) \<leftarrow> fill_tables (st\<lparr>kmem := m\<rparr>) pde off access pa 1 (c div 512 - 1);
          (st, pa) \<leftarrow> new_table st pde (off + j) access pa (c - 512);
          Some st })"
proof -
  have lno: "to_int (of_nat c) = int c" "to_int (of_int (int c) - (ENTRIES_PER_PTE - 0)) = int (c - 512)"
    using c to_int_small [of c] to_int_small [of "c - 512"] by simp_all
  have lno2: "to_int (of_int (int (c - 512)) - ENTRIES_PER_PTE * 0) = int (c - 512)"
    using c to_int_small [of "c - 512"] by simp
  have "c div 512 = (c - 512 + 512) div 512" using c by simp
  then have "(c - 512) div 512 = c div 512 - 1" by simp
  then have nt: "c_div (int (c - 512)) 512 = int (c div 512 - 1)"
    by (simp add: c_div_def zdiv_int del: of_nat_diff)
  show ?thesis
    unfolding map_more_tables_def lno Let_def
    using to_int_small [of "c - 512"] c
    by (simp add: lno lno2 nt new_table_def bind_assoc case_prod_unfold Let_def del: of_nat_diff)
qed

text \<open>The first table, found or made on the path, and its 512 entries.\<close>

lemma first_table:
  assumes inv: "pt_inv st root lo hi N" and root: "is_table pml4 root"
    and c: "512 < c" "c < 2147483648" and off: "pte_index va = 0" and room: "lo + 3 \<le> hi"
  shows "\<exists>st2 pde lo1 d. lo1 \<le> lo + 3 \<and> pt_step st st2 root lo lo1 hi N \<and>
      range_mapped st st2 root (pgno va) 512 (\<lambda>k. more_tables_entry access (pa + 4096 * of_nat k)) \<and>
      walk (tabs (kmem st2)) root [unat (pml4_index va), unat (pdpe_index va)] = Some d \<and> is_table pde d \<and>
      (\<forall>q. valid_path q \<and> length q = 3 \<and> q \<noteq> path_of va \<longrightarrow> walk (tabs (kmem st2)) root q = walk (tabs (kmem st)) root q) \<and>
      init_map_virt_phys_addr st va pa (of_nat c) pml4 access =
      do { (st, pa, j) \<leftarrow> fill_tables st2 pde (pde_index va) access (pa + 4096 * of_nat 512) 1 (c div 512 - 1);
           (st, pa) \<leftarrow> new_table st pde (pde_index va + j) access pa (c - 512);
           Some st }"
proof -
  let ?p = "[unat (pml4_index va), unat (pdpe_index va)]" and ?ent = "\<lambda>k. more_tables_entry access (pa + 4096 * of_nat k)"
  obtain st1 pde pte where run1: "map_tables st va pml4 access = Some (st1, pde, pte)"
    and "tables_for st st1 root lo hi N va pde pte"
    using map_tables_ok [OF inv room root] by blast
  then obtain lo1 d f where st1: "lo1 \<le> lo + 3" "pt_step st st1 root lo lo1 hi N" "same_map st st1 root"
    "walk (tabs (kmem st1)) root ?p = Some d" "is_table pde d"
    "walk (tabs (kmem st1)) root (path_of va) = Some f" "pte = VADDR (of_nat (4096 * f))"
    "\<forall>q. valid_path q \<and> length q = 3 \<and> q \<noteq> path_of va \<longrightarrow> walk (tabs (kmem st1)) root q = walk (tabs (kmem st)) root q"
    unfolding tables_for_def by blast
  have inv1: "pt_inv st1 root lo1 hi N" using st1(2) by (simp add: pt_step_def)
  have pte: "is_table pte f" unfolding st1(7) by (rule reached_table [OF inv1 valid_path_of(1) st1(6)])
  obtain m' where m': "fill_entries (kmem st1) pte (more_tables_entry access) pa 0 512 = (m', pa + 4096 * of_nat 512)"
    "\<forall>h j. j < 512 \<longrightarrow> tabs m' h j = (if h = f then ?ent j else tabs (kmem st1) h j)"
    "\<forall>a. (a < 4096 * f \<or> 4096 * Suc f \<le> a) \<and> a < 4096 * lo1 \<longrightarrow> m' a = kmem st1 a"
    using fill_entries_ok [OF pte, of 0 512 "kmem st1" "more_tables_entry access" pa, unfolded unsigned_0 diff_zero] by auto
  note leaf = pt_step_leaf [OF inv1 valid_path_of st1(6) m'(3)]
  let ?st2 = "st1\<lparr>kmem := m'\<rparr>"
  have "mapped st ?st2 root va 512 ?ent"
    using leaf(2) m'(2) st1(3) by (auto simp: mapped_def same_map_def off)
  then have range: "range_mapped st ?st2 root (pgno va) 512 ?ent" by (rule mapped_range) (simp add: off)
  have big: "\<not> (of_nat c + pte_index va \<le> ENTRIES_PER_PTE)"
  proof -
    have "unat (of_nat c :: u64) = c" "unat ENTRIES_PER_PTE = 512" using c by (simp_all add: unat_of_nat_low low_def)
    then show ?thesis using c unfolding off word_le_nat_alt by simp
  qed
  then have "init_map_virt_phys_addr st va pa (of_nat c) pml4 access = map_more_tables st1 pde pte (pde_index va) 0 pa (of_nat c) access"
    using run1 by (simp add: init_map_virt_phys_addr_def Let_def off)
  also have "\<dots> = do { (st, pa, j) \<leftarrow> fill_tables ?st2 pde (pde_index va) access (pa + 4096 * of_nat 512) 1 (c div 512 - 1);
           (st, pa) \<leftarrow> new_table st pde (pde_index va + j) access pa (c - 512);
           Some st }"
    using map_more_tables_run [OF c, of st1 pde pte "pde_index va" pa access] m'(1) by (simp only: Let_def prod.case)
  finally show ?thesis
    using st1(1,4,5,8) pt_step_trans [OF st1(2) leaf(1)] range leaf(3)
    by (intro exI [of _ ?st2] exI [of _ pde] exI [of _ lo1] exI [of _ d]) (simp add: valid_path_def)
qed

lemma unat_add_small:
  assumes "unat (x :: u64) + k < 512"
  shows "unat (x + of_nat k) = unat x + k"
proof -
  have k: "unat (of_nat k :: u64) = k" using assms by (simp add: unat_of_nat_low low_def)
  have "unat x + unat (of_nat k :: u64) < 2 ^ LENGTH(64)" using assms unfolding k by simp
  then show ?thesis using unat_add_lem [of x "of_nat k"] k by simp
qed

lemma init_map_more_tables:
  assumes inv: "pt_inv st root lo hi N" and root: "is_table pml4 root"
    and c: "512 < c" and off: "pte_index va = 0" "unat (pde_index va) + c div 512 < 512"
    and room: "lo + 3 + c div 512 \<le> hi" and spill: "low (4096 * (lo + 3 + c div 512) + 8 * c)"
    and un: "unused st root [unat (pml4_index va), unat (pdpe_index va)] (Suc (unat (pde_index va))) (c div 512)"
  shows "\<exists>st' lo'. init_map_virt_phys_addr st va pa (of_nat c) pml4 access = Some st' \<and> lo' \<le> lo + 3 + c div 512 \<and>
    pt_step st st' root lo lo' hi N \<and>
    range_mapped st st' root (pgno va) (extent c) (\<lambda>k. more_tables_entry access (pa + 4096 * of_nat k)) \<and>
    (\<forall>q. valid_path q \<and> length q = 3 \<and> take 2 q \<noteq> take 2 (path_of va) \<longrightarrow> walk (tabs (kmem st')) root q = walk (tabs (kmem st)) root q)"
proof -
  let ?p = "[unat (pml4_index va), unat (pdpe_index va)]" and ?d = "unat (pde_index va)" and ?nt = "c div 512 - 1"
  let ?ent = "\<lambda>k. more_tables_entry access (pa + 4096 * of_nat k)"
  have path: "path_of va = ?p @ [?d]" "length ?p = 2" "valid_path ?p" by (simp_all add: path_of_def valid_path_def)
  have nt: "c div 512 = Suc ?nt" using c by (simp add: div_greater_zero_iff)
  have small: "c < 2147483648" "lo + 3 \<le> hi" using spill room by (auto simp: low_def)
  obtain st2 pde lo1 d where one: "lo1 \<le> lo + 3" "pt_step st st2 root lo lo1 hi N" "range_mapped st st2 root (pgno va) 512 ?ent"
      "walk (tabs (kmem st2)) root ?p = Some d" "is_table pde d"
      "\<forall>q. valid_path q \<and> length q = 3 \<and> q \<noteq> path_of va \<longrightarrow> walk (tabs (kmem st2)) root q = walk (tabs (kmem st)) root q"
    and run1: "init_map_virt_phys_addr st va pa (of_nat c) pml4 access =
      do { (st, pa, j) \<leftarrow> fill_tables st2 pde (pde_index va) access (pa + 4096 * of_nat 512) 1 ?nt;
           (st, pa) \<leftarrow> new_table st pde (pde_index va + j) access pa (c - 512);
           Some st }"
    using first_table [OF inv root c small(1) off(1) small(2), of access pa] by blast
  have inv2: "pt_inv st2 root lo1 hi N" using one(2) by (simp add: pt_step_def)
  have un2: "unused st2 root ?p (?d + unat (1 :: u64)) (Suc ?nt)"
    using un one(6) off(2) nt path by (auto simp: unused_def valid_path_def)
  have B: "512 * tnum (?p @ [?d + k]) = pgno va + 512 * k" for k
    using off(1) path(1) by (simp add: pgno_pnum pnum_def tnum_def)
  have fits: "?d + unat (1 :: u64) + ?nt < 512" "lo1 + ?nt \<le> hi" using off(2) one(1) room nt by simp_all
  obtain st3 where st3: "fill_tables st2 pde (pde_index va) access (pa + 4096 * of_nat 512) 1 ?nt =
        Some (st3, pa + 4096 * of_nat 512 + 4096 * of_nat (512 * ?nt), 1 + of_nat ?nt)"
      "pt_step st2 st3 root lo1 (lo1 + ?nt) hi N"
      "range_mapped st2 st3 root (pgno va + 512) (512 * ?nt) (\<lambda>k. more_tables_entry access (pa + 4096 * of_nat 512 + 4096 * of_nat k))"
      "walk (tabs (kmem st3)) root ?p = Some d" "unused st3 root ?p (?d + 1 + ?nt) 1"
      "\<forall>q. valid_path q \<and> take 2 q \<noteq> ?p \<longrightarrow> walk (tabs (kmem st3)) root q = walk (tabs (kmem st2)) root q"
    using fill_tables_ok [OF inv2 one(4) path(2,3) one(5) fits un2, of access "pa + 4096 * of_nat 512"] B [of 1] by auto
  let ?off = "pde_index va + (1 + of_nat ?nt)"
  have off3: "unat ?off = ?d + (1 + ?nt)"
    using unat_add_small [of "pde_index va" "1 + ?nt"] fits(1) by simp
  have inv3: "pt_inv st3 root (lo1 + ?nt) hi N" using st3(2) by (simp add: pt_step_def)
  have room3: "Suc (lo1 + ?nt) \<le> hi" "low (4096 * (lo1 + ?nt) + 8 * (c - 512))"
    using one(1) room nt spill by (auto simp: low_def)
  have v3: "valid_path (?p @ [unat ?off])" "walk (tabs (kmem st3)) root (?p @ [unat ?off]) = None"
    using st3(5) fits(1) unfolding off3 by (simp_all add: unused_def valid_path_def)
  obtain st' where st': "new_table st3 pde ?off access (pa + 4096 * of_nat 512 + 4096 * of_nat (512 * ?nt)) (c - 512) =
        Some (st', pa + 4096 * of_nat 512 + 4096 * of_nat (512 * ?nt) + 4096 * of_nat (c - 512))"
      "pt_step st3 st' root (lo1 + ?nt) (Suc (lo1 + ?nt)) hi N"
      "range_mapped st3 st' root (pgno va + 512 * (1 + ?nt)) (min 512 (c - 512))
        (\<lambda>k. more_tables_entry access (pa + 4096 * of_nat 512 + 4096 * of_nat (512 * ?nt) + 4096 * of_nat k))"
      "\<forall>q. valid_path q \<and> q \<noteq> ?p @ [unat ?off] \<longrightarrow> walk (tabs (kmem st')) root q = walk (tabs (kmem st3)) root q"
    using new_table_ok [OF inv3 room3 st3(4) path(2) v3(1) one(5) v3(2), of access "pa + 4096 * of_nat 512 + 4096 * of_nat (512 * ?nt)"]
    unfolding off3 B by blast
  have "range_mapped st st3 root (pgno va) (512 + 512 * ?nt) ?ent"
    by (rule range_mapped_trans [OF one(3) st3(3)]) (simp add: algebra_simps)
  then have "range_mapped st st' root (pgno va) (512 + 512 * ?nt + min 512 (c - 512)) ?ent"
    by (rule range_mapped_trans) (use st'(3) in \<open>simp_all add: algebra_simps\<close>)
  then have "range_mapped st st' root (pgno va) (extent c) ?ent"
    unfolding extent_def by (subst nt) simp
  moreover have "init_map_virt_phys_addr st va pa (of_nat c) pml4 access = Some st'"
    unfolding run1 using st3(1) st'(1) by (simp only: bind.bind_lunit prod.case)
  moreover have "walk (tabs (kmem st')) root q = walk (tabs (kmem st)) root q"
    if "valid_path q" "length q = 3" "take 2 q \<noteq> take 2 (path_of va)" for q
  proof -
    have "q \<noteq> path_of va" "take 2 q \<noteq> ?p" "q \<noteq> ?p @ [unat ?off]" using that(3) path(1) by auto
    then show ?thesis using that(1,2) st'(4) st3(6) one(6) by simp
  qed
  moreover have "Suc (lo1 + ?nt) \<le> lo + 3 + c div 512" using one(1) nt by simp
  ultimately show ?thesis
    using pt_step_trans [OF pt_step_trans [OF one(2) st3(2)] st'(2)] by blast
qed

section \<open>Addresses of the direct map\<close>

abbreviation kernel_pgno :: nat where
  "kernel_pgno \<equiv> 0xFFFF80000"

lemma pgno_of_nat: "low a \<Longrightarrow> pgno (of_nat a) = a div 4096"
  by (simp add: pgno_def unat_of_nat_low) (simp add: low_def)

lemma pgno_VADDR:
  assumes "low a" shows "pgno (VADDR (of_nat a)) = kernel_pgno + a div 4096"
proof -
  have "unat (VADDR (of_nat a)) = 0xffffffff80000000 + a"
    using unat_VADDR_of_nat [OF assms] by (simp add: KERNEL_VADDR_def)
  moreover have "(0xffffffff80000000 + a) div 4096 = 0xFFFFFFFF80000 + a div 4096" by simp
  ultimately have "pgno (VADDR (of_nat a)) = ((kernel_pgno + a div 4096) + 0xFFFF * 2 ^ 36) mod 2 ^ 36"
    by (simp add: pgno_def)
  moreover have "kernel_pgno + a div 4096 < 2 ^ 36" using assms by (simp add: low_def)
  ultimately show ?thesis by (simp only: mod_mult_self1 mod_less)
qed

lemma pmap_walk_page_table:
  assumes "pt_inv st root lo hi n" and "pmap st root w = Some e"
  shows "walk_page_table (kmem st) (of_nat (4096 * root)) w = page_base e"
  using assms(2) walk_page_table_eq [OF assms(1), of w]
  by (auto simp: pmap_def lookup_def present_entry_def split: option.splits if_splits)

lemma page_base_kernel_entry: "page_base (more_tables_entry 0 (of_nat (4096 * k))) = of_nat (4096 * k)"
proof -
  have "page_base RW_KERNEL_FLAGS = 0" by (simp add: page_base_def RW_KERNEL_FLAGS_def drop_bit_eq_div)
  moreover have "page_base (x OR y) = page_base x OR page_base y" for x y
    by (auto simp: word_bits_eq_iff bit_facts bit_or_iff)
  ultimately show ?thesis using page_base_mult [of k] by (simp add: more_tables_entry_def del: of_nat_mult)
qed

lemma page_base_of_nat: "low a \<Longrightarrow> page_base (of_nat a) = of_nat (4096 * (a div 4096))"
  by (simp add: page_base_frame frame_of_def unat_of_nat_low)

section \<open>init_paging\<close>

text \<open>The kernel image starts at 2 MiB; the memory has \<open>c\<close> pages.\<close>

abbreviation boot_physbase :: u64 where
  "boot_physbase \<equiv> 0x200000"

lemma unused_empty:
  assumes "\<And>q. valid_path q \<Longrightarrow> length q = 3 \<Longrightarrow> take 2 q = p \<Longrightarrow> walk (tabs (kmem st)) root q = None"
    and "valid_path p" and "length p = 2" and "i + n \<le> 512"
  shows "unused st root p i n"
  using assms by (auto simp: unused_def valid_path_snoc)

lemma boot_indices:
  "pte_index 0 = 0" "pde_index 0 = 0" "pdpe_index 0 = 0" "pml4_index 0 = 0"
  "pte_index (VADDR boot_physbase) = 0" "pde_index (VADDR boot_physbase) = 1"
  "pdpe_index (VADDR boot_physbase) = 510" "pml4_index (VADDR boot_physbase) = 511"
  by (simp_all add: pte_index_def pde_index_def pdpe_index_def pml4_index_def VADDR_def KERNEL_VADDR_def drop_bit_eq_div)

lemma kernel_base: "pgno (VADDR boot_physbase) = kernel_pgno + 512" "pgno 0 = 0" "pgno 0xFFFFFFFF800B8000 = kernel_pgno + 0xB8"
  using pgno_VADDR [of "0x200000"] pgno_VADDR [of "0xB8000"] by (simp_all add: low_def pgno_def VADDR_def KERNEL_VADDR_def)

lemma init_paging_ok:
  assumes fl: "fl_inv (vkst v) lo hi N" and c: "1024 \<le> c" "c \<le> 261120"
    and room: "lo + 12 + 2 * (c div 512) \<le> hi" and spill: "low (4096 * (lo + 12 + 2 * (c div 512)) + 8 * c)"
  shows "\<exists>v' lo'. init_paging v (VADDR boot_physbase) boot_physbase (of_nat c) = Some v' \<and>
    lo' \<le> lo + 12 + 2 * (c div 512) \<and> pt_inv (vkst v') lo lo' hi N \<and> cr3 v' = of_nat (4096 * lo) \<and>
    (\<forall>w. pgno w < c \<longrightarrow> pmap (vkst v') lo w = Some (more_tables_entry 0 (of_nat (4096 * pgno w)))) \<and>
    (\<forall>w. kernel_pgno + 512 \<le> pgno w \<and> pgno w \<le> kernel_pgno + c \<longrightarrow>
      pmap (vkst v') lo w = Some (more_tables_entry 0 (of_nat (4096 * (pgno w - kernel_pgno)))))"
proof -
  let ?K = "VADDR (of_nat (4096 * lo))" and ?d = "c div 512"
  obtain st1 where st1: "kmalloc_init (vkst v) 1 = Some (st1, ?K)" "fl_inv st1 (lo + 1) hi N" "alloc_post (vkst v) st1 lo 1 hi"
    using kmalloc_init_src.al_ok [OF fl pages_for_1] room by auto
  have d: "?d \<le> 510" using div_le_mono [OF c(2), of 512] by simp
  note root = new_root [OF fl st1(2) [folded Suc_eq_plus1] st1(3)]
  have tbl: "is_table ?K lo" by (rule table_pointers [OF fl]) (use room in simp)
  have none: "walk (tabs (kmem st1)) lo q = None" if "valid_path q" "length q = 3" for q
    using root(3) [OF that(1)] that(2) by auto
  obtain st2 lo2 where st2: "init_map_virt_phys_addr st1 0 0 (of_nat c) ?K 0 = Some st2" "lo2 \<le> Suc lo + 3 + ?d"
    "pt_step st1 st2 lo (Suc lo) lo2 hi N"
    "range_mapped st1 st2 lo 0 (extent c) (\<lambda>k. more_tables_entry 0 (4096 * of_nat k))"
    "\<forall>q. valid_path q \<and> length q = 3 \<and> take 2 q \<noteq> take 2 (path_of 0) \<longrightarrow> walk (tabs (kmem st2)) lo q = walk (tabs (kmem st1)) lo q"
  proof -
    have "unused st1 lo [unat (pml4_index 0), unat (pdpe_index 0)] (Suc (unat (pde_index 0))) ?d"
      by (rule unused_empty) (use none d in \<open>auto simp: boot_indices valid_path_def\<close>)
    then show ?thesis
      using init_map_more_tables [OF root(1) tbl, of c 0 0 0] c d room spill that
      by (auto simp: boot_indices kernel_base low_def)
  qed
  have inv2: "pt_inv st2 lo lo2 hi N" using st2(3) by (simp add: pt_step_def)
  define c2 where "c2 = c - 511"
  have c2: "512 < c2" "c2 div 512 \<le> ?d" "c2 \<le> c" "(of_nat c :: u64) - boot_physbase div 4096 + 1 = of_nat c2"
    using c by (auto simp: c2_def div_le_mono)
  obtain st3 lo3 where st3: "init_map_virt_phys_addr st2 (VADDR boot_physbase) boot_physbase (of_nat c2) ?K 0 = Some st3"
    "lo3 \<le> lo2 + 3 + c2 div 512" "pt_step st2 st3 lo lo2 lo3 hi N"
    "range_mapped st2 st3 lo (kernel_pgno + 512) (extent c2) (\<lambda>k. more_tables_entry 0 (boot_physbase + 4096 * of_nat k))"
  proof -
    have "unused st2 lo [unat (pml4_index (VADDR boot_physbase)), unat (pdpe_index (VADDR boot_physbase))]
        (Suc (unat (pde_index (VADDR boot_physbase)))) (c2 div 512)"
      by (rule unused_empty) (use none st2(5) d c2(2) in \<open>auto simp: boot_indices valid_path_def path_of_def\<close>)
    then show ?thesis
      using init_map_more_tables [OF inv2 tbl, of c2 "VADDR boot_physbase" boot_physbase 0] c2(1-3) d room spill that st2(2)
      by (auto simp: boot_indices kernel_base low_def)
  qed
  have inv3: "pt_inv st3 lo lo3 hi N" using st3(3) by (simp add: pt_step_def)
  obtain st4 lo4 where st4: "init_map_virt_phys_addr st3 0xFFFFFFFF800B8000 0xB8000 1 ?K 0 = Some st4" "lo4 \<le> lo3 + 3"
    "pt_step st3 st4 lo lo3 lo4 hi N"
    "\<forall>w. pmap st4 lo w = (if pgno w = kernel_pgno + 0xB8 then Some (one_table_entry 0 0xB8000) else pmap st3 lo w)"
    using init_map_page [OF inv3 _ tbl, of "0xFFFFFFFF800B8000" "0xB8000" 0] st3(2) st2(2) c2(2) room by (auto simp: kernel_base)
  define v' where "v' = v\<lparr>ker_cr3 := of_nat (4096 * lo), ker_pml4_t := ?K, vkst := st4, cr3 := of_nat (4096 * lo),
    topVAddr := VADDR boot_physbase + of_nat c * 4096\<rparr>"
  have "init_paging v (VADDR boot_physbase) boot_physbase (of_nat c) = Some v'"
    unfolding init_paging_def c2(4) using st1(1) st2(1) st3(1) st4(1)
    by (simp add: LOAD_CR3_def set_highest_virtaddr_def v'_def Let_def del: of_nat_mult)
  moreover have "pmap st4 lo w = Some (more_tables_entry 0 (of_nat (4096 * pgno w)))" if "pgno w < c" for w
  proof -
    have "pgno w < extent c" using that extent_ge [of c] c by simp
    then show ?thesis
      using that c st4(4) range_mapped_pmap [OF st3(4), of w] range_mapped_pmap [OF st2(4), of w] by simp
  qed
  moreover have "pmap st4 lo w = Some (more_tables_entry 0 (of_nat (4096 * (pgno w - kernel_pgno))))"
    if w: "kernel_pgno + 512 \<le> pgno w \<and> pgno w \<le> kernel_pgno + c" for w
  proof -
    have "pgno w < kernel_pgno + 512 + extent c2" using w extent_ge [OF c2(1)] c by (auto simp: c2_def)
    moreover have "boot_physbase + 4096 * of_nat (pgno w - (kernel_pgno + 512)) = of_nat (4096 * (pgno w - kernel_pgno))"
    proof -
      have "4096 * (pgno w - kernel_pgno) = 0x200000 + 4096 * (pgno w - (kernel_pgno + 512))" using w by arith
      then show ?thesis by (simp only: of_nat_add of_nat_mult of_nat_numeral)
    qed
    ultimately show ?thesis
      using w st4(4) range_mapped_pmap [OF st3(4), of w] by simp
  qed
  moreover have "lo4 \<le> lo + 12 + 2 * ?d" using st4(2) st3(2) st2(2) c2(2) by simp
  ultimately show ?thesis
    using st4(3) by (intro exI [of _ v'] exI [of _ lo4]) (simp add: v'_def pt_step_def del: of_nat_mult)
qed

section \<open>Properties of the kernel's address map\<close>

text \<open>A machine with 2048 pages whose kernel image ends at 2 MiB, after the list is built.\<close>

definition boot_vm :: vmst where
  "boot_vm = \<lparr>vkst = the (calculate_free_list \<lparr>kmem = (\<lambda>_. 0), free_list = 0\<rparr> 2048 0x200000),
     topVAddr = 0, ker_cr3 = 0, ker_pml4_t = 0, cr3 = 0\<rparr>"

lemma boot_vm_inv: "fl_inv (vkst boot_vm) 524 2048 2048"
proof -
  have num: "512 + reserved_pages 2048 = 524" "intact_descs 2048 = 2048"
    by (simp_all add: reserved_pages_def intact_descs_def)
  have "\<exists>st'. calculate_free_list \<lparr>kmem = (\<lambda>_. 0), free_list = 0\<rparr> (of_nat 2048) (of_nat (4096 * 512)) = Some st' \<and>
    fl_inv st' 524 2048 2048"
    using calculate_free_list_inv [of 512 2048 "\<lparr>kmem = (\<lambda>_. 0), free_list = 0\<rparr>", unfolded num]
    by (auto simp: low_def)
  then show ?thesis by (auto simp: boot_vm_def)
qed

text \<open>
  C2. \<^verbatim>\<open>init_paging\<close> installs the direct map the rest of the kernel relies on: with the
  new root in \<^verbatim>\<open>cr3\<close>, the walk from a physical address below the end of memory, taken as
  a virtual one, gives its own page, and so does the walk from that address moved up by
  \<^verbatim>\<open>KERNEL_VADDR\<close> if it is not below the kernel image.
\<close>

theorem init_paging_direct_map:
  assumes "fl_inv (vkst v) lo hi N" and "1024 \<le> c" and "c \<le> 261120"
    and "lo + 12 + 2 * (c div 512) \<le> hi" and "low (4096 * (lo + 12 + 2 * (c div 512)) + 8 * c)"
  shows "\<exists>v' lo'. init_paging v (VADDR boot_physbase) boot_physbase (of_nat c) = Some v' \<and>
    pt_inv (vkst v') lo lo' hi N \<and> cr3 v' = of_nat (4096 * lo) \<and>
    (\<forall>a. a < 4096 * c \<longrightarrow> walk_page_table (kmem (vkst v')) (cr3 v') (of_nat a) = page_base (of_nat a)) \<and>
    (\<forall>a. 0x200000 \<le> a \<and> a < 4096 * c \<longrightarrow>
      walk_page_table (kmem (vkst v')) (cr3 v') (VADDR (of_nat a)) = page_base (of_nat a))"
proof -
  obtain v' lo' where v': "init_paging v (VADDR boot_physbase) boot_physbase (of_nat c) = Some v'"
    "pt_inv (vkst v') lo lo' hi N" "cr3 v' = of_nat (4096 * lo)"
    "\<forall>w. pgno w < c \<longrightarrow> pmap (vkst v') lo w = Some (more_tables_entry 0 (of_nat (4096 * pgno w)))"
    "\<forall>w. kernel_pgno + 512 \<le> pgno w \<and> pgno w \<le> kernel_pgno + c \<longrightarrow>
      pmap (vkst v') lo w = Some (more_tables_entry 0 (of_nat (4096 * (pgno w - kernel_pgno))))"
    using init_paging_ok [OF assms] by blast
  have low: "low a" "a div 4096 < c" if "a < 4096 * c" for a
    using that assms(3) by (auto simp: low_def less_mult_imp_div_less mult.commute)
  have "walk_page_table (kmem (vkst v')) (cr3 v') (of_nat a) = page_base (of_nat a)" if "a < 4096 * c" for a
    using v'(4) low [OF that] pmap_walk_page_table [OF v'(2)]
    unfolding v'(3) page_base_of_nat [OF low(1) [OF that]] by (simp add: pgno_of_nat page_base_kernel_entry del: of_nat_mult)
  moreover have "walk_page_table (kmem (vkst v')) (cr3 v') (VADDR (of_nat a)) = page_base (of_nat a)"
    if "0x200000 \<le> a" "a < 4096 * c" for a
  proof -
    have "512 \<le> a div 4096" using div_le_mono [OF that(1), of 4096] by simp
    then show ?thesis
      using v'(5) low [OF that(2)] pmap_walk_page_table [OF v'(2)]
      unfolding v'(3) page_base_of_nat [OF low(1) [OF that(2)]] by (simp add: pgno_VADDR page_base_kernel_entry del: of_nat_mult)
  qed
  ultimately show ?thesis using v'(1-3) by blast
qed

theorem init_paging_direct_map_witness:
  "\<exists>v'. init_paging boot_vm (VADDR boot_physbase) boot_physbase (of_nat 2048) = Some v' \<and>
    walk_page_table (kmem (vkst v')) (cr3 v') (of_nat 5000) = page_base (of_nat 5000) \<and>
    walk_page_table (kmem (vkst v')) (cr3 v') (VADDR (of_nat 0x300000)) = page_base (of_nat 0x300000)"
proof -
  have "524 + 12 + 2 * (2048 div 512) \<le> (2048 :: nat)" "low (4096 * (524 + 12 + 2 * (2048 div 512)) + 8 * 2048)"
    by (simp_all add: low_def)
  from init_paging_direct_map [OF boot_vm_inv _ _ this] obtain v' where
    v': "init_paging boot_vm (VADDR boot_physbase) boot_physbase (of_nat 2048) = Some v'"
    "\<forall>a. a < 4096 * 2048 \<longrightarrow> walk_page_table (kmem (vkst v')) (cr3 v') (of_nat a) = page_base (of_nat a)"
    "\<forall>a. 0x200000 \<le> a \<and> a < 4096 * 2048 \<longrightarrow>
      walk_page_table (kmem (vkst v')) (cr3 v') (VADDR (of_nat a)) = page_base (of_nat a)"
    by auto
  show ?thesis
    using v'(1) v'(2) [rule_format, of 5000] v'(3) [rule_format, of "0x300000"] by (intro exI [of _ v']) simp
qed

text \<open>
  When several tables are needed, the number of entries written to the last one is not
  reduced by the tables already filled: with 1024 pages or more the pages behind the requested
  range, up to the end of the last table, are mapped too.
\<close>

theorem init_map_overmaps:
  assumes "pt_inv st root lo hi N" and "is_table pml4 root"
    and "1024 \<le> c" and "pte_index va = 0" and "unat (pde_index va) + c div 512 < 512"
    and "lo + 3 + c div 512 \<le> hi" and "low (4096 * (lo + 3 + c div 512) + 8 * c)"
    and "unused st root [unat (pml4_index va), unat (pdpe_index va)] (Suc (unat (pde_index va))) (c div 512)"
  shows "\<exists>st'. init_map_virt_phys_addr st va pa (of_nat c) pml4 access = Some st' \<and>
    (\<forall>w. pgno va \<le> pgno w \<and> pgno w < pgno va + 512 * (c div 512 + 1) \<longrightarrow>
      pmap st' root w = Some (more_tables_entry access (pa + 4096 * of_nat (pgno w - pgno va)))) \<and>
    c < 512 * (c div 512 + 1)"
proof -
  have c: "512 < c" "extent c = 512 * (c div 512 + 1)" using assms(3) by (auto simp: extent_def)
  have "c < 512 * (c div 512 + 1)" using div_mult_mod_eq [of c 512] mod_less_divisor [of 512 c] by simp
  then show ?thesis
    using init_map_more_tables [OF assms(1,2) c(1) assms(4-8), of pa access] range_mapped_pmap c(2) by fastforce
qed

theorem init_map_overmaps_witness:
  "\<exists>st1 st'. kmalloc_init (vkst boot_vm) 1 = Some (st1, VADDR (of_nat (4096 * 524))) \<and>
    init_map_virt_phys_addr st1 0 0 (of_nat 1030) (VADDR (of_nat (4096 * 524))) 0 = Some st' \<and>
    pmap st' 524 (of_nat (4096 * 1400)) \<noteq> None"
proof -
  obtain st1 where st1: "kmalloc_init (vkst boot_vm) 1 = Some (st1, VADDR (of_nat (4096 * 524)))"
    "fl_inv st1 (524 + 1) 2048 2048" "alloc_post (vkst boot_vm) st1 524 1 2048"
    using kmalloc_init_src.al_ok [OF boot_vm_inv pages_for_1] by auto
  note root = new_root [OF boot_vm_inv st1(2) [folded Suc_eq_plus1] st1(3)]
  have tbl: "is_table (VADDR (of_nat (4096 * 524))) 524" by (rule table_pointers [OF boot_vm_inv]) simp
  have "unused st1 524 [unat (pml4_index 0), unat (pdpe_index 0)] (Suc (unat (pde_index 0))) (1030 div 512)"
    using root(3) by (auto simp: unused_def boot_indices valid_path_def)
  then have "\<exists>st'. init_map_virt_phys_addr st1 0 0 (of_nat 1030) (VADDR (of_nat (4096 * 524))) 0 = Some st' \<and>
    (\<forall>w. pgno 0 \<le> pgno w \<and> pgno w < pgno 0 + 512 * (1030 div 512 + 1) \<longrightarrow>
      pmap st' 524 w = Some (more_tables_entry 0 (0 + 4096 * of_nat (pgno w - pgno 0)))) \<and> (1030 :: nat) < 512 * (1030 div 512 + 1)"
    by (intro init_map_overmaps [OF root(1) tbl]) (simp_all add: boot_indices low_def)
  then obtain st' where "init_map_virt_phys_addr st1 0 0 (of_nat 1030) (VADDR (of_nat (4096 * 524))) 0 = Some st'"
    "pmap st' 524 (of_nat (4096 * 1400)) = Some (more_tables_entry 0 (0 + 4096 * of_nat (1400 - pgno 0)))"
    using pgno_of_nat [of "4096 * 1400"] by (auto simp: kernel_base low_def)
  then show ?thesis using st1(1) by auto
qed

end
