(* ===== verification/Ptops.thy ===== *)
theory Ptops
  imports Prelude
begin

text \<open>
  The accessors of page-table entries of \<^verbatim>\<open>sys/ptops.c\<close>: the same seven operations
  for each of the four levels. The locale \<open>entry_ops\<close> is their common contract, in terms
  of the bits of an entry; it is interpreted once per level. A pointer to an entry that an
  operation updates in place is modelled by the old and the new value of the entry. The type
  \<^verbatim>\<open>bool\<close> of the code is an enumeration, so a test returns the masked value itself.
\<close>

section \<open>Flags\<close>

definition PTE_FRAME :: u64 where
  "PTE_FRAME = 0x0000FFFFFFFFF000"

abbreviation FLAG_PRESENT :: u64 where
  "FLAG_PRESENT \<equiv> 1"

abbreviation FLAG_WRITABLE :: u64 where
  "FLAG_WRITABLE \<equiv> 2"

abbreviation FLAG_USER :: u64 where
  "FLAG_USER \<equiv> 4"

section \<open>PTE entries\<close>

definition pte_entry_add_attr :: "u64 \<Rightarrow> u64 \<Rightarrow> u64" where
  "pte_entry_add_attr e attr = e OR attr"

definition pte_entry_del_attr :: "u64 \<Rightarrow> u64 \<Rightarrow> u64" where
  "pte_entry_del_attr e attr = e AND NOT attr"

definition pte_entry_set_frame :: "u64 \<Rightarrow> u64 \<Rightarrow> u64" where
  "pte_entry_set_frame e phy_addr = (e AND NOT PTE_FRAME) OR push_bit 12 phy_addr"

definition pte_entry_get_pfn :: "u64 \<Rightarrow> u64" where
  "pte_entry_get_pfn e = e AND PTE_FRAME"

definition pte_entry_is_writable :: "u64 \<Rightarrow> u32" where
  "pte_entry_is_writable e = ucast (e AND FLAG_WRITABLE)"

definition pte_entry_is_present :: "u64 \<Rightarrow> u32" where
  "pte_entry_is_present e = ucast (e AND FLAG_PRESENT)"

definition pte_entry_is_user :: "u64 \<Rightarrow> u32" where
  "pte_entry_is_user e = ucast (e AND FLAG_USER)"

section \<open>PDE entries\<close>

definition pde_entry_add_attr :: "u64 \<Rightarrow> u64 \<Rightarrow> u64" where
  "pde_entry_add_attr e attr = e OR attr"

definition pde_entry_del_attr :: "u64 \<Rightarrow> u64 \<Rightarrow> u64" where
  "pde_entry_del_attr e attr = e AND NOT attr"

definition pde_entry_set_frame :: "u64 \<Rightarrow> u64 \<Rightarrow> u64" where
  "pde_entry_set_frame e phy_addr = (e AND NOT PTE_FRAME) OR push_bit 12 phy_addr"

definition pde_entry_get_pfn :: "u64 \<Rightarrow> u64" where
  "pde_entry_get_pfn e = e AND PTE_FRAME"

definition pde_entry_is_writable :: "u64 \<Rightarrow> u32" where
  "pde_entry_is_writable e = ucast (e AND FLAG_WRITABLE)"

definition pde_entry_is_present :: "u64 \<Rightarrow> u32" where
  "pde_entry_is_present e = ucast (e AND FLAG_PRESENT)"

definition pde_entry_is_user :: "u64 \<Rightarrow> u32" where
  "pde_entry_is_user e = ucast (e AND FLAG_USER)"

section \<open>PDP entries\<close>

definition pdp_entry_add_attr :: "u64 \<Rightarrow> u64 \<Rightarrow> u64" where
  "pdp_entry_add_attr e attr = e OR attr"

definition pdp_entry_del_attr :: "u64 \<Rightarrow> u64 \<Rightarrow> u64" where
  "pdp_entry_del_attr e attr = e AND NOT attr"

definition pdp_entry_set_frame :: "u64 \<Rightarrow> u64 \<Rightarrow> u64" where
  "pdp_entry_set_frame e phy_addr = (e AND NOT PTE_FRAME) OR push_bit 12 phy_addr"

definition pdp_entry_get_pfn :: "u64 \<Rightarrow> u64" where
  "pdp_entry_get_pfn e = e AND PTE_FRAME"

definition pdp_entry_is_writable :: "u64 \<Rightarrow> u32" where
  "pdp_entry_is_writable e = ucast (e AND FLAG_WRITABLE)"

definition pdp_entry_is_present :: "u64 \<Rightarrow> u32" where
  "pdp_entry_is_present e = ucast (e AND FLAG_PRESENT)"

definition pdp_entry_is_user :: "u64 \<Rightarrow> u32" where
  "pdp_entry_is_user e = ucast (e AND FLAG_USER)"

section \<open>PML4 entries\<close>

definition pml4_entry_add_attr :: "u64 \<Rightarrow> u64 \<Rightarrow> u64" where
  "pml4_entry_add_attr e attr = e OR attr"

definition pml4_entry_del_attr :: "u64 \<Rightarrow> u64 \<Rightarrow> u64" where
  "pml4_entry_del_attr e attr = e AND NOT attr"

definition pml4_entry_set_frame :: "u64 \<Rightarrow> u64 \<Rightarrow> u64" where
  "pml4_entry_set_frame e phy_addr = (e AND NOT PTE_FRAME) OR push_bit 12 phy_addr"

definition pml4_entry_get_pfn :: "u64 \<Rightarrow> u64" where
  "pml4_entry_get_pfn e = e AND PTE_FRAME"

definition pml4_entry_is_writable :: "u64 \<Rightarrow> u32" where
  "pml4_entry_is_writable e = ucast (e AND FLAG_WRITABLE)"

definition pml4_entry_is_present :: "u64 \<Rightarrow> u32" where
  "pml4_entry_is_present e = ucast (e AND FLAG_PRESENT)"

definition pml4_entry_is_user :: "u64 \<Rightarrow> u32" where
  "pml4_entry_is_user e = ucast (e AND FLAG_USER)"

section \<open>The contract of the accessors\<close>

lemma bit_PTE_FRAME [bit_facts]: "bit PTE_FRAME n \<longleftrightarrow> 12 \<le> n \<and> n < 48"
proof -
  have eq: "PTE_FRAME = push_bit 12 (mask 36)"
    by (simp add: PTE_FRAME_def mask_eq_exp_minus_1 push_bit_eq_mult)
  show ?thesis
    by (auto simp: eq bit_push_bit_iff bit_mask_iff)
qed

lemma ucast_flag_zero_iff [bit_facts]:
  assumes "k < 32"
  shows "(ucast (e AND push_bit k 1 :: u64) :: u32) = 0 \<longleftrightarrow> \<not> bit e k"
proof -
  have "bit (ucast (e AND push_bit k 1 :: u64) :: u32) n \<longleftrightarrow> n = k \<and> bit e k" for n
    using assms by (auto simp: bit_simps)
  then show ?thesis using assms by (auto simp: word_bits_eq_iff)
qed

lemmas flag_bits = ucast_flag_zero_iff [of 0] ucast_flag_zero_iff [of 1] ucast_flag_zero_iff [of 2]

locale entry_ops =
  fixes add_attr del_attr set_frame :: "u64 \<Rightarrow> u64 \<Rightarrow> u64"
    and get_pfn :: "u64 \<Rightarrow> u64"
    and is_writable is_present is_user :: "u64 \<Rightarrow> u32"
  assumes bit_add: "bit (add_attr e a) n \<longleftrightarrow> bit e n \<or> bit a n"
    and bit_del: "bit (del_attr e a) n \<longleftrightarrow> bit e n \<and> \<not> bit a n"
    and bit_set: "bit (set_frame e p) n \<longleftrightarrow> (bit e n \<and> \<not> (12 \<le> n \<and> n < 48)) \<or> (12 \<le> n \<and> n < 64 \<and> bit p (n - 12))"
    and bit_pfn: "bit (get_pfn e) n \<longleftrightarrow> bit e n \<and> 12 \<le> n \<and> n < 48"
    and writable: "is_writable e = 0 \<longleftrightarrow> \<not> bit e 1"
    and present: "is_present e = 0 \<longleftrightarrow> \<not> bit e 0"
    and user: "is_user e = 0 \<longleftrightarrow> \<not> bit e 2"
begin

lemma pfn_add_attr: "unat a < 4096 \<Longrightarrow> get_pfn (add_attr e a) = get_pfn e"
  using word_bit_below [of a 12] by (fastforce simp: word_bits_eq_iff bit_pfn bit_add)

lemma pfn_del_attr: "unat a < 4096 \<Longrightarrow> get_pfn (del_attr e a) = get_pfn e"
  using word_bit_below [of a 12] by (fastforce simp: word_bits_eq_iff bit_pfn bit_del)

lemma add_then_del: "e AND a = 0 \<Longrightarrow> del_attr (add_attr e a) a = e"
  by (auto simp: word_bits_eq_iff bit_add bit_del bit_and_iff)

lemma pfn_set_frame:
  assumes "unat p < 2 ^ 36"
  shows "get_pfn (set_frame e p) = push_bit 12 p"
proof -
  have "bit p (n - 12) \<Longrightarrow> n < 48" for n using word_bit_below [OF assms, of "n - 12"] by simp
  then show ?thesis
    by (auto simp: word_bits_eq_iff bit_pfn bit_set bit_push_bit_iff)
qed

lemma set_frame_flags: "(is_present (set_frame e p) = 0 \<longleftrightarrow> is_present e = 0) \<and>
    (is_writable (set_frame e p) = 0 \<longleftrightarrow> is_writable e = 0) \<and> (is_user (set_frame e p) = 0 \<longleftrightarrow> is_user e = 0)"
  by (simp add: present writable user bit_set)

lemma entry_of_frame:
  assumes "unat p < 2 ^ 36" and "unat a < 4096"
  shows "get_pfn (add_attr (set_frame 0 p) a) = push_bit 12 p \<and>
    (is_present (add_attr (set_frame 0 p) a) \<noteq> 0 \<longleftrightarrow> bit a 0) \<and>
    (is_writable (add_attr (set_frame 0 p) a) \<noteq> 0 \<longleftrightarrow> bit a 1) \<and>
    (is_user (add_attr (set_frame 0 p) a) \<noteq> 0 \<longleftrightarrow> bit a 2)"
  using assms by (simp add: pfn_add_attr pfn_set_frame present writable user bit_add bit_set)

end

lemmas pte_defs = pte_entry_add_attr_def pte_entry_del_attr_def pte_entry_set_frame_def pte_entry_get_pfn_def pte_entry_is_writable_def pte_entry_is_present_def pte_entry_is_user_def

interpretation pte_ops: entry_ops pte_entry_add_attr pte_entry_del_attr pte_entry_set_frame pte_entry_get_pfn pte_entry_is_writable pte_entry_is_present pte_entry_is_user
  by unfold_locales (use flag_bits in \<open>auto simp: pte_defs bit_facts bit_simps dest: bit_u64_less\<close>)

lemmas pde_defs = pde_entry_add_attr_def pde_entry_del_attr_def pde_entry_set_frame_def pde_entry_get_pfn_def pde_entry_is_writable_def pde_entry_is_present_def pde_entry_is_user_def

interpretation pde_ops: entry_ops pde_entry_add_attr pde_entry_del_attr pde_entry_set_frame pde_entry_get_pfn pde_entry_is_writable pde_entry_is_present pde_entry_is_user
  by unfold_locales (use flag_bits in \<open>auto simp: pde_defs bit_facts bit_simps dest: bit_u64_less\<close>)

lemmas pdp_defs = pdp_entry_add_attr_def pdp_entry_del_attr_def pdp_entry_set_frame_def pdp_entry_get_pfn_def pdp_entry_is_writable_def pdp_entry_is_present_def pdp_entry_is_user_def

interpretation pdp_ops: entry_ops pdp_entry_add_attr pdp_entry_del_attr pdp_entry_set_frame pdp_entry_get_pfn pdp_entry_is_writable pdp_entry_is_present pdp_entry_is_user
  by unfold_locales (use flag_bits in \<open>auto simp: pdp_defs bit_facts bit_simps dest: bit_u64_less\<close>)

lemmas pml4_defs = pml4_entry_add_attr_def pml4_entry_del_attr_def pml4_entry_set_frame_def pml4_entry_get_pfn_def pml4_entry_is_writable_def pml4_entry_is_present_def pml4_entry_is_user_def

interpretation pml4_ops: entry_ops pml4_entry_add_attr pml4_entry_del_attr pml4_entry_set_frame pml4_entry_get_pfn pml4_entry_is_writable pml4_entry_is_present pml4_entry_is_user
  by unfold_locales (use flag_bits in \<open>auto simp: pml4_defs bit_facts bit_simps dest: bit_u64_less\<close>)

section \<open>Properties of the accessors\<close>

text \<open>
  An entry that is built from a frame number below \<open>2 ^ 36\<close> and a set of flag bits, at
  every level: the frame reads back, and each test is true exactly when its flag is set.
\<close>

theorem entry_of_frame_levels:
  assumes "unat p < 2 ^ 36" and "unat a < 4096"
  shows "(pte_entry_get_pfn (pte_entry_add_attr (pte_entry_set_frame 0 p) a) = push_bit 12 p \<and>
      (pte_entry_is_present (pte_entry_add_attr (pte_entry_set_frame 0 p) a) \<noteq> 0 \<longleftrightarrow> bit a 0) \<and>
      (pte_entry_is_writable (pte_entry_add_attr (pte_entry_set_frame 0 p) a) \<noteq> 0 \<longleftrightarrow> bit a 1) \<and>
      (pte_entry_is_user (pte_entry_add_attr (pte_entry_set_frame 0 p) a) \<noteq> 0 \<longleftrightarrow> bit a 2)) \<and>
    (pde_entry_get_pfn (pde_entry_add_attr (pde_entry_set_frame 0 p) a) = push_bit 12 p \<and>
      (pde_entry_is_present (pde_entry_add_attr (pde_entry_set_frame 0 p) a) \<noteq> 0 \<longleftrightarrow> bit a 0) \<and>
      (pde_entry_is_writable (pde_entry_add_attr (pde_entry_set_frame 0 p) a) \<noteq> 0 \<longleftrightarrow> bit a 1) \<and>
      (pde_entry_is_user (pde_entry_add_attr (pde_entry_set_frame 0 p) a) \<noteq> 0 \<longleftrightarrow> bit a 2)) \<and>
    (pdp_entry_get_pfn (pdp_entry_add_attr (pdp_entry_set_frame 0 p) a) = push_bit 12 p \<and>
      (pdp_entry_is_present (pdp_entry_add_attr (pdp_entry_set_frame 0 p) a) \<noteq> 0 \<longleftrightarrow> bit a 0) \<and>
      (pdp_entry_is_writable (pdp_entry_add_attr (pdp_entry_set_frame 0 p) a) \<noteq> 0 \<longleftrightarrow> bit a 1) \<and>
      (pdp_entry_is_user (pdp_entry_add_attr (pdp_entry_set_frame 0 p) a) \<noteq> 0 \<longleftrightarrow> bit a 2)) \<and>
    (pml4_entry_get_pfn (pml4_entry_add_attr (pml4_entry_set_frame 0 p) a) = push_bit 12 p \<and>
      (pml4_entry_is_present (pml4_entry_add_attr (pml4_entry_set_frame 0 p) a) \<noteq> 0 \<longleftrightarrow> bit a 0) \<and>
      (pml4_entry_is_writable (pml4_entry_add_attr (pml4_entry_set_frame 0 p) a) \<noteq> 0 \<longleftrightarrow> bit a 1) \<and>
      (pml4_entry_is_user (pml4_entry_add_attr (pml4_entry_set_frame 0 p) a) \<noteq> 0 \<longleftrightarrow> bit a 2))"
  using pte_ops.entry_of_frame [OF assms] pde_ops.entry_of_frame [OF assms]
    pdp_ops.entry_of_frame [OF assms] pml4_ops.entry_of_frame [OF assms] by blast

theorem entry_of_frame_levels_witness:
  "pte_entry_get_pfn (pte_entry_add_attr (pte_entry_set_frame 0 0x200) 3) = 0x200000 \<and>
   pml4_entry_is_user (pml4_entry_add_attr (pml4_entry_set_frame 0 0x200) 3) = 0"
  using entry_of_frame_levels [of "0x200" 3] by (simp add: bit_numeral_rec push_bit_eq_mult)

end
