(* ===== verification/Gdt.thy ===== *)
theory Gdt
  imports Prelude
begin

text \<open>
  Segment and interrupt descriptors: the task state segment descriptor that
  \<^verbatim>\<open>init_gdt\<close> of \<^verbatim>\<open>sys/gdt.c\<close> builds from bit fields, and the interrupt gates that
  \<^verbatim>\<open>setup_gate\<close> and \<^verbatim>\<open>idt_init\<close> of \<^verbatim>\<open>sys/idt.c\<close> install. The lemmas read the
  descriptors back the way the processor does.
\<close>

section \<open>The global descriptor table\<close>

definition GDT_CS :: u64 where "GDT_CS = 0x00180000000000"
definition GDT_DS :: u64 where "GDT_DS = 0x00100000000000"
definition DPL0 :: u64 where "DPL0 = 0"
definition DPL3 :: u64 where "DPL3 = 0x00600000000000"
definition seg_P :: u64 where "seg_P = 0x00800000000000"
definition seg_L :: u64 where "seg_L = 0x20000000000000"
definition seg_W :: u64 where "seg_W = 0x00020000000000"

definition gdt_initial :: "u64 list" where
  "gdt_initial =
     [0, GDT_CS OR seg_P OR DPL0 OR seg_L, GDT_DS OR seg_P OR seg_W OR DPL0,
      GDT_CS OR seg_P OR DPL3 OR seg_L, GDT_DS OR seg_P OR seg_W OR DPL3] @ replicate 27 0"

text \<open>A bit field of the packed descriptor: its place and width in the 128 bits of two entries.\<close>

type_synonym descr = "128 word"

definition put_field :: "nat \<Rightarrow> nat \<Rightarrow> u64 \<Rightarrow> descr \<Rightarrow> descr" where
  "put_field off n v d = (d AND NOT (push_bit off (mask n))) OR push_bit off (take_bit n (ucast v))"

definition get_field :: "nat \<Rightarrow> nat \<Rightarrow> descr \<Rightarrow> u64" where
  "get_field off n d = ucast (take_bit n (drop_bit off d))"

record gdt_st =
  gdt :: "u64 list"
  gdtr_loaded :: "(u64 \<times> u64) option"
  tr_loaded :: "u64 option"

text \<open>\<open>tss\<close> is the address the linker gives the variable \<^verbatim>\<open>tss\<close>; the structure has 104
  bytes. The two assembler routines load the table and the task register.\<close>

definition tss_descriptor :: "u64 \<Rightarrow> descr \<Rightarrow> descr" where
  "tss_descriptor tss d =
     (let d = put_field 0 16 (104 - 1) d;
          d = put_field 16 24 tss d;
          d = put_field 40 5 9 d;
          d = put_field 45 2 0 d;
          d = put_field 47 1 1 d;
          d = put_field 48 4 0 d;
          d = put_field 55 1 0 d
      in put_field 56 40 (drop_bit 24 tss) d)"

definition init_gdt :: "u64 \<Rightarrow> gdt_st \<Rightarrow> gdt_st" where
  "init_gdt tss g =
     (let d = ucast (gdt g ! 5) OR push_bit 64 (ucast (gdt g ! 6)) :: descr;
          d = tss_descriptor tss d;
          g = g\<lparr>gdt := (gdt g)[5 := ucast d, 6 := ucast (drop_bit 64 d)]\<rparr>;
          g = g\<lparr>gdtr_loaded := Some (8, 16)\<rparr>
      in g\<lparr>tr_loaded := Some 0x28\<rparr>)"

section \<open>Interrupt gates\<close>

record gate_str =
  offset_low :: u16
  selector :: u16
  ist :: u8
  reserved0 :: u8
  type_attr :: u8
  g_zero :: u8
  dpl :: u8
  g_p :: u8
  offset_mid :: u16
  offset_high :: u32
  reserved1 :: u32

type_synonym idt = "nat \<Rightarrow> gate_str"

text \<open>The number of a gate is an index of an array of 256; \<^verbatim>\<open>dpl\<close> has two bits.\<close>

definition setup_gate :: "idt \<Rightarrow> int \<Rightarrow> u64 \<Rightarrow> u32 \<Rightarrow> idt option" where
  "setup_gate I num handler_addr d =
     (if 0 \<le> num \<and> num < 256 then
        Some (I(nat num := (I (nat num))\<lparr>
          offset_low := ucast (handler_addr AND 0xFFFF),
          offset_mid := ucast (drop_bit 16 handler_addr AND 0xFFFF),
          offset_high := ucast (drop_bit 32 handler_addr AND 0xFFFFFFFF),
          selector := 0x08,
          type_attr := 0x0e,
          g_zero := 0,
          ist := 0,
          reserved0 := 0,
          g_p := 1,
          dpl := ucast (take_bit 2 d)\<rparr>))
      else None)"

text \<open>\<open>isr\<close> gives the addresses of the assembler entry points.\<close>

fun setup_gates :: "idt \<Rightarrow> (nat \<Rightarrow> u64) \<Rightarrow> (nat \<times> u32) list \<Rightarrow> idt option" where
  "setup_gates I isr [] = Some I"
| "setup_gates I isr ((n, d) # gs) = do { I \<leftarrow> setup_gate I (int n) (isr n) d; setup_gates I isr gs }"

definition idt_vectors :: "(nat \<times> u32) list" where
  "idt_vectors =
     [(0, 0), (1, 0), (3, 0), (4, 0), (5, 0), (6, 0), (7, 0), (8, 0), (9, 0), (10, 0), (11, 0), (12, 0),
      (13, 0), (14, 0), (16, 0), (17, 0), (18, 0), (19, 0), (20, 0), (32, 0), (33, 0), (128, 3)]"

definition idt_init :: "idt \<Rightarrow> (nat \<Rightarrow> u64) \<Rightarrow> idt option" where
  "idt_init I isr = setup_gates I isr idt_vectors"

section \<open>Reading descriptors\<close>

lemma bit_put_field:
  "off + n \<le> 128 \<Longrightarrow> n \<le> 64 \<Longrightarrow>
   bit (put_field off n v d) i \<longleftrightarrow> (if off \<le> i \<and> i < off + n then bit v (i - off) else bit d i)"
  unfolding put_field_def
  by (auto simp: bit_simps dest: bit_imp_le_length)

lemma bit_get_field: "off + n \<le> 128 \<Longrightarrow> n \<le> 64 \<Longrightarrow> bit (get_field off n d) i \<longleftrightarrow> i < n \<and> bit d (off + i)"
  unfolding get_field_def by (auto simp: bit_simps dest: bit_imp_le_length)

lemma get_put_same: "off + n \<le> 128 \<Longrightarrow> n \<le> 64 \<Longrightarrow> get_field off n (put_field off n v d) = take_bit n v"
  by (auto simp: word_bits_eq_iff bit_get_field bit_put_field bit_simps)

lemma get_put_other:
  "off + n \<le> 128 \<Longrightarrow> n \<le> 64 \<Longrightarrow> off' + n' \<le> 128 \<Longrightarrow> n' \<le> 64 \<Longrightarrow> off + n \<le> off' \<or> off' + n' \<le> off \<Longrightarrow>
   get_field off n (put_field off' n' v d) = get_field off n d"
  by (auto simp: word_bits_eq_iff bit_get_field bit_put_field)

text \<open>The base address the processor reads: 24 low bits, then 40 high bits.\<close>

definition descr_base :: "descr \<Rightarrow> u64" where
  "descr_base d = get_field 16 24 d OR push_bit 24 (get_field 56 40 d)"

definition descr_at :: "u64 list \<Rightarrow> nat \<Rightarrow> descr" where
  "descr_at t i = ucast (t ! i) OR push_bit 64 (ucast (t ! Suc i))"

lemma descr_split: "ucast (ucast d :: u64) OR push_bit 64 (ucast (ucast (drop_bit 64 d) :: u64)) = (d :: descr)"
  by (auto simp: word_bits_eq_iff bit_simps)

definition gate_offset :: "gate_str \<Rightarrow> u64" where
  "gate_offset g = ucast (offset_low g) OR push_bit 16 (ucast (offset_mid g)) OR push_bit 32 (ucast (offset_high g))"

lemma gate_offset_parts:
  "ucast (ucast (a AND 0xFFFF) :: u16) OR push_bit 16 (ucast (ucast (drop_bit 16 a AND 0xFFFF) :: u16)) OR
   push_bit 32 (ucast (ucast (drop_bit 32 a AND 0xFFFFFFFF) :: u32)) = (a :: u64)"
proof -
  have m: "(0xFFFF :: u64) = mask 16" "(0xFFFFFFFF :: u64) = mask 32" by (simp_all add: mask_eq_exp_minus_1)
  have "bit (ucast (ucast (a AND mask 16) :: u16) OR push_bit 16 (ucast (ucast (drop_bit 16 a AND mask 16) :: u16)) OR
     push_bit 32 (ucast (ucast (drop_bit 32 a AND mask 32) :: u32)) :: u64) n \<longleftrightarrow> bit a n" if "n < 64" for n
  proof -
    consider "n < 16" | "16 \<le> n" "n < 32" | "32 \<le> n" by linarith
    then show ?thesis using that by cases (auto simp: bit_simps)
  qed
  then show ?thesis unfolding m by (simp add: word_bits_eq_iff)
qed

section \<open>Properties\<close>

lemma descr_base_tss: "descr_base (tss_descriptor tss d) = tss"
proof -
  have lo: "get_field 16 24 (tss_descriptor tss d) = take_bit 24 tss"
    by (simp add: tss_descriptor_def Let_def get_put_same get_put_other)
  have hi: "get_field 56 40 (tss_descriptor tss d) = take_bit 40 (drop_bit 24 tss)"
    by (simp add: tss_descriptor_def Let_def get_put_same)
  have "bit (take_bit 24 tss OR push_bit 24 (take_bit 40 (drop_bit 24 tss))) n \<longleftrightarrow> bit tss n" if "n < 64" for n
    using that by (cases "n < 24") (auto simp: bit_simps)
  then show ?thesis unfolding descr_base_def lo hi by (simp add: word_bits_eq_iff)
qed

text \<open>
  C31. The descriptor that \<^verbatim>\<open>init_gdt\<close> leaves in entries 5 and 6 of the table describes the
  task state segment: its base is the address of the variable, its limit the size minus one, its type
  is an available 64-bit task segment, it is present and only for the kernel. The other entries and
  their number are unchanged.
\<close>

theorem init_gdt_tss:
  assumes "length (gdt g) = 32"
  shows "let d = descr_at (gdt (init_gdt tss g)) 5 in
    descr_base d = tss \<and> get_field 0 16 d = 103 \<and> get_field 48 4 d = 0 \<and> get_field 40 5 d = 9 \<and>
    get_field 45 2 d = 0 \<and> get_field 47 1 d = 1 \<and> tr_loaded (init_gdt tss g) = Some (8 * 5) \<and>
    length (gdt (init_gdt tss g)) = 32 \<and> (\<forall>i. i \<noteq> 5 \<and> i \<noteq> 6 \<longrightarrow> gdt (init_gdt tss g) ! i = gdt g ! i)"
proof -
  define d where "d = tss_descriptor tss (ucast (gdt g ! 5) OR push_bit 64 (ucast (gdt g ! 6)))"
  have g: "gdt (init_gdt tss g) = (gdt g)[5 := ucast d, 6 := ucast (drop_bit 64 d)]"
    by (simp add: init_gdt_def Let_def d_def)
  have "descr_at (gdt (init_gdt tss g)) 5 = d"
    using assms by (simp add: descr_at_def g descr_split)
  moreover have "descr_base d = tss" by (simp add: d_def descr_base_tss)
  moreover have "get_field 0 16 d = 103" "get_field 48 4 d = 0" "get_field 40 5 d = 9" "get_field 45 2 d = 0"
      "get_field 47 1 d = 1"
    by (simp_all add: d_def tss_descriptor_def Let_def get_put_same get_put_other)
  moreover have "tr_loaded (init_gdt tss g) = Some (8 * 5)" by (simp add: init_gdt_def Let_def)
  ultimately show ?thesis using assms by (simp add: Let_def g)
qed

theorem init_gdt_tss_witness:
  "descr_base (descr_at (gdt (init_gdt 0xFFFFFFFF80214000 \<lparr>gdt = gdt_initial, gdtr_loaded = None, tr_loaded = None\<rparr>)) 5)
     = 0xFFFFFFFF80214000"
  using init_gdt_tss [of "\<lparr>gdt = gdt_initial, gdtr_loaded = None, tr_loaded = None\<rparr>" "0xFFFFFFFF80214000"]
  by (simp add: gdt_initial_def Let_def)

lemma setup_gates_other:
  "setup_gates I isr gs = Some I' \<Longrightarrow> n \<notin> fst ` set gs \<Longrightarrow> I' n = I n"
proof (induction I isr gs rule: setup_gates.induct)
  case (2 I isr m d gs)
  then show ?case by (auto simp: setup_gate_def bind_eq_Some_conv split: if_splits)
qed simp

lemma setup_gates_ok:
  "\<forall>(n, d) \<in> set gs. n < 256 \<Longrightarrow> distinct (map fst gs) \<Longrightarrow>
   \<exists>I'. setup_gates I isr gs = Some I' \<and>
     (\<forall>(n, d) \<in> set gs. gate_offset (I' n) = isr n \<and> dpl (I' n) = ucast (take_bit 2 d) \<and> g_p (I' n) = 1 \<and>
        selector (I' n) = 8 \<and> type_attr (I' n) = 14)"
proof (induction I isr gs rule: setup_gates.induct)
  case (2 I isr n d gs)
  obtain I1 where I1: "setup_gate I (int n) (isr n) d = Some I1" using "2.prems"(1) by (simp add: setup_gate_def)
  have g: "gate_offset (I1 n) = isr n" "dpl (I1 n) = ucast (take_bit 2 d)" "g_p (I1 n) = 1" "selector (I1 n) = 8" "type_attr (I1 n) = 14"
    using I1 gate_offset_parts [of "isr n"] by (auto simp: setup_gate_def gate_offset_def split: if_splits)
  obtain I2 where I2: "setup_gates I1 isr gs = Some I2"
      "\<forall>(n, d) \<in> set gs. gate_offset (I2 n) = isr n \<and> dpl (I2 n) = ucast (take_bit 2 d) \<and> g_p (I2 n) = 1 \<and>
        selector (I2 n) = 8 \<and> type_attr (I2 n) = 14"
    using "2.IH" [OF I1] "2.prems" by auto
  have "I2 n = I1 n" by (rule setup_gates_other [OF I2(1)]) (use "2.prems"(2) in simp)
  then show ?case using I1 I2 g by auto
qed simp



end
