(* ===== verification/Links.thy ===== *)
theory Links
  imports Prelude
begin

text \<open>
  Singly linked lists in a store of records, as the kernel keeps its ready queue
  (\<^verbatim>\<open>ready_task\<close>, linked by \<^verbatim>\<open>next\<close>) and the memory areas of a task
  (\<^verbatim>\<open>vm_area_struct\<close>, linked by \<^verbatim>\<open>vm_next\<close>). \<open>chain\<close> relates a head
  pointer to the list of its nodes. The two walks of the kernel over such lists are modelled
  for any link field, and the locale \<open>linked\<close> proves what unlinking and appending do.
\<close>

fun chain :: "('r \<Rightarrow> u64) \<Rightarrow> (u64 \<rightharpoonup> 'r) \<Rightarrow> u64 \<Rightarrow> u64 list \<Rightarrow> bool" where
  "chain nxt R p [] \<longleftrightarrow> p = 0"
| "chain nxt R p (x # xs) \<longleftrightarrow>
     p = x \<and> x \<noteq> 0 \<and> (case R x of None \<Rightarrow> False | Some n \<Rightarrow> chain nxt R (nxt n) xs)"

text \<open>\<^verbatim>\<open>while (p->next != NULL) p = p->next\<close>.\<close>

partial_function (option) last_link :: "('r \<Rightarrow> u64) \<Rightarrow> (u64 \<rightharpoonup> 'r) \<Rightarrow> u64 \<Rightarrow> u64 option" where
  "last_link nxt R p = do { n \<leftarrow> R p; if nxt n = 0 then Some p else last_link nxt R (nxt n) }"

text \<open>\<^verbatim>\<open>while (p->next != target) p = p->next\<close>.\<close>

partial_function (option) prev_link :: "('r \<Rightarrow> u64) \<Rightarrow> (u64 \<rightharpoonup> 'r) \<Rightarrow> u64 \<Rightarrow> u64 \<Rightarrow> u64 option" where
  "prev_link nxt R p target =
     do { n \<leftarrow> R p; if nxt n = target then Some p else prev_link nxt R (nxt n) target }"

section \<open>Chains\<close>

lemma chain_Cons: "chain nxt R p (x # xs) \<longleftrightarrow> p = x \<and> x \<noteq> 0 \<and> (\<exists>n. R x = Some n \<and> chain nxt R (nxt n) xs)"
  by (auto split: option.splits)

declare chain.simps(2) [simp del]

lemma chain_det: "chain nxt R p xs \<Longrightarrow> chain nxt R p ys \<Longrightarrow> xs = ys"
proof (induction xs arbitrary: p ys)
  case Nil
  then show ?case by (cases ys) (auto simp: chain_Cons)
next
  case (Cons x xs)
  then show ?case by (cases ys) (fastforce simp: chain_Cons)+
qed

lemma chain_suffix: "chain nxt R p (xs @ y # ys) \<Longrightarrow> chain nxt R y (y # ys)"
  by (induction xs arbitrary: p) (auto simp: chain_Cons)

lemma chain_distinct: "chain nxt R p xs \<Longrightarrow> distinct xs"
proof (induction xs arbitrary: p)
  case (Cons x xs)
  then obtain n where n: "R x = Some n" "chain nxt R (nxt n) xs" and x: "chain nxt R x (x # xs)"
    by (auto simp: chain_Cons)
  have "x \<notin> set xs"
  proof
    assume "x \<in> set xs"
    then obtain us vs where xs: "xs = us @ x # vs" by (auto simp: in_set_conv_decomp)
    have "chain nxt R x (x # vs)" using n(2) chain_suffix unfolding xs by fastforce
    with x have "x # xs = x # vs" by (rule chain_det)
    with xs show False by simp
  qed
  with Cons.IH [OF n(2)] show ?case by simp
qed simp

lemma chain_frame: "(\<And>x. x \<in> set xs \<Longrightarrow> R' x = R x) \<Longrightarrow> chain nxt R' p xs = chain nxt R p xs"
  by (induction xs arbitrary: p) (auto simp: chain_Cons)

lemma chain_upd_other [simp]: "y \<notin> set xs \<Longrightarrow> chain nxt (R(y \<mapsto> n)) p xs = chain nxt R p xs"
  by (rule chain_frame) auto

lemma chain_notin_0: "chain nxt R p xs \<Longrightarrow> 0 \<notin> set xs"
  by (induction xs arbitrary: p) (auto simp: chain_Cons)

lemma chain_dom: "chain nxt R p xs \<Longrightarrow> x \<in> set xs \<Longrightarrow> \<exists>n. R x = Some n"
  by (induction xs arbitrary: p) (auto simp: chain_Cons)

lemma chain_hd: "chain nxt R p xs \<Longrightarrow> p = (case xs of [] \<Rightarrow> 0 | x # _ \<Rightarrow> x)"
  by (cases xs) (auto simp: chain_Cons)

lemma chain_next: "chain nxt R p (xs @ x # y # ys) \<Longrightarrow> \<exists>n. R x = Some n \<and> nxt n = y"
  using chain_suffix [of nxt R p xs x "y # ys"] by (auto simp: chain_Cons)

lemma chain_end: "chain nxt R p (xs @ [x]) \<Longrightarrow> \<exists>n. R x = Some n \<and> nxt n = 0"
  using chain_suffix [of nxt R p xs x "[]"] by (auto simp: chain_Cons)

lemma chain_0 [simp]: "chain nxt R 0 xs \<longleftrightarrow> xs = []"
  by (cases xs) (auto simp: chain_Cons)

section \<open>The walks\<close>

lemma last_link_chain: "chain nxt R p (xs @ [x]) \<Longrightarrow> last_link nxt R p = Some x"
  by (induction xs arbitrary: p; subst last_link.simps) (auto simp: chain_Cons)

lemma prev_link_chain:
  assumes "chain nxt R p (xs @ x # y # ys)"
  shows "prev_link nxt R p y = Some x"
proof -
  have d: "distinct (xs @ x # y # ys)" by (rule chain_distinct [OF assms])
  show ?thesis
    using assms d
  proof (induction xs arbitrary: p)
    case Nil
    then show ?case by (subst prev_link.simps) (auto simp: chain_Cons)
  next
    case (Cons a xs)
    then obtain n where n: "R p = Some n" "chain nxt R (nxt n) (xs @ x # y # ys)"
      by (auto simp: chain_Cons)
    have "nxt n \<noteq> y" using chain_hd [OF n(2)] Cons.prems(2) by (cases xs) auto
    moreover have "prev_link nxt R (nxt n) y = Some x" using Cons.IH [OF n(2)] Cons.prems(2) by simp
    ultimately show ?case using n by (subst prev_link.simps) simp
  qed
qed

text \<open>The search for the predecessor of the head, or of a pointer that is not in the list, runs
  through the null pointer.\<close>

lemma prev_link_none:
  assumes "chain nxt R p xs" and "R 0 = None" and "y \<notin> set (tl xs)" and "y \<noteq> 0"
  shows "prev_link nxt R p y = None"
  using assms
proof (induction xs arbitrary: p)
  case Nil
  then show ?case by (subst prev_link.simps) simp
next
  case (Cons a xs)
  then obtain n where n: "R p = Some n" "chain nxt R (nxt n) xs"
    by (auto simp: chain_Cons)
  have "nxt n \<noteq> y" using chain_hd [OF n(2)] Cons.prems by (cases xs) auto
  moreover have "prev_link nxt R (nxt n) y = None"
    using Cons.IH [OF n(2)] Cons.prems by (cases xs) auto
  ultimately show ?case using n by (subst prev_link.simps) simp
qed

section \<open>Changing links\<close>

locale linked =
  fixes nxt :: "'r \<Rightarrow> u64" and set_nxt :: "u64 \<Rightarrow> 'r \<Rightarrow> 'r"
  assumes nxt_set: "nxt (set_nxt p r) = p"
begin

lemma chain_unlink:
  assumes "chain nxt R p (xs @ x # y # ys)" and "R x = Some nx" and "R y = Some ny"
  shows "chain nxt (R(x \<mapsto> set_nxt (nxt ny) nx)) p (xs @ x # ys)"
proof -
  have d: "distinct (xs @ x # y # ys)" by (rule chain_distinct [OF assms(1)])
  show ?thesis
    using assms d by (induction xs arbitrary: p) (auto simp: chain_Cons nxt_set)
qed

lemma chain_append:
  assumes "chain nxt R p (xs @ [x])" and "R x = Some nx"
    and "y \<noteq> 0" and "y \<notin> set xs" and "y \<noteq> x" and "nxt ny = 0"
  shows "chain nxt (R(y \<mapsto> ny, x \<mapsto> set_nxt y nx)) p (xs @ [x, y])"
proof -
  have d: "distinct (xs @ [x])" by (rule chain_distinct [OF assms(1)])
  show ?thesis
    using assms d by (induction xs arbitrary: p) (auto simp: chain_Cons nxt_set)
qed

end

end
