(* ===== verification/Process.thy ===== *)
theory Process
  imports Paging Links
begin

text \<open>
  Tasks and the ready queue of \<^verbatim>\<open>sys/process.c\<close>. The structures
  \<^verbatim>\<open>task_struct\<close> and \<^verbatim>\<open>ready_task\<close> are kept in typed stores that map the
  pointers \<^verbatim>\<open>kmalloc\<close> returned to records; a dereference of any other pointer, the
  null pointer included, has no defined result. \<open>chain\<close> relates the links of the queue to
  the list of its nodes; the queue operations are then operations on that list.
\<close>

section \<open>State\<close>

text \<open>\<^verbatim>\<open>STACK_SIZE\<close> entries of \<^verbatim>\<open>kstack\<close> and 100 bytes of \<^verbatim>\<open>tname\<close> are
  functions from the index; the offset of \<^verbatim>\<open>kstack\<close> in the structure is 8.\<close>

record task_struct =
  t_rsp :: u64
  kstack :: "nat \<Rightarrow> u64"
  ustack :: u64
  pid :: u64
  ppid :: u64
  t_cr3 :: u64
  tname :: "nat \<Rightarrow> u8"
  mm :: u64
  t_pml4 :: u64
  exit_status :: u32
  t_entry :: u64
  is_waiting :: u64
  sleep_time :: u64
  is_sleeping :: u64
  is_bg :: u64

record ready_task =
  rt_process :: u64
  rt_next :: u64
  rt_prev :: u64

record vm_area_struct =
  vm_mm :: u64
  vm_start :: u64
  vm_end :: u64
  vm_file :: u64
  vm_pgoff :: u64
  vm_flags :: u64
  vm_mmsz :: u64
  vm_next :: u64

record mm_struct =
  mm_count :: u32
  mm_mmap :: u64

text \<open>The lines the process code prints, with their arguments.\<close>

datatype task_status = Waiting | Sleeping | Running

datatype kmsg =
    Ps_header
  | Ps_line u64 "nat \<Rightarrow> u8" task_status
  | Pid_not_found u64
  | Session_terminated
  | Cannot_kill_kernel
  | Say string

record ksys =
  vm :: vmst
  tasks :: "u64 \<rightharpoonup> task_struct"
  rtasks :: "u64 \<rightharpoonup> ready_task"
  mms :: "u64 \<rightharpoonup> mm_struct"
  queue_head :: u64
  running_task :: u64
  previous :: u64
  task_count :: int
  PID :: int
  tss_rsp0 :: u64
  cpu_rsp :: u64
  klog :: "kmsg list"

definition say :: "ksys \<Rightarrow> kmsg \<Rightarrow> ksys" where
  "say s msg = s\<lparr>klog := klog s @ [msg]\<rparr>"

text \<open>A task structure in memory that \<^verbatim>\<open>kmalloc\<close> cleared; its size is 32976.\<close>

definition zero_task :: task_struct where
  "zero_task = \<lparr>t_rsp = 0, kstack = (\<lambda>_. 0), ustack = 0, pid = 0, ppid = 0, t_cr3 = 0, tname = (\<lambda>_. 0), mm = 0,
     t_pml4 = 0, exit_status = 0, t_entry = 0, is_waiting = 0, sleep_time = 0, is_sleeping = 0, is_bg = 0\<rparr>"

section \<open>Access to the stores\<close>

definition next_of :: "ksys \<Rightarrow> u64 \<Rightarrow> u64 option" where
  "next_of s node = do { n \<leftarrow> rtasks s node; Some (rt_next n) }"

definition proc_of :: "ksys \<Rightarrow> u64 \<Rightarrow> u64 option" where
  "proc_of s node = do { n \<leftarrow> rtasks s node; Some (rt_process n) }"

definition task_at :: "ksys \<Rightarrow> u64 \<Rightarrow> task_struct option" where
  "task_at s node = do { p \<leftarrow> proc_of s node; tasks s p }"

definition set_next :: "ksys \<Rightarrow> u64 \<Rightarrow> u64 \<Rightarrow> ksys option" where
  "set_next s node x = do { n \<leftarrow> rtasks s node; Some (s\<lparr>rtasks := (rtasks s)(node \<mapsto> n\<lparr>rt_next := x\<rparr>)\<rparr>) }"

definition upd_task :: "ksys \<Rightarrow> u64 \<Rightarrow> (task_struct \<Rightarrow> task_struct) \<Rightarrow> ksys option" where
  "upd_task s p f = do { t \<leftarrow> tasks s p; Some (s\<lparr>tasks := (tasks s)(p \<mapsto> f t)\<rparr>) }"

definition get_running_task :: "ksys \<Rightarrow> u64 option" where
  "get_running_task s = proc_of s (running_task s)"

text \<open>\<^verbatim>\<open>kmalloc\<close> on the whole state.\<close>

definition ksys_kmalloc :: "ksys \<Rightarrow> u64 \<Rightarrow> (ksys \<times> u64) option" where
  "ksys_kmalloc s sz =
     do { (k, p) \<leftarrow> kmalloc (vkst (vm s)) sz; Some (s\<lparr>vm := (vm s)\<lparr>vkst := k\<rparr>\<rparr>, p) }"

section \<open>Loops over the queue\<close>

text \<open>The first node whose process has the given number, or the null pointer.\<close>

partial_function (option) find_pid :: "ksys \<Rightarrow> u64 \<Rightarrow> u64 \<Rightarrow> u64 option" where
  "find_pid s temp n =
     (if temp = 0 then Some 0
      else do { t \<leftarrow> task_at s temp;
                if pid t = n then Some temp
                else do { nx \<leftarrow> next_of s temp; find_pid s nx n } })"

text \<open>\<^verbatim>\<open>while (temp->next != target) temp = temp->next\<close>.\<close>

definition find_prev :: "ksys \<Rightarrow> u64 \<Rightarrow> u64 \<Rightarrow> u64 option" where
  "find_prev s temp target = prev_link rt_next (rtasks s) temp target"

text \<open>\<^verbatim>\<open>while (queue_head->next != NULL) queue_head = queue_head->next\<close>.\<close>

definition find_last :: "ksys \<Rightarrow> u64 \<Rightarrow> u64 option" where
  "find_last s temp = last_link rt_next (rtasks s) temp"

partial_function (option) print_loop :: "ksys \<Rightarrow> u64 \<Rightarrow> ksys option" where
  "print_loop s temp =
     (if temp = 0 then Some s
      else do { t \<leftarrow> task_at s temp;
                let s = say s (Ps_line (pid t) (tname t)
                    (if 0 < is_waiting t then Waiting else if is_sleeping t = 1 then Sleeping else Running));
                nx \<leftarrow> next_of s temp;
                print_loop s nx })"

definition print_task_list :: "ksys \<Rightarrow> ksys option" where
  "print_task_list s = print_loop (say s Ps_header) (queue_head s)"

definition sleep_tick :: "task_struct \<Rightarrow> task_struct" where
  "sleep_tick t =
     (if is_sleeping t = 1 then
        let t = t\<lparr>sleep_time := sleep_time t - 1\<rparr>
        in if sleep_time t = 0 then t\<lparr>is_sleeping := 0\<rparr> else t
      else t)"

partial_function (option) dec_sleep_loop :: "ksys \<Rightarrow> u64 \<Rightarrow> ksys option" where
  "dec_sleep_loop s temp =
     (if temp = 0 then Some s
      else do { p \<leftarrow> proc_of s temp;
                s \<leftarrow> upd_task s p sleep_tick;
                nx \<leftarrow> next_of s temp;
                dec_sleep_loop s nx })"

definition dec_sleep_count :: "ksys \<Rightarrow> ksys option" where
  "dec_sleep_count s = dec_sleep_loop s (queue_head s)"

section \<open>Queue operations\<close>

definition delete_curr_from_task_list :: "ksys \<Rightarrow> ksys option" where
  "delete_curr_from_task_list s =
     do { temp \<leftarrow> find_prev s (queue_head s) (running_task s);
          nx \<leftarrow> next_of s (running_task s);
          s \<leftarrow> (if nx \<noteq> 0 then set_next s temp nx else set_next s temp 0);
          let s = s\<lparr>running_task := 0\<rparr>;
          if int_ok (task_count s - 1) then Some (s\<lparr>task_count := task_count s - 1\<rparr>) else None }"

definition delete_from_task_list :: "ksys \<Rightarrow> u64 \<Rightarrow> ksys option" where
  "delete_from_task_list s n =
     do { temp \<leftarrow> find_pid s (queue_head s) n;
          if temp = 0 then Some (say s (Pid_not_found n))
          else if temp = previous s then
            do { temp \<leftarrow> find_prev s (queue_head s) (previous s);
                 nx \<leftarrow> next_of s (previous s);
                 if nx \<noteq> 0 then set_next s temp nx else set_next s temp 0 }
          else if temp = queue_head s then
            do { nx \<leftarrow> next_of s temp; Some (s\<lparr>queue_head := nx\<rparr>) }
          else
            do { let del = temp;
                 temp \<leftarrow> find_prev s (queue_head s) del;
                 nx \<leftarrow> next_of s del;
                 if nx \<noteq> 0 then set_next s temp nx else set_next s temp 0 } }"

text \<open>A node that \<^verbatim>\<open>kmalloc\<close> did not provide cannot be written.\<close>

definition new_node :: "ksys \<Rightarrow> u64 \<Rightarrow> (ksys \<times> u64) option" where
  "new_node s process =
     do { (s, p) \<leftarrow> ksys_kmalloc s 24;
          if p = 0 then None
          else Some (s\<lparr>rtasks := (rtasks s)(p \<mapsto> \<lparr>rt_process = process, rt_next = 0, rt_prev = 0\<rparr>)\<rparr>, p) }"

definition add_to_task_list :: "ksys \<Rightarrow> u64 \<Rightarrow> ksys option" where
  "add_to_task_list s process =
     (if queue_head s = 0 then
        do { (s, p) \<leftarrow> new_node s process;
             Some (s\<lparr>queue_head := p, running_task := p, task_count := 1\<rparr>) }
      else
        do { last \<leftarrow> find_last s (queue_head s);
             (s, p) \<leftarrow> new_node s process;
             s \<leftarrow> set_next s last p;
             if int_ok (task_count s + 1) then Some (s\<lparr>task_count := task_count s + 1\<rparr>) else None })"

definition is_child_done :: "ksys \<Rightarrow> u64 \<Rightarrow> int option" where
  "is_child_done s n =
     do { temp \<leftarrow> find_pid s (queue_head s) n;
          if temp = 0 then Some 1
          else do { t \<leftarrow> task_at s temp; if is_sleeping t = 0 then Some 1 else Some 0 } }"

section \<open>schedule and switch_to\<close>

text \<open>\<^verbatim>\<open>if (temp->process->is_waiting > 0 && is_child_done(...)) temp->process->is_waiting = 0\<close>.\<close>

definition wake :: "ksys \<Rightarrow> u64 \<Rightarrow> ksys option" where
  "wake s temp =
     do { p \<leftarrow> proc_of s temp;
          t \<leftarrow> tasks s p;
          if 0 < is_waiting t then
            do { d \<leftarrow> is_child_done s (is_waiting t);
                 if d \<noteq> 0 then upd_task s p (is_waiting_update (\<lambda>_. 0)) else Some s }
          else Some s }"

partial_function (option) sched_skip :: "ksys \<Rightarrow> u64 \<Rightarrow> (ksys \<times> u64) option" where
  "sched_skip s temp =
     do { nx \<leftarrow> next_of s temp;
          if nx = 0 then Some (s, temp)
          else do { t \<leftarrow> task_at s nx;
                    if is_sleeping t \<noteq> 0 \<or> 0 < is_waiting t then
                      do { s \<leftarrow> wake s temp; sched_skip s nx }
                    else Some (s, temp) } }"

definition set_tss_rsp :: "ksys \<Rightarrow> u64 \<Rightarrow> ksys" where
  "set_tss_rsp s p = s\<lparr>tss_rsp0 := p\<rparr>"

text \<open>The three assembler lines: save the stack pointer, load the address space and the stack pointer.\<close>

definition switch_to :: "ksys \<Rightarrow> u64 \<Rightarrow> u64 \<Rightarrow> int \<Rightarrow> ksys option" where
  "switch_to s nxt me first_switch =
     do { s \<leftarrow> (if first_switch = 0 then upd_task s me (t_rsp_update (\<lambda>_. cpu_rsp s)) else Some s);
          t \<leftarrow> tasks s nxt;
          let s = s\<lparr>vm := (vm s)\<lparr>cr3 := t_cr3 t\<rparr>\<rparr>;
          Some (s\<lparr>cpu_rsp := t_rsp t\<rparr>) }"

text \<open>The choice of the next node, before the switch.\<close>

definition sched_choose :: "ksys \<Rightarrow> ksys option" where
  "sched_choose s =
     (if running_task s = 0 then
        do { nx \<leftarrow> next_of s (previous s);
             if nx = 0 then Some (s\<lparr>running_task := queue_head s\<rparr>)
             else do { (s, temp) \<leftarrow> sched_skip s (previous s);
                       s \<leftarrow> wake s temp;
                       nx \<leftarrow> next_of s temp;
                       if nx \<noteq> 0 then Some (s\<lparr>running_task := nx\<rparr>)
                       else Some (s\<lparr>running_task := queue_head s\<rparr>) } }
      else
        do { (s, temp) \<leftarrow> sched_skip s (running_task s);
             s \<leftarrow> wake s temp;
             nx \<leftarrow> next_of s temp;
             let s = s\<lparr>previous := running_task s\<rparr>;
             if nx \<noteq> 0 then Some (s\<lparr>running_task := nx\<rparr>)
             else Some (s\<lparr>running_task := queue_head s\<rparr>) })"

definition schedule :: "ksys \<Rightarrow> int \<Rightarrow> ksys option" where
  "schedule s first_switch =
     do { s \<leftarrow> sched_choose s;
          p \<leftarrow> proc_of s (running_task s);
          let s = set_tss_rsp s (p + 8 + 8 * 511);
          me \<leftarrow> proc_of s (previous s);
          switch_to s p me first_switch }"

section \<open>System calls on tasks\<close>

definition sys_exit :: "ksys \<Rightarrow> u64 \<Rightarrow> ksys option" where
  "sys_exit s status = do { s \<leftarrow> delete_curr_from_task_list s; schedule s 1 }"

text \<open>
  \<^verbatim>\<open>str_cmp(temp->process->tname, kernel)\<close> with \<^verbatim>\<open>kernel = "root"\<close>
  (\<^verbatim>\<open>sys/main.c\<close>): the two texts side by side in a memory of their own.
\<close>

definition kernel_name :: "u8 list" where
  "kernel_name = [114, 111, 111, 116]"

definition name_mem :: "(nat \<Rightarrow> u8) \<Rightarrow> mem" where
  "name_mem nm a = (if a < 128 then nm a else if a - 128 < 4 then kernel_name ! (a - 128) else 0)"

definition kernel_cmp :: "(nat \<Rightarrow> u8) \<Rightarrow> int option" where
  "kernel_cmp nm = str_cmp (name_mem nm) 0 128"

partial_function (option) kill_loop :: "ksys \<Rightarrow> u64 \<Rightarrow> u64 \<Rightarrow> ksys option" where
  "kill_loop s temp n =
     (if temp = 0 then do { s \<leftarrow> delete_from_task_list s n; schedule s 0 }
      else do { t \<leftarrow> task_at s temp;
                c \<leftarrow> (if pid t = n then kernel_cmp (tname t) else Some 0);
                if pid t = n \<and> c = 1 then schedule (say s Cannot_kill_kernel) 0
                else if pid t = n \<and> temp = running_task s then
                  do { s \<leftarrow> delete_curr_from_task_list s; schedule s 1 }
                else do { nx \<leftarrow> next_of s temp; kill_loop s nx n } })"

definition sys_kill :: "ksys \<Rightarrow> u64 \<Rightarrow> ksys option" where
  "sys_kill s n =
     do { t \<leftarrow> task_at s (running_task s);
          if ppid t = n then
            do { s \<leftarrow> delete_from_task_list (say s Session_terminated) n; schedule s 0 }
          else kill_loop s (queue_head s) n }"

text \<open>The two search loops of \<^verbatim>\<open>sys_waitpid\<close>; \<open>p\<close> is the test on a task.\<close>

partial_function (option) wait_loop :: "ksys \<Rightarrow> u64 \<Rightarrow> u64 \<Rightarrow> (task_struct \<Rightarrow> bool) \<Rightarrow> (ksys \<times> u64) option" where
  "wait_loop s current temp p =
     (if temp = 0 then Some (s, 0)
      else do { t \<leftarrow> task_at s temp;
                if p t then
                  do { child \<leftarrow> proc_of s temp;
                       s \<leftarrow> upd_task s current (is_waiting_update (\<lambda>_. pid t));
                       s \<leftarrow> schedule s 0;
                       t \<leftarrow> tasks s child;
                       Some (s, pid t) }
                else do { nx \<leftarrow> next_of s temp; wait_loop s current nx p } })"

definition sys_waitpid :: "ksys \<Rightarrow> u64 \<Rightarrow> u64 \<Rightarrow> (ksys \<times> u64) option" where
  "sys_waitpid s n bg =
     (if bg = 1 then Some (s, 0)
      else do { current \<leftarrow> get_running_task s;
                t \<leftarrow> tasks s current;
                if n = 0 then wait_loop s current (queue_head s) (\<lambda>c. ppid c = pid t \<and> is_bg c \<noteq> 1)
                else wait_loop s current (queue_head s) (\<lambda>c. pid c = n) })"

definition sys_sleep :: "ksys \<Rightarrow> int \<Rightarrow> ksys option" where
  "sys_sleep s time =
     do { current \<leftarrow> get_running_task s;
          s \<leftarrow> upd_task s current (\<lambda>t. t\<lparr>sleep_time := of_int time, is_sleeping := 1\<rparr>);
          schedule s 0 }"

section \<open>Memory areas\<close>

text \<open>
  Memory areas are kept in the flat memory, since \<^verbatim>\<open>vma_malloc\<close> places them where the
  allocator may later place something else.
\<close>

abbreviation kmem_of :: "ksys \<Rightarrow> mem" where
  "kmem_of s \<equiv> kmem (vkst (vm s))"

definition set_kmem :: "ksys \<Rightarrow> mem \<Rightarrow> ksys" where
  "set_kmem s m = s\<lparr>vm := (vm s)\<lparr>vkst := (vkst (vm s))\<lparr>kmem := m\<rparr>\<rparr>\<rparr>"

definition vma_at :: "mem \<Rightarrow> u64 \<Rightarrow> vm_area_struct" where
  "vma_at m p =
     (let a = loc p in
      \<lparr>vm_mm = ld64 m a, vm_start = ld64 m (a + 8), vm_end = ld64 m (a + 16), vm_file = ld64 m (a + 24),
       vm_pgoff = ld64 m (a + 32), vm_flags = ld64 m (a + 40), vm_mmsz = ld64 m (a + 48), vm_next = ld64 m (a + 56)\<rparr>)"

definition vma_store :: "mem \<Rightarrow> u64 \<rightharpoonup> vm_area_struct" where
  "vma_store m p = (if p = 0 then None else Some (vma_at m p))"

definition last_vma :: "ksys \<Rightarrow> u64 \<Rightarrow> u64 option" where
  "last_vma s p = last_link vm_next (vma_store (kmem_of s)) p"

text \<open>
  \<^verbatim>\<open>vma_malloc\<close> of \<^verbatim>\<open>sys/mem.c\<close>. \<^verbatim>\<open>vma + sizeof(struct vm_area_struct)\<close> moves
  the pointer by 64 structures of 64 bytes.
\<close>

definition vma_malloc :: "ksys \<Rightarrow> u64 \<Rightarrow> (ksys \<times> u64) option" where
  "vma_malloc s mmp =
     do { m \<leftarrow> mms s mmp;
          if mm_mmap m \<noteq> 0 then
            do { vma \<leftarrow> last_vma s (mm_mmap m);
                 let nv = vma + 64 * 64;
                 let s = set_kmem s (st64 (kmem_of s) (loc vma + 56) nv);
                 Some (s\<lparr>mms := (mms s)(mmp \<mapsto> m\<lparr>mm_count := mm_count m + 1\<rparr>)\<rparr>, nv) }
          else
            do { (s, vma) \<leftarrow> ksys_kmalloc s 64;
                 Some (s\<lparr>mms := (mms s)(mmp \<mapsto> m\<lparr>mm_mmap := vma, mm_count := mm_count m + 1\<rparr>)\<rparr>, vma) } }"

end
