(* ===== verification/TaskQueue.thy ===== *)
theory TaskQueue
  imports Process
begin

text \<open>
  What the queue operations of \<^verbatim>\<open>sys/process.c\<close> do to the list of ready tasks.
  \<open>ready_queue s xs\<close> says that the links from \<^verbatim>\<open>queue_head\<close> run through exactly the
  nodes \<open>xs\<close>, that each of them has a process of its own and that the null pointer is not a
  node. \<^verbatim>\<open>add_to_task_list\<close> appends and the two delete operations remove one node.
\<close>

interpretation rt: linked rt_next "\<lambda>p. rt_next_update (\<lambda>_. p)"
  by unfold_locales simp

interpretation vma: linked vm_next "\<lambda>p. vm_next_update (\<lambda>_. p)"
  by unfold_locales simp

section \<open>The queue as a list\<close>

definition nproc :: "ksys \<Rightarrow> u64 \<Rightarrow> u64" where
  "nproc s x = rt_process (the (rtasks s x))"

definition ntask :: "ksys \<Rightarrow> u64 \<Rightarrow> task_struct" where
  "ntask s x = the (tasks s (nproc s x))"

definition ready_queue :: "ksys \<Rightarrow> u64 list \<Rightarrow> bool" where
  "ready_queue s xs \<longleftrightarrow> chain rt_next (rtasks s) (queue_head s) xs \<and> rtasks s 0 = None \<and>
     distinct (map (nproc s) xs) \<and> (\<forall>x \<in> set xs. tasks s (nproc s x) \<noteq> None)"

lemma ready_queueD:
  assumes "ready_queue s xs"
  shows "chain rt_next (rtasks s) (queue_head s) xs" "rtasks s 0 = None"
    "distinct (map (nproc s) xs)" "distinct xs" "0 \<notin> set xs"
  using assms unfolding ready_queue_def by (auto dest: chain_distinct chain_notin_0)

lemma rq_node:
  assumes "ready_queue s xs" and "x \<in> set xs"
  shows "proc_of s x = Some (nproc s x)" "tasks s (nproc s x) = Some (ntask s x)"
    "task_at s x = Some (ntask s x)" "x \<noteq> 0" "\<exists>n. rtasks s x = Some n"
  using assms chain_dom [OF ready_queueD(1) [OF assms(1)] assms(2)] chain_notin_0 [OF ready_queueD(1) [OF assms(1)]]
  by (auto simp: proc_of_def task_at_def nproc_def ntask_def ready_queue_def)

lemma nproc_cong: "rtasks s' = rtasks s \<Longrightarrow> nproc s' = nproc s"
  by (simp add: nproc_def fun_eq_iff)

lemma ready_queue_cong:
  "\<lbrakk> ready_queue s xs; rtasks s' = rtasks s; queue_head s' = queue_head s;
     \<And>p. tasks s p \<noteq> None \<Longrightarrow> tasks s' p \<noteq> None \<rbrakk> \<Longrightarrow> ready_queue s' xs"
  using nproc_cong [of s' s] unfolding ready_queue_def by simp

definition first_of :: "u64 list \<Rightarrow> u64" where
  "first_of xs = (case xs of [] \<Rightarrow> 0 | x # _ \<Rightarrow> x)"

lemma first_of_simps [simp]: "first_of [] = 0" "first_of (x # xs) = x"
  by (simp_all add: first_of_def)

lemma rq_next: "ready_queue s (us @ x # vs) \<Longrightarrow> next_of s x = Some (first_of vs)"
  using chain_suffix [OF ready_queueD(1), of s us x vs]
  by (auto dest: chain_hd simp: chain_Cons next_of_def first_of_def)

lemma rq_head: "ready_queue s xs \<Longrightarrow> queue_head s = first_of xs"
  by (auto dest!: ready_queueD(1) chain_hd simp: first_of_def)

lemma rq_same_proc:
  "ready_queue s xs \<Longrightarrow> x \<in> set xs \<Longrightarrow> y \<in> set xs \<Longrightarrow> nproc s x = nproc s y \<longleftrightarrow> x = y"
  by (auto dest!: ready_queueD(3) simp: distinct_map inj_on_def)

section \<open>Searching\<close>

lemma find_pid_chain:
  assumes "chain rt_next (rtasks s) p xs" and "\<And>x. x \<in> set xs \<Longrightarrow> task_at s x = Some (ntask s x)"
  shows "find_pid s p n = Some (first_of (filter (\<lambda>x. pid (ntask s x) = n) xs))"
  using assms
proof (induction xs arbitrary: p)
  case (Cons x xs)
  then show ?case by (subst find_pid.simps) (auto simp: chain_Cons next_of_def)
qed (simp add: find_pid.simps)

lemma find_pid_queue:
  "ready_queue s xs \<Longrightarrow>
   find_pid s (queue_head s) n = Some (first_of (filter (\<lambda>x. pid (ntask s x) = n) xs))"
  by (rule find_pid_chain) (auto dest: ready_queueD(1) rq_node(3))

lemma first_of_filter:
  assumes "0 \<notin> set xs"
  shows "first_of (filter P xs) = 0 \<longleftrightarrow> (\<forall>x \<in> set xs. \<not> P x)"
    and "first_of (filter P xs) \<noteq> 0 \<Longrightarrow> first_of (filter P xs) \<in> set xs \<and> P (first_of (filter P xs))"
  using assms by (induction xs) auto

lemma is_child_done_queue:
  assumes "ready_queue s xs"
  shows "is_child_done s n =
    Some (if \<exists>x \<in> set xs. pid (ntask s x) = n
          then (if is_sleeping (ntask s (first_of (filter (\<lambda>x. pid (ntask s x) = n) xs))) = 0 then 1 else 0)
          else 1)"
proof -
  let ?x = "first_of (filter (\<lambda>x. pid (ntask s x) = n) xs)"
  note z = ready_queueD(5) [OF assms]
  show ?thesis
  proof (cases "?x = 0")
    case True
    then show ?thesis
      using first_of_filter(1) [OF z, of "\<lambda>x. pid (ntask s x) = n"]
      by (simp add: is_child_done_def find_pid_queue [OF assms])
  next
    case False
    have "?x \<in> set xs \<and> pid (ntask s ?x) = n" by (rule first_of_filter(2) [OF z False])
    moreover from this have "task_at s ?x = Some (ntask s ?x)" using rq_node(3) [OF assms] by blast
    ultimately show ?thesis
      using False by (auto simp: is_child_done_def find_pid_queue [OF assms])
  qed
qed

section \<open>Unlinking\<close>

text \<open>The state after a node has been given a new successor.\<close>

definition relinked :: "ksys \<Rightarrow> u64 \<Rightarrow> u64 \<Rightarrow> ksys" where
  "relinked s x y = s\<lparr>rtasks := (rtasks s)(x \<mapsto> (the (rtasks s x))\<lparr>rt_next := y\<rparr>)\<rparr>"

lemma relinked_fields [simp]:
  "vm (relinked s x y) = vm s" "tasks (relinked s x y) = tasks s" "mms (relinked s x y) = mms s"
  "queue_head (relinked s x y) = queue_head s"
  "running_task (relinked s x y) = running_task s" "previous (relinked s x y) = previous s"
  "task_count (relinked s x y) = task_count s" "PID (relinked s x y) = PID s"
  "klog (relinked s x y) = klog s"
  by (simp_all add: relinked_def)

lemma relinked_node [simp]:
  "rtasks s x \<noteq> None \<Longrightarrow> nproc (relinked s x y) = nproc s"
  "rtasks s x \<noteq> None \<Longrightarrow> ntask (relinked s x y) = ntask s"
  by (auto simp: nproc_def ntask_def relinked_def fun_eq_iff)

lemma set_next_relinked: "rtasks s x \<noteq> None \<Longrightarrow> set_next s x y = Some (relinked s x y)"
  by (auto simp: set_next_def relinked_def)

lemma relinked_queue:
  assumes "ready_queue s (us @ x # y # vs)"
  shows "ready_queue (relinked s x (first_of vs)) (us @ x # vs)"
proof -
  obtain nx ny where n: "rtasks s x = Some nx" "rtasks s y = Some ny"
    using rq_node(5) [OF assms, of x] rq_node(5) [OF assms, of y] by auto
  have "rt_next ny = first_of vs"
    using rq_next [of s "us @ [x]" y vs] assms n by (simp add: next_of_def)
  then have "chain rt_next (rtasks (relinked s x (first_of vs))) (queue_head s) (us @ x # vs)"
    using rt.chain_unlink [OF ready_queueD(1) [OF assms] n] n by (simp add: relinked_def)
  moreover have "rtasks (relinked s x (first_of vs)) 0 = None"
    using ready_queueD(2) [OF assms] rq_node(4) [OF assms, of x] by (simp add: relinked_def)
  ultimately show ?thesis
    using assms n unfolding ready_queue_def by auto
qed

lemma split_pred:
  assumes "x \<in> set xs" and "x \<noteq> first_of xs"
  shows "\<exists>us p vs. xs = us @ p # x # vs"
proof -
  obtain us vs where xs: "xs = us @ x # vs" using assms(1) by (auto simp: in_set_conv_decomp)
  with assms(2) have "us \<noteq> []" by auto
  with xs show ?thesis by (cases us rule: rev_cases) auto
qed

lemma unlink_step:
  assumes "ready_queue s (us @ p # x # vs)"
  shows "do { temp \<leftarrow> find_prev s (queue_head s) x; nx \<leftarrow> next_of s x;
              if nx \<noteq> 0 then set_next s temp nx else set_next s temp 0 } = Some (relinked s p (first_of vs))"
proof -
  have "find_prev s (queue_head s) x = Some p"
    unfolding find_prev_def by (rule prev_link_chain [OF ready_queueD(1) [OF assms]])
  moreover have "next_of s x = Some (first_of vs)"
    using rq_next [of s "us @ [p]" x vs] assms by simp
  moreover have "set_next s p y = Some (relinked s p y)" for y
    using rq_node(5) [OF assms, of p] by (intro set_next_relinked) auto
  ultimately show ?thesis by simp
qed

lemma find_prev_head:
  assumes "ready_queue s xs" and "x = first_of xs" and "xs \<noteq> []"
  shows "find_prev s (queue_head s) x = None"
  unfolding find_prev_def
proof (rule prev_link_none [OF ready_queueD(1,2) [OF assms(1)]])
  show "x \<notin> set (tl xs)" "x \<noteq> 0"
    using assms ready_queueD(4,5) [OF assms(1)] by (cases xs; auto)+
qed

lemma remove_split: "distinct (us @ x # vs) \<Longrightarrow> remove1 x (us @ x # vs) = us @ vs"
  by (induction us) auto

section \<open>The operations on the list\<close>

definition frame_ptr :: "nat \<Rightarrow> u64" where
  "frame_ptr f = VADDR (of_nat (4096 * f))"

text \<open>Nodes come from \<^verbatim>\<open>kmalloc\<close>: they lie in pages that are taken.\<close>

definition nodes_below :: "ksys \<Rightarrow> nat \<Rightarrow> bool" where
  "nodes_below s lo \<longleftrightarrow> (\<forall>x. rtasks s x \<noteq> None \<longrightarrow> (\<exists>f<lo. x = frame_ptr f))"

definition queue_inv :: "ksys \<Rightarrow> u64 list \<Rightarrow> nat \<Rightarrow> nat \<Rightarrow> nat \<Rightarrow> bool" where
  "queue_inv s xs lo hi n \<longleftrightarrow> ready_queue s xs \<and> fl_inv (vkst (vm s)) lo hi n \<and> nodes_below s lo \<and>
     task_count s = int (length xs)"

lemma frame_ptr_inj:
  assumes "low (4096 * f)" and "low (4096 * g)"
  shows "frame_ptr f = frame_ptr g \<longleftrightarrow> f = g"
proof
  assume "frame_ptr f = frame_ptr g"
  then have "loc (frame_ptr f) = loc (frame_ptr g)" by (rule arg_cong)
  then have "4096 * f = 4096 * g"
    unfolding frame_ptr_def vaddr_map.loc_tr [OF assms(1)] vaddr_map.loc_tr [OF assms(2)] .
  then show "f = g" by simp
qed (rule arg_cong)

lemma nodes_below_fresh:
  assumes "nodes_below s lo" and "low (4096 * lo)"
  shows "rtasks s (frame_ptr lo) = None"
proof (rule ccontr)
  assume "rtasks s (frame_ptr lo) \<noteq> None"
  with assms(1) obtain f where f: "f < lo" "frame_ptr lo = frame_ptr f"
    unfolding nodes_below_def by blast
  have "low (4096 * f)" by (rule low_mono [OF assms(2)]) (use f in simp)
  with f assms(2) show False by (simp add: frame_ptr_inj)
qed

lemma kmalloc_frame:
  assumes "fl_inv st lo hi n" and "pages_for sz = int k" and "0 < k" and "lo + k \<le> hi"
  shows "\<exists>st'. kmalloc st sz = Some (st', frame_ptr lo) \<and> fl_inv st' (lo + k) hi n \<and> frame_ptr lo \<noteq> 0 \<and>
    alloc_post st st' lo k hi"
proof -
  have "low (4096 * lo)" "0 < 4096 * lo" using fl_invD [OF assms(1)] assms(3,4) by (auto simp: low_def)
  then have "frame_ptr lo \<noteq> 0" unfolding frame_ptr_def by (rule vaddr_map.tr_nonzero)
  then show ?thesis using kmalloc_src.al_ok [OF assms] by (auto simp: frame_ptr_def)
qed

lemma new_node_ok:
  assumes "fl_inv (vkst (vm s)) lo hi n" and "lo < hi"
  shows "\<exists>k. new_node s p = Some (s\<lparr>vm := (vm s)\<lparr>vkst := k\<rparr>,
      rtasks := (rtasks s)(frame_ptr lo \<mapsto> \<lparr>rt_process = p, rt_next = 0, rt_prev = 0\<rparr>)\<rparr>,
      frame_ptr lo) \<and> fl_inv k (Suc lo) hi n \<and> frame_ptr lo \<noteq> 0 \<and> alloc_post (vkst (vm s)) k lo 1 hi"
proof -
  have pages: "pages_for 24 = int 1" by (simp add: pages_for_def to_int_def)
  obtain k where "kmalloc (vkst (vm s)) 24 = Some (k, frame_ptr lo)" "fl_inv k (lo + 1) hi n" "frame_ptr lo \<noteq> 0"
      "alloc_post (vkst (vm s)) k lo 1 hi"
    using kmalloc_frame [OF assms(1) pages] assms(2) by auto
  then show ?thesis by (intro exI [of _ k]) (simp add: new_node_def ksys_kmalloc_def)
qed

lemma add_to_task_list_ok:
  assumes "queue_inv s xs lo hi n" and "lo < hi" and "tasks s p \<noteq> None" and "p \<notin> nproc s ` set xs"
    and "int_ok (int (length xs) + 1)"
  shows "\<exists>s'. add_to_task_list s p = Some s' \<and>
    queue_inv s' (xs @ [frame_ptr lo]) (Suc lo) hi n \<and>
    nproc s' (frame_ptr lo) = p \<and> tasks s' = tasks s \<and>
    running_task s' = (if xs = [] then frame_ptr lo else running_task s) \<and> previous s' = previous s \<and>
    (\<exists>k. vm s' = (vm s)\<lparr>vkst := k\<rparr> \<and> alloc_post (vkst (vm s)) k lo 1 hi) \<and> mms s' = mms s \<and> PID s' = PID s \<and>
    (\<forall>x\<in>set xs. nproc s' x = nproc s x)"
proof -
  let ?y = "frame_ptr lo"
  let ?ny = "\<lparr>rt_process = p, rt_next = 0, rt_prev = 0\<rparr>"
  note inv = assms(1) [unfolded queue_inv_def]
  note rq = conjunct1 [OF inv]
  note fl = conjunct1 [OF conjunct2 [OF inv]]
  note nb = conjunct1 [OF conjunct2 [OF conjunct2 [OF inv]]]
  obtain k where k: "new_node s p = Some (s\<lparr>vm := (vm s)\<lparr>vkst := k\<rparr>, rtasks := (rtasks s)(?y \<mapsto> ?ny)\<rparr>, ?y)"
      "fl_inv k (Suc lo) hi n" "?y \<noteq> 0" "alloc_post (vkst (vm s)) k lo 1 hi"
    using new_node_ok [OF fl assms(2), of p] by blast
  have "low (4096 * lo)" using fl_invD [OF fl] assms(2) by (auto simp: low_def)
  then have fresh: "rtasks s ?y = None" by (rule nodes_below_fresh [OF nb])
  have notin: "?y \<notin> set xs" using rq_node(5) [OF rq] fresh by fastforce
  have nb': "nodes_below s' (Suc lo)" if "dom (rtasks s') \<subseteq> insert ?y (dom (rtasks s))" for s' :: ksys
    using nb that unfolding nodes_below_def by (fastforce simp: less_Suc_eq)
  show ?thesis
  proof (cases xs rule: rev_cases)
    case Nil
    then have "queue_head s = 0" using rq_head [OF rq] by simp
    then show ?thesis
      using Nil k rq assms(3) 
      by (auto simp: add_to_task_list_def queue_inv_def ready_queue_def chain_Cons nproc_def intro!: nb')
  next
    case (snoc us x)
    obtain nx where nx: "rtasks s x = Some nx" using rq_node(5) [OF rq, of x] snoc by auto
    have hd: "queue_head s \<noteq> 0" using rq_head [OF rq] ready_queueD(5) [OF rq] snoc by (cases us) auto
    have ch: "chain rt_next (rtasks s) (queue_head s) (us @ [x])" using ready_queueD(1) [OF rq] snoc by simp
    let ?R = "(rtasks s)(?y \<mapsto> ?ny, x \<mapsto> nx\<lparr>rt_next := ?y\<rparr>)"
    let ?s = "s\<lparr>vm := (vm s)\<lparr>vkst := k\<rparr>, rtasks := ?R, task_count := task_count s + 1\<rparr>"
    have x: "x \<noteq> ?y" "x \<noteq> 0" using notin rq_node(4) [OF rq, of x] snoc by auto
    have run: "add_to_task_list s p = Some ?s"
      using hd k nx x assms(5) inv last_link_chain [OF ch]
      by (simp add: add_to_task_list_def find_last_def set_next_def)
    have np: "nproc ?s z = (if z = ?y then p else nproc s z)" for z
      using nx x by (auto simp: nproc_def)
    have "ready_queue ?s (xs @ [?y])"
      unfolding ready_queue_def
    proof (intro conjI ballI)
      show "chain rt_next (rtasks ?s) (queue_head ?s) (xs @ [?y])"
        using rt.chain_append [OF ch nx k(3), of ?ny] notin snoc by simp
      show "rtasks ?s 0 = None" using ready_queueD(2) [OF rq] k(3) x by simp
      have m: "map (nproc ?s) xs = map (nproc s) xs" using notin np by (intro map_cong) auto
      show "distinct (map (nproc ?s) (xs @ [?y]))"
        using ready_queueD(3) [OF rq] assms(4) by (simp add: m np del: map_eq_conv)
      show "tasks ?s (nproc ?s z) \<noteq> None" if "z \<in> set (xs @ [?y])" for z
        using that rq_node(2) [OF rq, of z] assms(3) np by auto
    qed
    moreover have "nodes_below ?s (Suc lo)" by (rule nb') (use nx in auto)
    moreover have "task_count ?s = int (length (xs @ [?y]))" using inv by simp
    ultimately show ?thesis
      using run np k(2,4) snoc notin by (auto simp: queue_inv_def intro!: exI [of _ k])
  qed
qed

lemma queue_inv_remove:
  assumes "queue_inv s (us @ p # x # vs) lo hi n"
    and "rtasks s' = rtasks (relinked s p (first_of vs))" and "tasks s' = tasks s"
    and "queue_head s' = queue_head s" and "vm s' = vm s"
  shows "ready_queue s' (us @ p # vs)" "nodes_below s' lo" "fl_inv (vkst (vm s')) lo hi n"
proof -
  have rq: "ready_queue s (us @ p # x # vs)" using assms(1) by (simp add: queue_inv_def)
  have n: "rtasks s p \<noteq> None" using rq_node(5) [OF rq, of p] by auto
  have "nproc s' = nproc (relinked s p (first_of vs))"
    using assms(2) by (simp add: nproc_def fun_eq_iff)
  then show "ready_queue s' (us @ p # vs)"
    using relinked_queue [OF rq] assms(2-4) n by (simp add: ready_queue_def)
  show "nodes_below s' lo"
    using assms(1,2) n by (auto simp: queue_inv_def nodes_below_def relinked_def)
  show "fl_inv (vkst (vm s')) lo hi n" using assms(1,5) by (simp add: queue_inv_def)
qed

lemma delete_curr_ok:
  assumes "queue_inv s (us @ p # x # vs) lo hi n" and "running_task s = x"
    and "int_ok (int (length (us @ p # vs)))"
  shows "\<exists>s'. delete_curr_from_task_list s = Some s' \<and> queue_inv s' (us @ p # vs) lo hi n \<and>
    running_task s' = 0 \<and> previous s' = previous s \<and> tasks s' = tasks s \<and> nproc s' = nproc s \<and> klog s' = klog s"
proof -
  have rq: "ready_queue s (us @ p # x # vs)" using assms(1) by (simp add: queue_inv_def)
  have n: "rtasks s p \<noteq> None" using rq_node(5) [OF rq, of p] by auto
  let ?s = "(relinked s p (first_of vs))\<lparr>running_task := 0, task_count := task_count s - 1\<rparr>"
  have c: "task_count s - 1 = int (length (us @ p # vs))" using assms(1) by (simp add: queue_inv_def)
  have "find_prev s (queue_head s) x = Some p"
    unfolding find_prev_def by (rule prev_link_chain [OF ready_queueD(1) [OF rq]])
  moreover have "next_of s x = Some (first_of vs)" using rq_next [of s "us @ [p]" x vs] rq by simp
  ultimately have "delete_curr_from_task_list s = Some ?s"
    using set_next_relinked [OF n] assms(3) c unfolding delete_curr_from_task_list_def assms(2)
    by (auto simp: Let_def)
  moreover have "queue_inv ?s (us @ p # vs) lo hi n"
    using queue_inv_remove [OF assms(1), of ?s] c by (simp add: queue_inv_def)
  moreover have "nproc ?s = nproc s" using relinked_node(1) [OF n, of "first_of vs"] by (simp add: nproc_def fun_eq_iff)
  ultimately show ?thesis by auto
qed

lemma delete_curr_head:
  assumes "ready_queue s xs" and "xs \<noteq> []" and "running_task s = queue_head s"
  shows "delete_curr_from_task_list s = None"
proof -
  have "find_prev s (queue_head s) (queue_head s) = None"
    by (rule find_prev_head [OF assms(1) rq_head [OF assms(1)] assms(2)])
  then show ?thesis by (simp add: delete_curr_from_task_list_def assms(3))
qed

lemma delete_from_absent:
  assumes "ready_queue s xs" and "\<And>x. x \<in> set xs \<Longrightarrow> pid (ntask s x) \<noteq> i"
  shows "delete_from_task_list s i = Some (say s (Pid_not_found i))"
proof -
  have "filter (\<lambda>x. pid (ntask s x) = i) xs = []" using assms(2) by simp
  then show ?thesis by (simp add: delete_from_task_list_def find_pid_queue [OF assms(1)])
qed

text \<open>The first task with the given number, at a place of the queue.\<close>

definition first_with :: "ksys \<Rightarrow> u64 \<Rightarrow> u64 list \<Rightarrow> u64 \<Rightarrow> bool" where
  "first_with s i us x \<longleftrightarrow> pid (ntask s x) = i \<and> (\<forall>u \<in> set us. pid (ntask s u) \<noteq> i)"

lemma find_pid_first:
  assumes "ready_queue s (us @ x # vs)" and "first_with s i us x"
  shows "find_pid s (queue_head s) i = Some x"
proof -
  have "filter (\<lambda>u. pid (ntask s u) = i) us = []" using assms(2) by (simp add: first_with_def)
  then show ?thesis using assms(2) by (simp add: find_pid_queue [OF assms(1)] first_with_def)
qed

lemma delete_from_inner:
  assumes "ready_queue s (us @ p # x # vs)" and "first_with s i (us @ [p]) x"
  shows "delete_from_task_list s i = Some (relinked s p (first_of vs))"
proof -
  have f: "find_pid s (queue_head s) i = Some x"
    using find_pid_first [of s "us @ [p]" x vs i] assms by simp
  have "x \<noteq> 0" "x \<noteq> queue_head s"
    using rq_node(4) [OF assms(1), of x] rq_head [OF assms(1)] ready_queueD(4) [OF assms(1)] by (cases us; auto)+
  then show ?thesis
    using unlink_step [OF assms(1)] by (cases "x = previous s") (simp_all add: delete_from_task_list_def f)
qed

lemma delete_from_head:
  assumes "ready_queue s (x # vs)" and "pid (ntask s x) = i"
  shows "delete_from_task_list s i = (if x = previous s then None else Some (s\<lparr>queue_head := first_of vs\<rparr>))"
proof -
  have f: "find_pid s (queue_head s) i = Some x"
    using find_pid_first [of s "[]" x vs i] assms by (simp add: first_with_def)
  have x: "x \<noteq> 0" "queue_head s = x" using rq_node(4) [OF assms(1), of x] rq_head [OF assms(1)] by simp_all
  have "find_prev s x x = None" using find_prev_head [OF assms(1), of x] x by simp
  then show ?thesis
    using f x rq_next [of s "[]" x vs] assms(1) by (auto simp: delete_from_task_list_def)
qed

lemma ready_queue_tl: "ready_queue s (x # vs) \<Longrightarrow> ready_queue (s\<lparr>queue_head := first_of vs\<rparr>) vs"
proof -
  assume rq: "ready_queue s (x # vs)"
  obtain n :: ready_task where n: "chain rt_next (rtasks s) (rt_next n) vs"
    using ready_queueD(1) [OF rq] by (auto simp: chain_Cons)
  have "rt_next n = first_of vs" using chain_hd [OF n] by (simp add: first_of_def)
  moreover have "nproc (s\<lparr>queue_head := first_of vs\<rparr>) = nproc s" by (simp add: nproc_def fun_eq_iff)
  ultimately show ?thesis using rq n by (simp add: ready_queue_def)
qed

section \<open>Sleeping tasks\<close>

definition tick_map :: "u64 set \<Rightarrow> (u64 \<rightharpoonup> task_struct) \<Rightarrow> (u64 \<rightharpoonup> task_struct)" where
  "tick_map P T p = (if p \<in> P then map_option sleep_tick (T p) else T p)"

definition ticked :: "ksys \<Rightarrow> u64 set \<Rightarrow> ksys" where
  "ticked s P = s\<lparr>tasks := tick_map P (tasks s)\<rparr>"

lemma ticked_empty: "ticked s {} = s"
proof -
  have "tick_map {} T = T" for T by (simp add: tick_map_def fun_eq_iff)
  then show ?thesis by (simp add: ticked_def)
qed

lemma ticked_insert:
  assumes "tasks s p = Some t" and "p \<notin> P"
  shows "ticked (s\<lparr>tasks := (tasks s)(p \<mapsto> sleep_tick t)\<rparr>) P = ticked s (insert p P)"
proof -
  have "tick_map P ((tasks s)(p \<mapsto> sleep_tick t)) = tick_map (insert p P) (tasks s)"
    using assms by (auto simp: fun_eq_iff tick_map_def)
  then show ?thesis unfolding ticked_def by simp
qed

lemma dec_sleep_loop_chain:
  assumes "chain rt_next (rtasks s) h xs" and "distinct (map (nproc s) xs)"
    and "\<And>x. x \<in> set xs \<Longrightarrow> tasks s (nproc s x) \<noteq> None"
  shows "dec_sleep_loop s h = Some (ticked s (nproc s ` set xs))"
  using assms
proof (induction xs arbitrary: s h)
  case Nil
  then show ?case by (simp add: dec_sleep_loop.simps ticked_empty)
next
  case (Cons x xs)
  obtain n t where n: "rtasks s x = Some n" "h = x" "x \<noteq> 0" "chain rt_next (rtasks s) (rt_next n) xs"
    and t: "tasks s (nproc s x) = Some t"
    using Cons.prems(1) Cons.prems(3) [of x] by (auto simp: chain_Cons)
  let ?s = "s\<lparr>tasks := (tasks s)(nproc s x \<mapsto> sleep_tick t)\<rparr>"
  have np: "nproc ?s = nproc s" by (simp add: nproc_def fun_eq_iff)
  have "dec_sleep_loop ?s (rt_next n) = Some (ticked ?s (nproc ?s ` set xs))"
  proof (rule Cons.IH)
    show "tasks ?s (nproc ?s y) \<noteq> None" if "y \<in> set xs" for y
      using Cons.prems(3) [of y] that by (simp add: np)
  qed (use n(4) Cons.prems(2) in \<open>simp_all add: np\<close>)
  moreover have "ticked ?s (nproc s ` set xs) = ticked s (insert (nproc s x) (nproc s ` set xs))"
    by (rule ticked_insert [OF t]) (use Cons.prems(2) in simp)
  moreover have "dec_sleep_loop s h = dec_sleep_loop ?s (rt_next n)"
    using n t by (subst dec_sleep_loop.simps) (simp add: proc_of_def upd_task_def next_of_def nproc_def)
  ultimately show ?case by (simp add: np)
qed

lemma dec_sleep_count_queue:
  "ready_queue s xs \<Longrightarrow> dec_sleep_count s = Some (ticked s (nproc s ` set xs))"
  unfolding dec_sleep_count_def by (rule dec_sleep_loop_chain) (auto simp: ready_queue_def)

lemma ticked_queue:
  assumes "ready_queue s xs"
  shows "ready_queue (ticked s (nproc s ` set xs)) xs"
    and "x \<in> set xs \<Longrightarrow> ntask (ticked s (nproc s ` set xs)) x = sleep_tick (ntask s x)"
proof -
  have np: "nproc (ticked s P) = nproc s" for P by (simp add: nproc_def ticked_def fun_eq_iff)
  show "ready_queue (ticked s (nproc s ` set xs)) xs"
    using assms np [of "nproc s ` set xs"] by (auto simp: ready_queue_def ticked_def tick_map_def)
  show "ntask (ticked s (nproc s ` set xs)) x = sleep_tick (ntask s x)" if x: "x \<in> set xs"
  proof -
    obtain t where "tasks s (nproc s x) = Some t" using rq_node(2) [OF assms x] by blast
    then show ?thesis
      using np [of "nproc s ` set xs"] x by (simp add: ntask_def ticked_def tick_map_def)
  qed
qed

text \<open>The timer handler calls \<^verbatim>\<open>dec_sleep_count\<close> once per tick.\<close>

fun ticks :: "nat \<Rightarrow> ksys \<Rightarrow> ksys option" where
  "ticks 0 s = Some s"
| "ticks (Suc j) s = do { s \<leftarrow> dec_sleep_count s; ticks j s }"

lemma ticks_queue:
  assumes "ready_queue s xs"
  shows "\<exists>s'. ticks j s = Some s' \<and> ready_queue s' xs \<and>
    (\<forall>x \<in> set xs. ntask s' x = (sleep_tick ^^ j) (ntask s x))"
  using assms
proof (induction j arbitrary: s)
  case (Suc j)
  let ?s = "ticked s (nproc s ` set xs)"
  obtain s' where "ticks j ?s = Some s'" "ready_queue s' xs"
      "\<forall>x \<in> set xs. ntask s' x = (sleep_tick ^^ j) (ntask ?s x)"
    using Suc.IH [OF ticked_queue(1) [OF Suc.prems]] by blast
  then show ?case
    using ticked_queue(2) [OF Suc.prems] dec_sleep_count_queue [OF Suc.prems]
    by (auto simp: funpow_swap1)
qed simp

text \<open>A task set to sleep \<open>w\<close> ticks; the counter is decremented before it is tested, so a
  count of zero means the full range.\<close>

definition wake_after :: "u64 \<Rightarrow> nat" where
  "wake_after w = (if w = 0 then 2 ^ 64 else unat w)"

lemma wake_after_dec: "w - 1 \<noteq> 0 \<Longrightarrow> wake_after (w - 1) = wake_after w - 1"
  unfolding wake_after_def by (auto simp: unat_minus_one unat_eq_0 unsigned_minus_1_eq_mask mask_eq_exp_minus_1)

lemma wake_after_pos: "0 < wake_after w"
  by (simp add: wake_after_def unat_gt_0)

lemma sleep_tick_run:
  "is_sleeping t = 1 \<Longrightarrow> is_sleeping ((sleep_tick ^^ j) t) = (if j < wake_after (sleep_time t) then 1 else 0)"
proof (induction j arbitrary: t)
  case 0
  then show ?case by (simp add: wake_after_pos)
next
  case (Suc j)
  let ?w = "sleep_time t"
  have stay: "is_sleeping u = 0 \<Longrightarrow> is_sleeping ((sleep_tick ^^ i) u) = 0" for u i
    by (induction i) (simp_all add: sleep_tick_def)
  show ?case
  proof (cases "?w - 1 = 0")
    case True
    then have "?w = 1" by simp
    then have "wake_after ?w = 1" by (simp add: wake_after_def)
    moreover have "is_sleeping (sleep_tick t) = 0" using Suc.prems True by (simp add: sleep_tick_def)
    ultimately show ?thesis using stay [of "sleep_tick t" j] by (simp add: funpow_swap1)
  next
    case False
    then have "sleep_tick t = t\<lparr>sleep_time := ?w - 1\<rparr>" using Suc.prems by (simp add: sleep_tick_def)
    then show ?thesis
      using Suc.IH [of "sleep_tick t"] Suc.prems wake_after_dec [OF False] wake_after_pos [of ?w]
      by (simp add: funpow_swap1) (auto simp: less_diff_conv)
  qed
qed

end
