(* ===== verification/Scheduler.thy ===== *)
theory Scheduler
  imports TaskQueue
begin

text \<open>
  The scheduler of \<^verbatim>\<open>sys/process.c\<close>: which task \<^verbatim>\<open>schedule\<close> chooses, what it does
  to the tasks it passes over, what a switch saves and loads, that every runnable task gets its
  turn, and the system calls on tasks that end in \<^verbatim>\<open>schedule\<close>.
\<close>

section \<open>Tasks that are passed over\<close>

definition blocked :: "ksys \<Rightarrow> u64 \<Rightarrow> bool" where
  "blocked s x \<longleftrightarrow> is_sleeping (ntask s x) \<noteq> 0 \<or> 0 < is_waiting (ntask s x)"

definition wake_val :: "ksys \<Rightarrow> task_struct \<Rightarrow> u64" where
  "wake_val s t = (if 0 < is_waiting t \<and> is_child_done s (is_waiting t) = Some 1 then 0 else is_waiting t)"

definition wake_map :: "ksys \<Rightarrow> u64 set \<Rightarrow> u64 \<rightharpoonup> task_struct" where
  "wake_map s P p =
     (if p \<in> P then map_option (\<lambda>t. t\<lparr>is_waiting := wake_val s t\<rparr>) (tasks s p) else tasks s p)"

definition woken :: "ksys \<Rightarrow> u64 set \<Rightarrow> ksys" where
  "woken s P = s\<lparr>tasks := wake_map s P\<rparr>"

lemma woken_fields [simp]:
  "rtasks (woken s P) = rtasks s" "queue_head (woken s P) = queue_head s" "vm (woken s P) = vm s"
  "running_task (woken s P) = running_task s" "previous (woken s P) = previous s"
  "cpu_rsp (woken s P) = cpu_rsp s" "tss_rsp0 (woken s P) = tss_rsp0 s" "nproc (woken s P) = nproc s"
  "task_count (woken s P) = task_count s" "next_of (woken s P) = next_of s" "proc_of (woken s P) = proc_of s"
  by (simp_all add: woken_def nproc_def next_of_def proc_of_def fun_eq_iff)

lemma ntask_woken:
  assumes "ready_queue s xs" and "x \<in> set xs"
  shows "ntask (woken s P) x =
    (if nproc s x \<in> P then (ntask s x)\<lparr>is_waiting := wake_val s (ntask s x)\<rparr> else ntask s x)"
proof -
  have "nproc (woken s P) x = nproc s x" by simp
  then show ?thesis
    using rq_node(2) [OF assms] unfolding ntask_def [of "woken s P"] by (simp add: woken_def wake_map_def)
qed

lemma ntask_woken_fields:
  assumes "ready_queue s xs" and "x \<in> set xs"
  shows "pid (ntask (woken s P) x) = pid (ntask s x)" "is_sleeping (ntask (woken s P) x) = is_sleeping (ntask s x)"
    "t_rsp (ntask (woken s P) x) = t_rsp (ntask s x)" "t_cr3 (ntask (woken s P) x) = t_cr3 (ntask s x)"
  by (simp_all add: ntask_woken [OF assms])

lemma woken_queue [simp]: "ready_queue s xs \<Longrightarrow> ready_queue (woken s P) xs"
  by (erule ready_queue_cong) (auto simp: woken_def wake_map_def)

lemma is_child_done_woken:
  assumes "ready_queue s xs"
  shows "is_child_done (woken s P) n = is_child_done s n"
proof -
  have f: "filter (\<lambda>x. pid (ntask (woken s P) x) = n) xs = filter (\<lambda>x. pid (ntask s x) = n) xs"
    by (rule filter_cong) (simp_all add: ntask_woken_fields [OF assms])
  let ?x = "first_of (filter (\<lambda>x. pid (ntask s x) = n) xs)"
  have "is_sleeping (ntask (woken s P) ?x) = is_sleeping (ntask s ?x)" if "\<exists>x \<in> set xs. pid (ntask s x) = n"
  proof -
    have "?x \<noteq> 0"
      using first_of_filter(1) [OF ready_queueD(5) [OF assms], of "\<lambda>x. pid (ntask s x) = n"] that by simp
    then have "?x \<in> set xs"
      using first_of_filter(2) [OF ready_queueD(5) [OF assms], of "\<lambda>x. pid (ntask s x) = n"] by simp
    then show ?thesis by (rule ntask_woken_fields(2) [OF assms])
  qed
  moreover have "(\<exists>x \<in> set xs. pid (ntask (woken s P) x) = n) \<longleftrightarrow> (\<exists>x \<in> set xs. pid (ntask s x) = n)"
    by (simp add: ntask_woken_fields [OF assms])
  ultimately show ?thesis
    by (simp add: is_child_done_queue [OF assms] is_child_done_queue [OF woken_queue [OF assms]] f)
qed

lemma woken_woken:
  assumes "ready_queue s xs"
  shows "woken (woken s P) Q = woken s (P \<union> Q)"
proof -
  have v: "wake_val (woken s P) t = wake_val s t" for t
    by (simp add: wake_val_def is_child_done_woken [OF assms])
  have i: "wake_val s (t\<lparr>is_waiting := wake_val s t\<rparr>) = wake_val s t" for t
    by (simp add: wake_val_def)
  have "tasks (woken s P) = wake_map s P" by (simp add: woken_def)
  then have "wake_map (woken s P) Q = wake_map s (P \<union> Q)"
    by (auto simp: fun_eq_iff wake_map_def v i option.map_comp o_def)
  moreover have "woken (woken s P) Q = s\<lparr>tasks := wake_map (woken s P) Q\<rparr>" by (simp add: woken_def)
  ultimately show ?thesis by (simp add: woken_def [of s])
qed

lemma woken_id:
  assumes "tasks s p = Some t" and "wake_val s t = is_waiting t"
  shows "woken s {p} = s"
proof -
  have "wake_map s {p} = tasks s" using assms by (auto simp: wake_map_def fun_eq_iff)
  then show ?thesis by (simp add: woken_def)
qed

lemma wake_woken:
  assumes "ready_queue s xs" and "x \<in> set xs"
  shows "wake s x = Some (woken s {nproc s x})"
proof -
  note n = rq_node [OF assms]
  let ?t = "ntask s x"
  obtain d where d: "is_child_done s (is_waiting ?t) = Some d" "d = 0 \<or> d = 1"
    using is_child_done_queue [OF assms(1), of "is_waiting ?t"] by auto
  show ?thesis
  proof (cases "0 < is_waiting ?t \<and> d = 1")
    case True
    then have v: "wake_val s ?t = 0" using d by (simp add: wake_val_def)
    have "wake_map s {nproc s x} = (tasks s)(nproc s x \<mapsto> ?t\<lparr>is_waiting := 0\<rparr>)"
      using n(2) v by (auto simp: wake_map_def fun_eq_iff)
    then show ?thesis using True d n by (simp add: wake_def upd_task_def woken_def)
  next
    case False
    then have "wake_val s ?t = is_waiting ?t" using d by (auto simp: wake_val_def)
    then have "woken s {nproc s x} = s" by (rule woken_id [OF n(2)])
    then show ?thesis using False d n by (auto simp: wake_def)
  qed
qed

lemma blocked_woken:
  assumes "ready_queue s xs" and "x \<in> set xs" and "nproc s x \<notin> P"
  shows "blocked (woken s P) x = blocked s x"
  using assms by (simp add: blocked_def ntask_woken)

section \<open>The choice\<close>

definition sched_walk :: "ksys \<Rightarrow> u64 \<Rightarrow> (ksys \<times> u64) option" where
  "sched_walk s x = do { (s, temp) \<leftarrow> sched_skip s x; s \<leftarrow> wake s temp; nx \<leftarrow> next_of s temp; Some (s, nx) }"

lemma sched_walk_queue:
  assumes "ready_queue s (us @ x # vs)"
  shows "sched_walk s x = Some (woken s (nproc s ` set (x # takeWhile (blocked s) vs)),
    first_of (dropWhile (blocked s) vs))"
  using assms
proof (induction vs arbitrary: s us x)
  case Nil
  have n: "next_of s x = Some 0" using rq_next [OF Nil] by simp
  then have "sched_skip s x = Some (s, x)" by (subst sched_skip.simps) simp
  then show ?case using n wake_woken [OF Nil] by (simp add: sched_walk_def)
next
  case (Cons v vs)
  note n = rq_next [OF Cons.prems]
  have v: "v \<noteq> 0" "task_at s v = Some (ntask s v)" "x \<noteq> v"
    using rq_node [OF Cons.prems, of v] ready_queueD(4) [OF Cons.prems] by auto
  have w: "wake s x = Some (woken s {nproc s x})" using wake_woken [OF Cons.prems] by simp
  show ?case
  proof (cases "blocked s v")
    case True
    let ?s = "woken s {nproc s x}"
    have rq: "ready_queue ?s ((us @ [x]) @ v # vs)" using Cons.prems by simp
    have "sched_skip s x = sched_skip ?s v"
      using n v w True by (subst sched_skip.simps) (simp add: blocked_def)
    then have "sched_walk s x = sched_walk ?s v" by (simp add: sched_walk_def)
    moreover have b: "blocked ?s y = blocked s y" if "y \<in> set vs" for y
      using blocked_woken [OF Cons.prems, of y "{nproc s x}"] rq_same_proc [OF Cons.prems, of y x]
        ready_queueD(4) [OF Cons.prems] that by auto
    then have "takeWhile (blocked ?s) vs = takeWhile (blocked s) vs" "dropWhile (blocked ?s) vs = dropWhile (blocked s) vs"
      by (simp_all cong: takeWhile_cong dropWhile_cong)
    ultimately show ?thesis
      using Cons.IH [OF rq] True by (simp add: woken_woken [OF Cons.prems] insert_commute)
  next
    case False
    then have "sched_skip s x = Some (s, x)"
      using n v by (subst sched_skip.simps) (simp add: blocked_def)
    then show ?thesis using n w False by (simp add: sched_walk_def)
  qed
qed

text \<open>The task after \<open>x\<close> that is not blocked, or else the head of the queue, whatever its state.\<close>

definition pick :: "ksys \<Rightarrow> u64 list \<Rightarrow> u64" where
  "pick s vs = (let y = first_of (dropWhile (blocked s) vs) in if y \<noteq> 0 then y else queue_head s)"

lemma sched_choose_running:
  assumes "ready_queue s (us @ x # vs)" and "running_task s = x"
  shows "sched_choose s = Some ((woken s (nproc s ` set (x # takeWhile (blocked s) vs)))
    \<lparr>previous := x, running_task := pick s vs\<rparr>)"
proof -
  have "x \<noteq> 0" using rq_node(4) [OF assms(1), of x] by simp
  moreover have "sched_choose s = do { (s, nx) \<leftarrow> sched_walk s (running_task s);
             let s = s\<lparr>previous := running_task s\<rparr>;
             if nx \<noteq> 0 then Some (s\<lparr>running_task := nx\<rparr>) else Some (s\<lparr>running_task := queue_head s\<rparr>) }"
    if "running_task s \<noteq> 0"
    using that by (simp add: sched_choose_def sched_walk_def split_def Let_def cong: if_cong)
  ultimately show ?thesis
    using sched_walk_queue [OF assms(1)] assms(2) by (simp add: pick_def Let_def)
qed

lemma sched_choose_exited:
  assumes "ready_queue s (us @ x # vs)" and "running_task s = 0" and "previous s = x"
  shows "\<exists>P. sched_choose s = Some ((woken s P)\<lparr>running_task := pick s vs\<rparr>)"
proof -
  have e: "woken s {} = s" unfolding woken_def wake_map_def by simp
  have n: "next_of s x = Some (first_of vs)" by (rule rq_next [OF assms(1)])
  show ?thesis
  proof (cases vs)
    case Nil
    then show ?thesis using n assms(2,3) e by (intro exI [of _ "{}"]) (simp add: sched_choose_def pick_def)
  next
    case (Cons v vs')
    then have "v \<noteq> 0" using rq_node(4) [OF assms(1), of v] by simp
    then have "sched_choose s = do { (s, nx) \<leftarrow> sched_walk s x;
             if nx \<noteq> 0 then Some (s\<lparr>running_task := nx\<rparr>) else Some (s\<lparr>running_task := queue_head s\<rparr>) }"
      using n Cons assms(2,3) by (simp add: sched_choose_def sched_walk_def split_def Let_def cong: if_cong)
    then show ?thesis
      using sched_walk_queue [OF assms(1)]
      by (intro exI [of _ "nproc s ` set (x # takeWhile (blocked s) vs)"]) (simp add: pick_def Let_def)
  qed
qed

section \<open>The switch\<close>

definition dispatch :: "ksys \<Rightarrow> int \<Rightarrow> ksys option" where
  "dispatch s first_switch =
     do { p \<leftarrow> proc_of s (running_task s);
          let s = set_tss_rsp s (p + 8 + 8 * 511);
          me \<leftarrow> proc_of s (previous s);
          switch_to s p me first_switch }"

lemma schedule_dispatch: "schedule s f = do { s \<leftarrow> sched_choose s; dispatch s f }"
  by (simp add: schedule_def dispatch_def)

definition saved :: "ksys \<Rightarrow> int \<Rightarrow> u64 \<Rightarrow> task_struct" where
  "saved s f z = (if f = 0 \<and> z = previous s then (ntask s z)\<lparr>t_rsp := cpu_rsp s\<rparr> else ntask s z)"

lemma dispatch_ok:
  assumes rq: "ready_queue s xs" and y: "running_task s \<in> set xs" and x: "previous s \<in> set xs"
  shows "\<exists>s'. dispatch s f = Some s' \<and> ready_queue s' xs \<and> (\<forall>z \<in> set xs. ntask s' z = saved s f z) \<and>
    rtasks s' = rtasks s \<and> queue_head s' = queue_head s \<and> running_task s' = running_task s \<and>
    previous s' = previous s \<and> task_count s' = task_count s \<and> klog s' = klog s \<and>
    vm s' = (vm s)\<lparr>cr3 := t_cr3 (ntask s (running_task s))\<rparr> \<and>
    tss_rsp0 s' = nproc s (running_task s) + 4096 \<and> cpu_rsp s' = t_rsp (ntask s' (running_task s))"
proof -
  note ny = rq_node [OF rq y] and nx = rq_node [OF rq x]
  let ?y = "running_task s" and ?x = "previous s"
  define T where "T = (if f = 0 then (tasks s)(nproc s ?x \<mapsto> (ntask s ?x)\<lparr>t_rsp := cpu_rsp s\<rparr>) else tasks s)"
  let ?s = "s\<lparr>tasks := T, tss_rsp0 := nproc s ?y + 4096, vm := (vm s)\<lparr>cr3 := t_cr3 (ntask s ?y)\<rparr>,
     cpu_rsp := t_rsp (the (T (nproc s ?y)))\<rparr>"
  have T: "T (nproc s z) = Some (saved s f z)" if "z \<in> set xs" for z
    using rq_node(2) [OF rq that] rq_same_proc [OF rq that x] by (auto simp: T_def saved_def)
  have cr: "t_cr3 (saved s f ?y) = t_cr3 (ntask s ?y)" by (simp add: saved_def)
  have np: "nproc ?s = nproc s" by (rule nproc_cong) simp
  have tss: "proc_of (set_tss_rsp s a) z = proc_of s z" for a z by (simp add: proc_of_def set_tss_rsp_def)
  have sw: "switch_to (set_tss_rsp s (nproc s ?y + 8 + 8 * 511)) (nproc s ?y) (nproc s ?x) f = Some ?s"
    using nx(2) T [OF y] cr
    by (cases "f = 0") (simp_all add: switch_to_def upd_task_def Let_def T_def set_tss_rsp_def add.assoc del: fun_upd_apply)
  have "dispatch s f = Some ?s"
    using ny(1) nx(1) sw by (simp add: dispatch_def tss) (simp add: set_tss_rsp_def tss)
  moreover have "ready_queue ?s xs" by (rule ready_queue_cong [OF rq]) (auto simp: T_def)
  moreover have nt: "ntask ?s z = saved s f z" if "z \<in> set xs" for z
    using T [OF that] np by (simp add: ntask_def)
  moreover have "cpu_rsp ?s = t_rsp (ntask ?s ?y)" using T [OF y] nt [OF y] by simp
  ultimately show ?thesis by (intro exI [of _ ?s]) simp
qed

lemma pick_in:
  assumes "ready_queue s (us @ x # vs)"
  shows "pick s vs \<in> set (us @ x # vs)"
proof (cases "dropWhile (blocked s) vs")
  case Nil
  then have "pick s vs = queue_head s" unfolding pick_def Nil by simp
  then show ?thesis using rq_head [OF assms] by (cases us) simp_all
next
  case (Cons y ys)
  then have "y \<in> set vs" by (metis list.set_intros(1) set_dropWhileD)
  moreover from this have "y \<noteq> 0" using rq_node(4) [OF assms, of y] by simp
  ultimately show ?thesis unfolding pick_def Cons by simp
qed

lemma ntask_frame: "rtasks s' = rtasks s \<Longrightarrow> tasks s' = tasks s \<Longrightarrow> ntask s' = ntask s"
  by (simp add: ntask_def nproc_def fun_eq_iff)

text \<open>The tasks after a call of \<^verbatim>\<open>schedule(0)\<close> in which \<open>x\<close> gives up the processor.\<close>

definition sched_task :: "ksys \<Rightarrow> u64 \<Rightarrow> u64 list \<Rightarrow> u64 \<Rightarrow> task_struct" where
  "sched_task s x vs z =
     (let t = ntask s z;
          t = (if z \<in> set (x # takeWhile (blocked s) vs) then t\<lparr>is_waiting := wake_val s t\<rparr> else t)
      in if z = x then t\<lparr>t_rsp := cpu_rsp s\<rparr> else t)"

lemma sched_task_fields [simp]:
  "pid (sched_task s x vs z) = pid (ntask s z)" "ppid (sched_task s x vs z) = ppid (ntask s z)"
  "is_sleeping (sched_task s x vs z) = is_sleeping (ntask s z)" "kstack (sched_task s x vs z) = kstack (ntask s z)"
  "sleep_time (sched_task s x vs z) = sleep_time (ntask s z)" "t_cr3 (sched_task s x vs z) = t_cr3 (ntask s z)"
  "t_rsp (sched_task s x vs z) = (if z = x then cpu_rsp s else t_rsp (ntask s z))"
  by (simp_all add: sched_task_def Let_def)

lemma schedule_ok:
  assumes rq: "ready_queue s (us @ x # vs)" and run: "running_task s = x"
  shows "\<exists>s'. schedule s 0 = Some s' \<and> ready_queue s' (us @ x # vs) \<and>
    (\<forall>z \<in> set (us @ x # vs). ntask s' z = sched_task s x vs z) \<and>
    running_task s' = pick s vs \<and> previous s' = x \<and> rtasks s' = rtasks s \<and> queue_head s' = queue_head s \<and>
    task_count s' = task_count s \<and> klog s' = klog s \<and> vm s' = (vm s)\<lparr>cr3 := t_cr3 (ntask s (pick s vs))\<rparr> \<and>
    tss_rsp0 s' = nproc s (pick s vs) + 4096 \<and> cpu_rsp s' = t_rsp (ntask s' (pick s vs))"
proof -
  let ?xs = "us @ x # vs" and ?y = "pick s vs"
  let ?P = "nproc s ` set (x # takeWhile (blocked s) vs)"
  let ?s = "(woken s ?P)\<lparr>previous := x, running_task := ?y\<rparr>"
  have rq': "ready_queue ?s ?xs" by (rule ready_queue_cong [OF woken_queue [OF rq, of ?P]]) simp_all
  have y: "?y \<in> set ?xs" by (rule pick_in [OF rq])
  have np: "nproc ?s = nproc s" by (rule nproc_cong) simp
  have nt: "ntask ?s = ntask (woken s ?P)" by (rule ntask_frame) simp_all
  have inj: "inj_on (nproc s) (set ?xs)" using ready_queueD(3) [OF rq] by (simp only: distinct_map)
  have "set (x # takeWhile (blocked s) vs) \<subseteq> set ?xs" by (auto dest: set_takeWhileD)
  note vis = inj_on_image_mem_iff [OF inj _ this]
  have task: "saved ?s 0 z = sched_task s x vs z" if "z \<in> set ?xs" for z
    unfolding saved_def nt ntask_woken [OF rq that] vis [OF that] sched_task_def Let_def by simp
  have cr: "t_cr3 (ntask ?s ?y) = t_cr3 (ntask s ?y)"
    unfolding nt by (rule ntask_woken_fields(4) [OF rq y])
  have f: "running_task ?s = ?y" "previous ?s = x" "rtasks ?s = rtasks s" "queue_head ?s = queue_head s"
      "task_count ?s = task_count s" "klog ?s = klog s" "vm ?s = vm s"
    by (simp_all add: woken_def)
  have x: "x \<in> set ?xs" by simp
  obtain s' where s': "dispatch ?s 0 = Some s'" "ready_queue s' ?xs" "\<forall>z \<in> set ?xs. ntask s' z = saved ?s 0 z"
      "rtasks s' = rtasks s \<and> queue_head s' = queue_head s \<and> running_task s' = ?y \<and> previous s' = x \<and>
       task_count s' = task_count s \<and> klog s' = klog s \<and> vm s' = (vm s)\<lparr>cr3 := t_cr3 (ntask s ?y)\<rparr> \<and>
       tss_rsp0 s' = nproc s ?y + 4096 \<and> cpu_rsp s' = t_rsp (ntask s' ?y)"
    using dispatch_ok [OF rq', of 0, unfolded f cr np, OF y x] by blast
  have "schedule s 0 = Some s'"
    unfolding schedule_dispatch sched_choose_running [OF rq run] using s'(1) by simp
  moreover have "\<forall>z \<in> set ?xs. ntask s' z = sched_task s x vs z"
  proof
    fix z assume z: "z \<in> set ?xs"
    show "ntask s' z = sched_task s x vs z" using bspec [OF s'(3) z] task [OF z] by (rule trans)
  qed
  ultimately show ?thesis using s'(2,4) by blast
qed

section \<open>Every runnable task gets its turn\<close>

fun schedules :: "nat \<Rightarrow> ksys \<Rightarrow> ksys option" where
  "schedules 0 s = Some s"
| "schedules (Suc k) s = do { s \<leftarrow> schedule s 0; schedules k s }"

lemma first_of_drop: "first_of (drop m vs) = (if m < length vs then vs ! m else 0)"
  by (cases "drop m vs") (auto simp: first_of_def Cons_nth_drop_Suc [symmetric])

lemma pick_index:
  assumes rq: "ready_queue s xs" and i: "i < length xs" and j: "j < length xs" "\<not> blocked s (xs ! j)"
  shows "\<exists>i' < length xs. pick s (drop (Suc i) xs) = xs ! i' \<and> (i < j \<longrightarrow> i < i' \<and> i' \<le> j) \<and> (i' = 0 \<or> i < i')"
proof -
  let ?vs = "drop (Suc i) xs" and ?m = "length (takeWhile (blocked s) (drop (Suc i) xs))"
  have y: "first_of (dropWhile (blocked s) ?vs) = (if ?m < length ?vs then ?vs ! ?m else 0)"
    by (simp only: dropWhile_eq_drop first_of_drop)
  have early: "?m \<le> j - Suc i" if "i < j"
  proof (rule ccontr)
    assume "\<not> ?m \<le> j - Suc i"
    then have "j - Suc i < ?m" by simp
    then have "takeWhile (blocked s) ?vs ! (j - Suc i) \<in> set (takeWhile (blocked s) ?vs)"
      and "takeWhile (blocked s) ?vs ! (j - Suc i) = ?vs ! (j - Suc i)"
      by (auto intro: takeWhile_nth)
    then have "blocked s (?vs ! (j - Suc i))" by (auto dest: set_takeWhileD)
    with that j show False by simp
  qed
  show ?thesis
  proof (cases "?m < length ?vs")
    case True
    then have "?vs ! ?m = xs ! (Suc i + ?m)" "Suc i + ?m < length xs" by simp_all
    moreover from this have "xs ! (Suc i + ?m) \<noteq> 0" using rq_node(4) [OF rq nth_mem] by blast
    ultimately have "pick s ?vs = xs ! (Suc i + ?m)" unfolding pick_def y using True by simp
    then show ?thesis using early \<open>Suc i + ?m < length xs\<close> by (intro exI [of _ "Suc i + ?m"]) auto
  next
    case False
    then have "pick s ?vs = queue_head s" unfolding pick_def y by simp
    also have "\<dots> = xs ! 0" using rq_head [OF rq] i by (cases xs) simp_all
    finally have "pick s ?vs = xs ! 0" .
    moreover have "\<not> i < j" using early False j(1) by auto
    ultimately show ?thesis using i by (intro exI [of _ 0]) auto
  qed
qed

lemma schedule_keeps_runnable:
  assumes "\<not> blocked s z" and "ntask s' z = sched_task s x vs z"
  shows "\<not> blocked s' z"
  using assms by (auto simp: blocked_def sched_task_def wake_val_def Let_def)

lemma schedule_index:
  assumes rq: "ready_queue s xs" and i: "i < length xs" "running_task s = xs ! i"
    and j: "j < length xs" "\<not> blocked s (xs ! j)"
  shows "\<exists>s' i'. schedule s 0 = Some s' \<and> ready_queue s' xs \<and> i' < length xs \<and> running_task s' = xs ! i' \<and>
    \<not> blocked s' (xs ! j) \<and> (i < j \<longrightarrow> i < i' \<and> i' \<le> j) \<and> (i' = 0 \<or> i < i')"
proof -
  let ?vs = "drop (Suc i) xs"
  have xs: "take i xs @ xs ! i # ?vs = xs" using i(1) by (rule id_take_nth_drop [symmetric])
  have rq': "ready_queue s (take i xs @ xs ! i # ?vs)" using rq by (simp only: xs)
  obtain s' where s': "schedule s 0 = Some s'" "ready_queue s' xs"
      "\<forall>z \<in> set xs. ntask s' z = sched_task s (xs ! i) ?vs z" "running_task s' = pick s ?vs"
    using schedule_ok [OF rq' i(2)] unfolding xs by blast
  moreover have "\<not> blocked s' (xs ! j)"
    using schedule_keeps_runnable [OF j(2)] s'(3) nth_mem [OF j(1)] by blast
  ultimately show ?thesis using pick_index [OF rq i(1) j] by metis
qed

definition turn_dist :: "nat \<Rightarrow> nat \<Rightarrow> nat \<Rightarrow> nat" where
  "turn_dist n i j = (if i \<le> j then j - i else n - i + j)"

lemma turn_within:
  assumes "ready_queue s xs" and "i < length xs" "running_task s = xs ! i"
    and "j < length xs" "\<not> blocked s (xs ! j)"
  shows "\<exists>k s'. k \<le> turn_dist (length xs) i j \<and> schedules k s = Some s' \<and> ready_queue s' xs \<and>
    running_task s' = xs ! j \<and> \<not> blocked s' (xs ! j)"
  using assms
proof (induction "turn_dist (length xs) i j" arbitrary: s i rule: less_induct)
  case less
  show ?case
  proof (cases "i = j")
    case True
    then show ?thesis using less.prems by (intro exI [of _ 0] exI [of _ s]) simp
  next
    case False
    obtain s1 i1 where s1: "schedule s 0 = Some s1" "ready_queue s1 xs" "i1 < length xs" "running_task s1 = xs ! i1"
        "\<not> blocked s1 (xs ! j)" "i < j \<longrightarrow> i < i1 \<and> i1 \<le> j" "i1 = 0 \<or> i < i1"
      using schedule_index [OF less.prems] by blast
    have d: "turn_dist (length xs) i1 j < turn_dist (length xs) i j"
      using False s1(3,6,7) less.prems(2,4) by (auto simp: turn_dist_def)
    obtain k s' where "k \<le> turn_dist (length xs) i1 j" "schedules k s1 = Some s'" "ready_queue s' xs"
        "running_task s' = xs ! j" "\<not> blocked s' (xs ! j)"
      using less.hyps [OF d s1(2-4) less.prems(4) s1(5)] by blast
    then show ?thesis using s1(1) d by (intro exI [of _ "Suc k"] exI [of _ s']) auto
  qed
qed

section \<open>System calls\<close>

lemma pick_cong:
  assumes "\<And>z. z \<in> set vs \<Longrightarrow> blocked s' z = blocked s z" and "queue_head s' = queue_head s"
  shows "pick s' vs = pick s vs"
proof -
  have "dropWhile (blocked s') vs = dropWhile (blocked s) vs"
    by (rule dropWhile_cong) (simp_all add: assms(1))
  then show ?thesis unfolding pick_def assms(2) by simp
qed

lemma blocked_cong: "ntask s' z = ntask s z \<Longrightarrow> blocked s' z = blocked s z"
  by (simp add: blocked_def)

lemma schedule_exited:
  assumes rq: "ready_queue s (us @ q # vs)" and "running_task s = 0" and "previous s = q"
  shows "\<exists>s'. schedule s 1 = Some s' \<and> ready_queue s' (us @ q # vs) \<and> running_task s' = pick s vs \<and>
    previous s' = q \<and> task_count s' = task_count s \<and> vm s' = (vm s)\<lparr>cr3 := t_cr3 (ntask s (pick s vs))\<rparr> \<and>
    cpu_rsp s' = t_rsp (ntask s (pick s vs)) \<and> rtasks s' = rtasks s \<and> klog s' = klog s"
proof -
  let ?xs = "us @ q # vs" and ?y = "pick s vs"
  obtain P where P: "sched_choose s = Some ((woken s P)\<lparr>running_task := ?y\<rparr>)"
    using sched_choose_exited [OF assms] by blast
  let ?s = "(woken s P)\<lparr>running_task := ?y\<rparr>"
  have rq': "ready_queue ?s ?xs" by (rule ready_queue_cong [OF woken_queue [OF rq, of P]]) simp_all
  have y: "?y \<in> set ?xs" by (rule pick_in [OF rq])
  have nt: "ntask ?s = ntask (woken s P)" by (rule ntask_frame) simp_all
  note fields = ntask_woken_fields [OF rq y, of P]
  have f: "running_task ?s = ?y" "previous ?s = q" "rtasks ?s = rtasks s" "task_count ?s = task_count s" "vm ?s = vm s"
      "klog ?s = klog s"
    using assms(3) by (simp_all add: woken_def)
  have q: "q \<in> set ?xs" by simp
  obtain s' where s': "dispatch ?s 1 = Some s'" "ready_queue s' ?xs" "\<forall>z \<in> set ?xs. ntask s' z = saved ?s 1 z"
      "rtasks s' = rtasks s" "running_task s' = ?y" "previous s' = q" "task_count s' = task_count s"
      "vm s' = (vm s)\<lparr>cr3 := t_cr3 (ntask ?s ?y)\<rparr>" "cpu_rsp s' = t_rsp (ntask s' ?y)" "klog s' = klog s"
    using dispatch_ok [OF rq', of 1, unfolded f, OF y q] by blast
  have "ntask s' ?y = ntask ?s ?y" using bspec [OF s'(3) y] by (simp add: saved_def)
  then show ?thesis
    using s' P fields unfolding nt by (simp add: schedule_dispatch)
qed

lemma sys_exit_ok:
  assumes inv: "queue_inv s (us @ p # x # vs) lo hi n" and run: "running_task s = x"
    and prev: "us @ p # vs = us' @ q # vs'" "previous s = q" and c: "int_ok (int (length (us @ p # vs)))"
  shows "\<exists>s'. sys_exit s status = Some s' \<and> queue_inv s' (us @ p # vs) lo hi n \<and>
    running_task s' = pick s vs' \<and> previous s' = q \<and> cr3 (vm s') = t_cr3 (ntask s (pick s vs')) \<and>
    cpu_rsp s' = t_rsp (ntask s (pick s vs')) \<and> klog s' = klog s"
proof -
  obtain s1 where s1: "delete_curr_from_task_list s = Some s1" "queue_inv s1 (us @ p # vs) lo hi n"
      "running_task s1 = 0" "previous s1 = previous s" "tasks s1 = tasks s" "nproc s1 = nproc s" "klog s1 = klog s"
    using delete_curr_ok [OF inv run c] by blast
  have nt: "ntask s1 = ntask s" using s1(5,6) by (simp add: ntask_def fun_eq_iff)
  have rq: "ready_queue s (us @ p # x # vs)" using inv by (simp add: queue_inv_def)
  have rq1: "ready_queue s1 (us' @ q # vs')" using s1(2) prev(1) by (simp add: queue_inv_def)
  have hd: "queue_head s1 = queue_head s"
    using rq_head [OF rq] rq_head [of s1 "us @ p # vs"] s1(2) by (cases us) (simp_all add: queue_inv_def)
  have pk: "pick s1 vs' = pick s vs'" by (rule pick_cong) (simp_all add: blocked_def nt hd)
  obtain s' where s': "schedule s1 1 = Some s'" "ready_queue s' (us' @ q # vs')" "running_task s' = pick s vs'"
      "previous s' = q" "task_count s' = task_count s1" "vm s' = (vm s1)\<lparr>cr3 := t_cr3 (ntask s (pick s vs'))\<rparr>"
      "cpu_rsp s' = t_rsp (ntask s (pick s vs'))" "rtasks s' = rtasks s1" "klog s' = klog s1"
    using schedule_exited [OF rq1 s1(3)] s1(4) prev(2) by (auto simp: pk nt)
  have "queue_inv s' (us @ p # vs) lo hi n"
    using s1(2) s'(2,5,6,8) prev(1) by (simp add: queue_inv_def nodes_below_def)
  then show ?thesis using s1(1,7) s' by (simp add: sys_exit_def)
qed

lemma kernel_cmp_text:
  "kernel_cmp nm = Some (if nm 0 = 114 \<and> nm 1 = 111 \<and> nm 2 = 111 \<and> nm 3 = 116 \<and> nm 4 = 0 then 1 else - 1)"
  by (simp add: kernel_cmp_def name_mem_def kernel_name_def ld8_def
      str_cmp.simps [of _ 0 128] str_cmp.simps [of _ "Suc 0" 129] str_cmp.simps [of _ 2 130]
      str_cmp.simps [of _ 3 131] str_cmp.simps [of _ 4 132] numeral_2_eq_2 [symmetric])

end
