(* ===== verification/TaskCalls.thy ===== *)
theory TaskCalls
  imports Scheduler
begin

text \<open>
  The system calls \<^verbatim>\<open>sys_kill\<close>, \<^verbatim>\<open>sys_waitpid\<close> and
  \<^verbatim>\<open>sys_sleep\<close> of \<^verbatim>\<open>sys/process.c\<close>, the second memory area of a task, a small
  concrete task list, and the properties of the process component.
\<close>

section \<open>Updating one task\<close>

definition with_task :: "ksys \<Rightarrow> u64 \<Rightarrow> (task_struct \<Rightarrow> task_struct) \<Rightarrow> ksys" where
  "with_task s x f = s\<lparr>tasks := (tasks s)(nproc s x \<mapsto> f (ntask s x))\<rparr>"

lemma with_task_fields [simp]:
  "rtasks (with_task s x f) = rtasks s" "queue_head (with_task s x f) = queue_head s"
  "running_task (with_task s x f) = running_task s" "nproc (with_task s x f) = nproc s"
  by (simp_all add: with_task_def nproc_def fun_eq_iff)

lemma with_task:
  assumes "ready_queue s xs" and "x \<in> set xs"
  shows "upd_task s (nproc s x) f = Some (with_task s x f)" "ready_queue (with_task s x f) xs"
    "z \<in> set xs \<Longrightarrow> ntask (with_task s x f) z = (if z = x then f (ntask s x) else ntask s z)"
proof -
  show "upd_task s (nproc s x) f = Some (with_task s x f)"
    using rq_node(2) [OF assms] by (simp add: upd_task_def with_task_def)
  show "ready_queue (with_task s x f) xs"
    by (rule ready_queue_cong [OF assms(1)]) (simp_all add: with_task_def)
  show "ntask (with_task s x f) z = (if z = x then f (ntask s x) else ntask s z)" if "z \<in> set xs"
    using rq_same_proc [OF assms(1) that assms(2)] with_task_fields(4) [of s x f]
    unfolding ntask_def [of "with_task s x f"] by (simp add: with_task_def ntask_def)
qed

lemma say_frame [simp]:
  "rtasks (say s m) = rtasks s" "tasks (say s m) = tasks s" "queue_head (say s m) = queue_head s"
  "running_task (say s m) = running_task s" "previous (say s m) = previous s" "klog (say s m) = klog s @ [m]"
  "cpu_rsp (say s m) = cpu_rsp s" "vm (say s m) = vm s" "task_count (say s m) = task_count s"
  by (simp_all add: say_def)

lemma say_nodes [simp]: "nproc (say s m) = nproc s" "ntask (say s m) = ntask s"
  by (rule nproc_cong ntask_frame; simp)+

lemma say_queue [simp]: "ready_queue (say s m) xs = ready_queue s xs"
  by (simp add: ready_queue_def)

section \<open>sys_sleep\<close>

lemma sys_sleep_ok:
  assumes rq: "ready_queue s (us @ x # vs)" and run: "running_task s = x"
  shows "\<exists>s'. sys_sleep s time = Some s' \<and> ready_queue s' (us @ x # vs) \<and> is_sleeping (ntask s' x) = 1 \<and>
    sleep_time (ntask s' x) = of_int time \<and> running_task s' = pick s vs"
proof -
  let ?f = "\<lambda>t::task_struct. t\<lparr>sleep_time := of_int time, is_sleeping := 1\<rparr>"
  let ?s = "with_task s x ?f" and ?xs = "us @ x # vs"
  have x: "x \<in> set ?xs" by simp
  note w = with_task [OF rq x, where f = ?f]
  have run': "running_task ?s = x" using run by simp
  have "x \<notin> set vs" using ready_queueD(4) [OF rq] by simp
  then have "ntask ?s z = ntask s z" if "z \<in> set vs" for z using w(3) [of z] that by auto
  then have pk: "pick ?s vs = pick s vs" by (intro pick_cong) (simp_all add: blocked_def)
  obtain s' where s': "schedule ?s 0 = Some s'" "ready_queue s' ?xs" "\<forall>z \<in> set ?xs. ntask s' z = sched_task ?s x vs z"
      "running_task s' = pick ?s vs"
    using schedule_ok [OF w(2) run'] by blast
  have "ntask s' x = sched_task ?s x vs x" using bspec [OF s'(3) x] .
  then have "is_sleeping (ntask s' x) = 1" "sleep_time (ntask s' x) = of_int time"
    using w(3) [OF x] by (simp_all add: sched_task_def Let_def)
  moreover have "sys_sleep s time = Some s'"
    using s'(1) w(1) rq_node(1) [OF rq x] run by (simp add: sys_sleep_def get_running_task_def)
  ultimately show ?thesis using s' pk by simp
qed

section \<open>sys_waitpid\<close>

lemma wait_loop_find:
  assumes "chain rt_next (rtasks s) h (us @ c # vs)" and "\<And>z. z \<in> set (us @ [c]) \<Longrightarrow> task_at s z = Some (ntask s z)"
    and "\<And>z. z \<in> set us \<Longrightarrow> \<not> P (ntask s z)" and "P (ntask s c)" and "proc_of s c = Some (nproc s c)"
  shows "wait_loop s cur h P = do { s' \<leftarrow> upd_task s cur (is_waiting_update (\<lambda>_. pid (ntask s c)));
    s' \<leftarrow> schedule s' 0; t \<leftarrow> tasks s' (nproc s c); Some (s', pid t) }"
  using assms
proof (induction us arbitrary: h)
  case Nil
  then show ?case by (subst wait_loop.simps) (auto simp: chain_Cons)
next
  case (Cons u us)
  then show ?case by (subst wait_loop.simps) (auto simp: chain_Cons next_of_def)
qed

lemma sys_waitpid_ok:
  assumes rq: "ready_queue s (us @ x # vs)" and run: "running_task s = x"
    and c: "us @ x # vs = cs @ c # ds" "first_with s i cs c" and i: "i \<noteq> 0" and bg: "bg \<noteq> 1"
  shows "\<exists>s'. sys_waitpid s i bg = Some (s', i) \<and> ready_queue s' (us @ x # vs) \<and>
    is_waiting (ntask s' x) = (if is_sleeping (ntask s c) = 0 then 0 else i) \<and> running_task s' = pick s vs"
proof -
  let ?s = "with_task s x (is_waiting_update (\<lambda>_. i))" and ?xs = "us @ x # vs"
  have x: "x \<in> set ?xs" by simp
  have cx: "c \<in> set ?xs" by (simp add: c(1))
  have pc: "pid (ntask s c) = i" "\<And>z. z \<in> set cs \<Longrightarrow> pid (ntask s z) \<noteq> i" using c(2) by (simp_all add: first_with_def)
  note w = with_task [OF rq x, where f = "is_waiting_update (\<lambda>_. i)"]
  have run': "running_task ?s = x" using run by simp
  have "x \<notin> set vs" using ready_queueD(4) [OF rq] by simp
  then have "ntask ?s z = ntask s z" if "z \<in> set vs" for z using w(3) [of z] that by auto
  then have pk: "pick ?s vs = pick s vs" by (intro pick_cong) (simp_all add: blocked_def)
  obtain s' where s': "schedule ?s 0 = Some s'" "ready_queue s' ?xs" "\<forall>z \<in> set ?xs. ntask s' z = sched_task ?s x vs z"
      "running_task s' = pick ?s vs" "rtasks s' = rtasks ?s"
    using schedule_ok [OF w(2) run'] by blast
  have rqc: "ready_queue ?s (cs @ c # ds)" using w(2) c(1) by simp
  have keep: "pid (ntask ?s z) = pid (ntask s z)" "is_sleeping (ntask ?s z) = is_sleeping (ntask s z)"
    if "z \<in> set ?xs" for z using w(3) [OF that] by simp_all
  have fw: "first_with ?s i cs c" using c keep(1) by (auto simp: first_with_def)
  have fin: "is_child_done ?s i = Some (if is_sleeping (ntask s c) = 0 then 1 else 0)"
    using find_pid_first [OF rqc fw] rq_node [OF rqc, of c] keep(2) [OF cx] by (simp add: is_child_done_def)
  have tx: "ntask s' x = sched_task ?s x vs x" by (rule bspec [OF s'(3) x])
  have "is_waiting (ntask ?s x) = i" using w(3) [OF x] by simp
  then have wait: "is_waiting (ntask s' x) = (if is_sleeping (ntask s c) = 0 then 0 else i)"
    using tx fin i by (simp add: sched_task_def wake_val_def Let_def word_neq_0_conv)
  have np: "nproc s' = nproc s" by (rule nproc_cong) (simp add: s'(5))
  have "pid (ntask s' c) = i"
    using bspec [OF s'(3) cx] keep(1) [OF cx] pc(1) by simp
  then have "wait_loop s (nproc s x) (queue_head s) (\<lambda>c. pid c = i) = Some (s', i)"
    using wait_loop_find [of s "queue_head s" cs c ds "\<lambda>c. pid c = i" "nproc s x"] ready_queueD(1) [OF rq]
      rq_node [OF rq] pc c(1) w(1) s'(1) rq_node(2) [OF s'(2) cx] by (auto simp: np)
  then have "sys_waitpid s i bg = Some (s', i)"
    using i bg run rq_node [OF rq x] by (simp add: sys_waitpid_def get_running_task_def)
  then show ?thesis using s' wait pk by simp
qed

section \<open>sys_kill\<close>

lemma kill_loop_find:
  assumes "chain rt_next (rtasks s) h (us @ c # vs)" and "\<And>z. z \<in> set (us @ [c]) \<Longrightarrow> task_at s z = Some (ntask s z)"
    and "first_with s i us c"
  shows "kill_loop s h i =
    (if kernel_cmp (tname (ntask s c)) = Some 1 then schedule (say s Cannot_kill_kernel) 0
     else if c = running_task s then do { s \<leftarrow> delete_curr_from_task_list s; schedule s 1 }
     else do { nx \<leftarrow> next_of s c; kill_loop s nx i })"
  using assms
proof (induction us arbitrary: h)
  case Nil
  then show ?case by (subst kill_loop.simps) (auto simp: chain_Cons first_with_def kernel_cmp_text)
next
  case (Cons u us)
  then show ?case by (subst kill_loop.simps) (auto simp: chain_Cons next_of_def first_with_def)
qed

lemma kill_loop_queue:
  assumes rq: "ready_queue s (us @ c # vs)" and "first_with s i us c"
  shows "kill_loop s (queue_head s) i =
    (if kernel_cmp (tname (ntask s c)) = Some 1 then schedule (say s Cannot_kill_kernel) 0
     else if c = running_task s then do { s \<leftarrow> delete_curr_from_task_list s; schedule s 1 }
     else do { nx \<leftarrow> next_of s c; kill_loop s nx i })"
  by (rule kill_loop_find [OF ready_queueD(1) [OF rq] _ assms(2)]) (use rq_node(3) [OF rq] in auto)

lemma kill_loop_rest:
  assumes "chain rt_next (rtasks s) h vs" and "\<And>z. z \<in> set vs \<Longrightarrow> task_at s z = Some (ntask s z) \<and> pid (ntask s z) \<noteq> i"
  shows "kill_loop s h i = do { s \<leftarrow> delete_from_task_list s i; schedule s 0 }"
  using assms
proof (induction vs arbitrary: h)
  case Nil
  then show ?case by (subst kill_loop.simps) simp
next
  case (Cons u us)
  then show ?case by (subst kill_loop.simps) (auto simp: chain_Cons next_of_def)
qed

lemma sys_kill_kernel:
  assumes rq: "ready_queue s (us @ c # vs)" and f: "first_with s i us c"
    and root: "kernel_cmp (tname (ntask s c)) = Some 1"
    and run: "running_task s \<in> set (us @ c # vs)" and pp: "ppid (ntask s (running_task s)) \<noteq> i"
  shows "sys_kill s i = schedule (say s Cannot_kill_kernel) 0"
  using rq_node(3) [OF rq run] pp kill_loop_queue [OF rq f] root
  by (simp add: sys_kill_def)

lemma sys_kill_other:
  assumes rq: "ready_queue s (us @ p # c # vs)" and f: "first_with s i (us @ [p]) c"
    and uniq: "\<And>z. z \<in> set vs \<Longrightarrow> pid (ntask s z) \<noteq> i"
    and user: "kernel_cmp (tname (ntask s c)) \<noteq> Some 1" and run: "running_task s \<in> set (us @ p # vs)"
    and pp: "ppid (ntask s (running_task s)) \<noteq> i"
  shows "sys_kill s i = schedule (relinked s p (first_of vs)) 0"
proof -
  have rq': "ready_queue s ((us @ [p]) @ c # vs)" using rq by simp
  have nr: "c \<noteq> running_task s" using ready_queueD(4) [OF rq] run by auto
  have n: "next_of s c = Some (first_of vs)" by (rule rq_next [OF rq'])
  have ch: "chain rt_next (rtasks s) (first_of vs) vs"
    using chain_suffix [OF ready_queueD(1) [OF rq']] n by (auto simp: chain_Cons next_of_def)
  have "kill_loop s (first_of vs) i = do { s \<leftarrow> delete_from_task_list s i; schedule s 0 }"
    by (rule kill_loop_rest [OF ch]) (use rq_node(3) [OF rq] uniq in auto)
  then have "kill_loop s (queue_head s) i = schedule (relinked s p (first_of vs)) 0"
    using kill_loop_queue [OF rq' f] user nr n
      delete_from_inner [OF rq f] by simp
  moreover have "task_at s (running_task s) = Some (ntask s (running_task s))"
    using rq_node(3) [OF rq, of "running_task s"] run by auto
  ultimately show ?thesis using pp by (simp add: sys_kill_def)
qed

section \<open>The second memory area of a task\<close>

lemma frame_ptr_Suc: "frame_ptr f + 4096 = frame_ptr (Suc f)"
  by (simp add: frame_ptr_def VADDR_def)

lemma ksys_kmalloc_ok:
  assumes "fl_inv (vkst (vm s)) lo hi n" and "pages_for sz = int k" and "0 < k" and "lo + k \<le> hi"
  shows "\<exists>st'. ksys_kmalloc s sz = Some (s\<lparr>vm := (vm s)\<lparr>vkst := st'\<rparr>\<rparr>, frame_ptr lo) \<and> fl_inv st' (lo + k) hi n \<and>
    frame_ptr lo \<noteq> 0 \<and> alloc_post (vkst (vm s)) st' lo k hi"
  using kmalloc_frame [OF assms] by (auto simp: ksys_kmalloc_def)

lemma set_kmem_simps [simp]:
  "kmem_of (set_kmem s m) = m" "free_list (vkst (vm (set_kmem s m))) = free_list (vkst (vm s))"
  "vkst (vm (set_kmem s m)) = (vkst (vm s))\<lparr>kmem := m\<rparr>" "tasks (set_kmem s m) = tasks s" "rtasks (set_kmem s m) = rtasks s"
  "mms (set_kmem s m) = mms s" "queue_head (set_kmem s m) = queue_head s" "running_task (set_kmem s m) = running_task s"
  by (simp_all add: set_kmem_def)

lemma frame_ptr_loc: "fl_inv st lo hi n \<Longrightarrow> f < hi \<Longrightarrow> loc (frame_ptr f) = 4096 * f"
  using table_low [of st lo hi n f] unfolding frame_ptr_def by (intro loc_VADDR_of_nat) (auto simp: low_def)

lemma vma_malloc_first:
  assumes "fl_inv (vkst (vm s)) lo hi n" and "lo < hi" and "mms s mmp = Some m" and "mm_mmap m = 0"
  shows "\<exists>st'. vma_malloc s mmp = Some (s\<lparr>vm := (vm s)\<lparr>vkst := st'\<rparr>,
      mms := (mms s)(mmp \<mapsto> m\<lparr>mm_mmap := frame_ptr lo, mm_count := mm_count m + 1\<rparr>)\<rparr>, frame_ptr lo) \<and>
    fl_inv st' (Suc lo) hi n \<and> frame_ptr lo \<noteq> 0 \<and> alloc_post (vkst (vm s)) st' lo 1 hi \<and>
    vm_next (vma_at (kmem st') (frame_ptr lo)) = 0"
proof -
  have "pages_for 64 = int 1" by (simp add: pages_for_def to_int_def)
  then obtain st' where st': "ksys_kmalloc s 64 = Some (s\<lparr>vm := (vm s)\<lparr>vkst := st'\<rparr>\<rparr>, frame_ptr lo)" "fl_inv st' (lo + 1) hi n"
      "frame_ptr lo \<noteq> 0" "alloc_post (vkst (vm s)) st' lo 1 hi"
    using ksys_kmalloc_ok [OF assms(1), of 64 1] assms(2) by auto
  have "same_on (4096 * lo + 56) 8 (kmem st') (\<lambda>_. 0)" using st'(4) by (auto simp: alloc_post_def same_on_def)
  then have "vm_next (vma_at (kmem st') (frame_ptr lo)) = 0"
    using frame_ptr_loc [OF assms(1,2)] ld64_same [of "4096 * lo + 56"] by (simp add: vma_at_def Let_def ld64_zero)
  then show ?thesis using st' assms(3,4) by (intro exI [of _ st']) (simp add: vma_malloc_def)
qed

lemma vma_malloc_next:
  assumes "fl_inv (vkst (vm s)) lo hi n" and "f < lo" and "unat (free_list (vkst (vm s))) + 24 * hi \<le> 4096 * f"
    and "mms s mmp = Some m" and "mm_mmap m = frame_ptr f" and "frame_ptr f \<noteq> 0" and "vm_next (vma_at (kmem_of s) (frame_ptr f)) = 0"
  shows "\<exists>s'. vma_malloc s mmp = Some (s', frame_ptr (Suc f)) \<and>
    s' = (set_kmem s (st64 (kmem_of s) (4096 * f + 56) (frame_ptr (Suc f))))\<lparr>mms := (mms s)(mmp \<mapsto> m\<lparr>mm_count := mm_count m + 1\<rparr>)\<rparr> \<and>
    fl_inv (vkst (vm s')) lo hi n"
proof -
  have "f < hi" using assms(2) fl_invD(3) [OF assms(1)] by simp
  note l = frame_ptr_loc [OF assms(1) this]
  have "last_vma s (frame_ptr f) = Some (frame_ptr f)"
    unfolding last_vma_def by (subst last_link.simps) (simp add: vma_store_def assms(6,7))
  moreover have "same_on (unat (free_list (vkst (vm s)))) (24 * hi) (st64 (kmem_of s) (4096 * f + 56) (frame_ptr (Suc f))) (kmem_of s)"
    using assms(3) by (auto simp: same_on_def intro!: cell64.st_frame)
  ultimately show ?thesis
    using assms l fl_inv_write [OF assms(1)] by (simp add: vma_malloc_def Let_def frame_ptr_Suc)
qed

section \<open>A task list\<close>

definition root_name :: "nat \<Rightarrow> u8" where
  "root_name i = (if i < 4 then kernel_name ! i else 0)"

text \<open>The kernel task, number 1, and a task with number 2 and parent \<open>pp\<close> behind it.\<close>

definition demo_tasks :: "u64 \<Rightarrow> u64 \<rightharpoonup> task_struct" where
  "demo_tasks pp = [0x1000 \<mapsto> zero_task\<lparr>pid := 1, tname := root_name, t_rsp := 0x1800, t_cr3 := 0x7000\<rparr>,
     0x20000 \<mapsto> zero_task\<lparr>pid := 2, ppid := pp, t_rsp := 0x20800, t_cr3 := 0x8000\<rparr>,
     0x30000 \<mapsto> zero_task\<lparr>pid := 3\<rparr>]"

definition demo_nodes :: "u64 \<rightharpoonup> ready_task" where
  "demo_nodes = [0xFFFFFFFF80000000 \<mapsto> \<lparr>rt_process = 0x1000, rt_next = 0xFFFFFFFF80001000, rt_prev = 0\<rparr>,
     0xFFFFFFFF80001000 \<mapsto> \<lparr>rt_process = 0x20000, rt_next = 0, rt_prev = 0\<rparr>]"

definition demo :: "u64 \<Rightarrow> u64 \<Rightarrow> u64 \<Rightarrow> ksys" where
  "demo run prv pp = \<lparr>vm = \<lparr>vkst = boot_st, topVAddr = 0, ker_cr3 = 0, ker_pml4_t = 0, cr3 = 0x7000\<rparr>,
     tasks = demo_tasks pp, rtasks = demo_nodes, mms = [0x5000 \<mapsto> \<lparr>mm_count = 0, mm_mmap = 0\<rparr>],
     queue_head = 0xFFFFFFFF80000000, running_task = run, previous = prv, task_count = 2, PID = 4,
     tss_rsp0 = 0, cpu_rsp = 0x20400, klog = []\<rparr>"

abbreviation node0 :: u64 where "node0 \<equiv> 0xFFFFFFFF80000000"
abbreviation node1 :: u64 where "node1 \<equiv> 0xFFFFFFFF80001000"

lemma demo_frames: "frame_ptr 0 = node0" "frame_ptr (Suc 0) = node1" "frame_ptr 2 = 0xFFFFFFFF80002000"
  by (simp_all add: frame_ptr_def VADDR_def KERNEL_VADDR_def)

lemma demo_node [simp]:
  "nproc (demo r p q) node0 = 0x1000" "nproc (demo r p q) node1 = 0x20000"
  "ntask (demo r p q) node0 = zero_task\<lparr>pid := 1, tname := root_name, t_rsp := 0x1800, t_cr3 := 0x7000\<rparr>"
  "ntask (demo r p q) node1 = zero_task\<lparr>pid := 2, ppid := q, t_rsp := 0x20800, t_cr3 := 0x8000\<rparr>"
  by (simp_all add: nproc_def ntask_def demo_def demo_nodes_def demo_tasks_def)

lemma demo_queue: "ready_queue (demo r p q) [node0, node1]"
  unfolding ready_queue_def
  by (simp add: demo_def [of r p q] chain_Cons demo_nodes_def) (simp add: demo_def [symmetric] demo_tasks_def nproc_def demo_def demo_nodes_def)

lemma demo_inv: "queue_inv (demo r p q) [node0, node1] 2 170 171"
proof -
  have "rtasks (demo r p q) x \<noteq> None \<Longrightarrow> x = frame_ptr 0 \<or> x = frame_ptr (Suc 0)" for x
    by (auto simp: demo_def demo_nodes_def demo_frames split: if_splits)
  then have "nodes_below (demo r p q) 2" unfolding nodes_below_def by (metis lessI numeral_2_eq_2 zero_less_Suc)
  moreover have "vkst (vm (demo r p q)) = boot_st" "task_count (demo r p q) = int (length [node0, node1])"
    by (simp_all add: demo_def)
  ultimately show ?thesis using demo_queue boot_inv by (simp add: queue_inv_def)
qed

lemma demo_fields [simp]:
  "queue_head (demo r p q) = node0" "running_task (demo r p q) = r" "previous (demo r p q) = p"
  "cpu_rsp (demo r p q) = 0x20400" "klog (demo r p q) = []"
  by (simp_all add: demo_def)

section \<open>Properties\<close>

text \<open>
  C27. \<^verbatim>\<open>add_to_task_list\<close> refines appending to a list: the links run through the old
  nodes and then the new one, the new node holds the process, the task count is the length, and no
  other part of the queue changes. The node is a page the allocator had not given out.
\<close>

theorem add_to_task_list_appends:
  assumes "queue_inv s xs lo hi n" and "lo < hi" and "tasks s p \<noteq> None" and "p \<notin> nproc s ` set xs"
    and "int_ok (int (length xs) + 1)"
  shows "\<exists>s'. add_to_task_list s p = Some s' \<and> queue_inv s' (xs @ [frame_ptr lo]) (Suc lo) hi n \<and>
    nproc s' (frame_ptr lo) = p \<and> tasks s' = tasks s \<and>
    running_task s' = (if xs = [] then frame_ptr lo else running_task s)"
  using add_to_task_list_ok [OF assms] by blast

theorem add_to_task_list_appends_witness:
  "\<exists>s'. add_to_task_list (demo node1 node0 1) 0x30000 = Some s' \<and>
    queue_inv s' [node0, node1, 0xFFFFFFFF80002000] 3 170 171"
proof -
  have "tasks (demo node1 node0 1) 0x30000 \<noteq> None" by (simp add: demo_def demo_tasks_def)
  from add_to_task_list_appends [OF demo_inv [of node1 node0 1] _ this] show ?thesis
    by (auto simp: demo_frames int_ok_def numeral_3_eq_3)
qed

text \<open>
  C25. \<^verbatim>\<open>delete_curr_from_task_list\<close> refines the removal of the running task from the
  list, except that it follows the null pointer when the running task is the head of the queue.
\<close>

theorem delete_curr_removes:
  assumes "queue_inv s xs lo hi n" and "running_task s \<in> set xs" and "int_ok (int (length xs))"
  shows "if running_task s = queue_head s then delete_curr_from_task_list s = None
    else (\<exists>s'. delete_curr_from_task_list s = Some s' \<and> queue_inv s' (remove1 (running_task s) xs) lo hi n \<and>
      running_task s' = 0 \<and> previous s' = previous s \<and> tasks s' = tasks s)"
proof (cases "running_task s = queue_head s")
  case True
  have "ready_queue s xs" "xs \<noteq> []" using assms(1,2) by (auto simp: queue_inv_def)
  with True show ?thesis using delete_curr_head by auto
next
  case False
  have rq: "ready_queue s xs" using assms(1) by (simp add: queue_inv_def)
  obtain us p vs where xs: "xs = us @ p # running_task s # vs"
    using split_pred [OF assms(2)] False rq_head [OF rq] by auto
  have "remove1 (running_task s) ((us @ [p]) @ running_task s # vs) = (us @ [p]) @ vs"
    by (rule remove_split) (use ready_queueD(4) [OF rq] xs in simp)
  then have "remove1 (running_task s) xs = us @ p # vs" using xs by simp
  moreover have "int_ok (int (length (us @ p # vs)))" using assms(3) xs by (auto simp: int_ok_def)
  ultimately show ?thesis
    using False delete_curr_ok [of s us p "running_task s" vs lo hi n] assms(1) xs by auto
qed

theorem delete_curr_removes_witness:
  "delete_curr_from_task_list (demo node0 node1 1) = None \<and>
   (\<exists>s'. delete_curr_from_task_list (demo node1 node0 1) = Some s' \<and> queue_inv s' [node0] 2 170 171)"
  using delete_curr_removes [OF demo_inv [of node0 node1 1]] delete_curr_removes [OF demo_inv [of node1 node0 1]]
  by (auto simp: int_ok_def)

text \<open>
  C26. \<^verbatim>\<open>delete_from_task_list\<close> removes the first task with the given number from the
  list, reports an unknown number, and follows the null pointer when the task is both the head
  of the queue and the one that ran before. It never adjusts the task count.
\<close>

theorem delete_from_removes:
  assumes "ready_queue s xs"
  shows "((\<forall>x \<in> set xs. pid (ntask s x) \<noteq> i) \<longrightarrow> delete_from_task_list s i = Some (say s (Pid_not_found i))) \<and>
    (xs = us @ x # vs \<and> first_with s i us x \<longrightarrow>
      (if us = [] \<and> x = previous s then delete_from_task_list s i = None
       else (\<exists>s'. delete_from_task_list s i = Some s' \<and> ready_queue s' (us @ vs) \<and>
         task_count s' = task_count s \<and> tasks s' = tasks s)))"
proof
  show "(\<forall>x \<in> set xs. pid (ntask s x) \<noteq> i) \<longrightarrow> delete_from_task_list s i = Some (say s (Pid_not_found i))"
    using delete_from_absent [OF assms] by blast
  show "xs = us @ x # vs \<and> first_with s i us x \<longrightarrow>
      (if us = [] \<and> x = previous s then delete_from_task_list s i = None
       else (\<exists>s'. delete_from_task_list s i = Some s' \<and> ready_queue s' (us @ vs) \<and>
         task_count s' = task_count s \<and> tasks s' = tasks s))"
  proof
    assume h: "xs = us @ x # vs \<and> first_with s i us x"
    show "if us = [] \<and> x = previous s then delete_from_task_list s i = None
       else (\<exists>s'. delete_from_task_list s i = Some s' \<and> ready_queue s' (us @ vs) \<and>
         task_count s' = task_count s \<and> tasks s' = tasks s)"
    proof (cases us rule: rev_cases)
      case Nil
      then show ?thesis
        using delete_from_head [of s x vs i] ready_queue_tl [of s x vs] assms h by (simp add: first_with_def)
    next
      case (snoc ws p)
      then have "ready_queue s (ws @ p # x # vs)" using assms h by simp
      then show ?thesis using delete_from_inner [of s ws p x vs i] relinked_queue [of s ws p x vs] snoc h by simp
    qed
  qed
qed

theorem delete_from_removes_witness:
  "delete_from_task_list (demo node1 node0 1) 9 = Some (say (demo node1 node0 1) (Pid_not_found 9)) \<and>
   delete_from_task_list (demo node1 node0 1) 1 = None \<and>
   (\<exists>s'. delete_from_task_list (demo node0 node1 1) 2 = Some s' \<and> ready_queue s' [node0])"
  using delete_from_removes [OF demo_queue [of node1 node0 1], of 9]
    delete_from_removes [OF demo_queue [of node1 node0 1], of 1 "[]" node0 "[node1]"]
    delete_from_removes [OF demo_queue [of node0 node1 1], of 2 "[node0]" node1 "[]"]
  by (auto simp: first_with_def zero_task_def)

text \<open>
  C15. \<^verbatim>\<open>schedule(0)\<close> runs the first task behind the current one that neither sleeps
  nor waits, and the head of the queue if there is none. It saves the stack pointer of the old
  task, loads address space and stack pointer of the new one, points the interrupt stack at the new
  task's kernel stack, and keeps the queue.
\<close>

theorem schedule_switches:
  assumes "ready_queue s (us @ x # vs)" and "running_task s = x"
  shows "\<exists>s' y. schedule s 0 = Some s' \<and> ready_queue s' (us @ x # vs) \<and>
    y = (case dropWhile (blocked s) vs of [] \<Rightarrow> queue_head s | y # _ \<Rightarrow> y) \<and>
    running_task s' = y \<and> previous s' = x \<and> t_rsp (ntask s' x) = cpu_rsp s \<and>
    cpu_rsp s' = (if y = x then cpu_rsp s else t_rsp (ntask s y)) \<and> cr3 (vm s') = t_cr3 (ntask s y) \<and>
    vkst (vm s') = vkst (vm s) \<and> tss_rsp0 s' = nproc s y + 8 + 8 * 511"
proof -
  have y: "(case dropWhile (blocked s) vs of [] \<Rightarrow> queue_head s | y # _ \<Rightarrow> y) = pick s vs"
  proof (cases "dropWhile (blocked s) vs")
    case (Cons y ys)
    then have "y \<in> set vs" by (metis list.set_intros(1) set_dropWhileD)
    then have "y \<noteq> 0" using rq_node(4) [OF assms(1), of y] by simp
    then show ?thesis unfolding pick_def Cons by simp
  next
    case Nil
    show ?thesis unfolding pick_def Nil by simp
  qed
  have x: "x \<in> set (us @ x # vs)" by simp
  obtain s' where s': "schedule s 0 = Some s'" "ready_queue s' (us @ x # vs)"
      "\<forall>z \<in> set (us @ x # vs). ntask s' z = sched_task s x vs z" "running_task s' = pick s vs" "previous s' = x"
      "vm s' = (vm s)\<lparr>cr3 := t_cr3 (ntask s (pick s vs))\<rparr>" "tss_rsp0 s' = nproc s (pick s vs) + 4096"
      "cpu_rsp s' = t_rsp (ntask s' (pick s vs))"
    using schedule_ok [OF assms] by blast
  show ?thesis
    using s' bspec [OF s'(3) x] bspec [OF s'(3) pick_in [OF assms(1)]] unfolding y
    by (intro exI [of _ s'] exI [of _ "pick s vs"]) simp
qed

theorem schedule_switches_witness:
  "\<exists>s'. schedule (demo node0 node1 1) 0 = Some s' \<and> running_task s' = node1 \<and> cpu_rsp s' = 0x20800 \<and>
    cr3 (vm s') = 0x8000 \<and> tss_rsp0 s' = 0x21000"
  using schedule_switches [of "demo node0 node1 1" "[]" node0 "[node1]"] demo_queue [of node0 node1 1]
  by (auto simp: blocked_def zero_task_def)

text \<open>
  C3. No runnable task starves: from any running task, a task that neither sleeps nor waits
  runs after fewer calls of \<^verbatim>\<open>schedule(0)\<close> than there are tasks, whatever the others do.
\<close>

theorem runnable_gets_turn:
  assumes "ready_queue s xs" and "i < length xs" and "running_task s = xs ! i"
    and "j < length xs" and "is_sleeping (ntask s (xs ! j)) = 0" and "is_waiting (ntask s (xs ! j)) = 0"
  shows "\<exists>k s'. k < length xs \<and> schedules k s = Some s' \<and> ready_queue s' xs \<and> running_task s' = xs ! j"
proof -
  have "\<not> blocked s (xs ! j)" using assms(5,6) by (simp add: blocked_def)
  then obtain k s' where "k \<le> turn_dist (length xs) i j" "schedules k s = Some s'" "ready_queue s' xs" "running_task s' = xs ! j"
    using turn_within [OF assms(1-4)] by blast
  moreover have "turn_dist (length xs) i j < length xs" using assms(2,4) by (auto simp: turn_dist_def)
  ultimately show ?thesis by (metis le_less_trans)
qed

theorem runnable_gets_turn_witness:
  "\<exists>k s'. k < 2 \<and> schedules k (demo node0 node1 1) = Some s' \<and> running_task s' = node1"
  using runnable_gets_turn [OF demo_queue [of node0 node1 1], of 0 1]
  by (auto simp: zero_task_def numeral_2_eq_2)

text \<open>
  C17. A task that sleeps for \<open>w\<close> ticks is woken by exactly the \<open>w\<close>-th call of
  \<^verbatim>\<open>dec_sleep_count\<close>; \<^verbatim>\<open>sleep(0)\<close>, whose counter is decremented before it is
  tested, sleeps for the whole range of the counter.
\<close>

theorem sleep_wakes:
  assumes "ready_queue s (us @ x # vs)" and "running_task s = x"
  shows "\<exists>s1. sys_sleep s w = Some s1 \<and> ready_queue s1 (us @ x # vs) \<and>
    (\<forall>j. \<exists>s2. ticks j s1 = Some s2 \<and> ready_queue s2 (us @ x # vs) \<and>
      is_sleeping (ntask s2 x) = (if j < (if (of_int w :: u64) = 0 then 2 ^ 64 else unat (of_int w :: u64)) then 1 else 0))"
proof -
  obtain s1 where s1: "sys_sleep s w = Some s1" "ready_queue s1 (us @ x # vs)" "is_sleeping (ntask s1 x) = 1"
      "sleep_time (ntask s1 x) = of_int w"
    using sys_sleep_ok [OF assms] by blast
  have "\<exists>s2. ticks j s1 = Some s2 \<and> ready_queue s2 (us @ x # vs) \<and>
      is_sleeping (ntask s2 x) = (if j < wake_after (of_int w) then 1 else 0)" for j
    using ticks_queue [OF s1(2), of j] sleep_tick_run [OF s1(3), of j] s1(4) by auto
  with s1 show ?thesis by (auto simp: wake_after_def)
qed

theorem sleep_wakes_witness:
  "\<exists>s1 s2 s3. sys_sleep (demo node0 node1 1) 3 = Some s1 \<and> ticks 2 s1 = Some s2 \<and> is_sleeping (ntask s2 node0) = 1 \<and>
     ticks 3 s1 = Some s3 \<and> is_sleeping (ntask s3 node0) = 0"
proof -
  have rq: "ready_queue (demo node0 node1 1) ([] @ node0 # [node1])" using demo_queue by simp
  obtain s1 where s1: "sys_sleep (demo node0 node1 1) 3 = Some s1" and
    t: "\<forall>j. \<exists>s2. ticks j s1 = Some s2 \<and> ready_queue s2 ([] @ node0 # [node1]) \<and>
      is_sleeping (ntask s2 node0) = (if j < (if (of_int 3 :: u64) = 0 then 2 ^ 64 else unat (of_int 3 :: u64)) then 1 else 0)"
    using sleep_wakes [OF rq, of 3] by auto
  then show ?thesis using spec [OF t, of 2] spec [OF t, of 3] by auto
qed

text \<open>
  C18. \<^verbatim>\<open>sys_exit\<close> takes the running task off the queue and resumes the first runnable
  task behind the one that ran before it, with that task's address space and stack. An exit of the
  task at the head of the queue follows the null pointer.
\<close>

theorem sys_exit_removes:
  assumes "queue_inv s (us @ p # x # vs) lo hi n" and "us @ p # vs = us' @ q # vs'" and "previous s = q"
    and "int_ok (int (length (us @ p # vs)))"
  shows "(running_task s = x \<longrightarrow> (\<exists>s'. sys_exit s status = Some s' \<and> queue_inv s' (us @ p # vs) lo hi n \<and>
      running_task s' = pick s vs' \<and> cr3 (vm s') = t_cr3 (ntask s (pick s vs')) \<and>
      cpu_rsp s' = t_rsp (ntask s (pick s vs')))) \<and>
    (running_task s = queue_head s \<longrightarrow> sys_exit s status = None)"
proof -
  have rq: "ready_queue s (us @ p # x # vs)" using assms(1) by (simp add: queue_inv_def)
  have "sys_exit s status = None" if "running_task s = queue_head s"
    using delete_curr_head [OF rq _ that] by (simp add: sys_exit_def)
  moreover have "\<exists>s'. sys_exit s status = Some s' \<and> queue_inv s' (us @ p # vs) lo hi n \<and>
      running_task s' = pick s vs' \<and> cr3 (vm s') = t_cr3 (ntask s (pick s vs')) \<and>
      cpu_rsp s' = t_rsp (ntask s (pick s vs'))" if "running_task s = x"
    using sys_exit_ok [OF assms(1) that assms(2-4), of status] by blast
  ultimately show ?thesis by blast
qed

theorem sys_exit_removes_witness:
  "(\<exists>s'. sys_exit (demo node1 node0 1) 0 = Some s' \<and> queue_inv s' [node0] 2 170 171 \<and> running_task s' = node0 \<and>
      cr3 (vm s') = 0x7000) \<and> sys_exit (demo node0 node0 1) 0 = None"
proof -
  have inv: "queue_inv (demo r node0 1) ([] @ node0 # node1 # []) 2 170 171" for r using demo_inv by simp
  have k: "int_ok (int (length ([] @ [node0])))" by (simp add: int_ok_def)
  show ?thesis
    using sys_exit_removes [OF inv [of node1] _ _ k, of "[]" node0 "[]" 0]
      sys_exit_removes [OF inv [of node0] _ _ k, of "[]" node0 "[]" 0]
    by (auto simp: pick_def)
qed

text \<open>
  C29. \<^verbatim>\<open>sys_waitpid\<close> on a queued child returns its number, but the caller is left
  waiting only when the child sleeps: for any other child the wait mark is cleared by the same call
  of \<^verbatim>\<open>schedule\<close> although the child has not finished.
\<close>

theorem waitpid_only_sleepers:
  assumes "ready_queue s (us @ x # vs)" and "running_task s = x" and "us @ x # vs = cs @ c # ds"
    and "first_with s i cs c" and "i \<noteq> 0" and "bg \<noteq> 1"
  shows "\<exists>s'. sys_waitpid s i bg = Some (s', i) \<and> ready_queue s' (us @ x # vs) \<and> c \<in> set (us @ x # vs) \<and>
    is_waiting (ntask s' x) = (if is_sleeping (ntask s c) = 0 then 0 else i)"
  using sys_waitpid_ok [OF assms] assms(3) by auto

theorem waitpid_only_sleepers_witness:
  "\<exists>s'. sys_waitpid (demo node0 node1 1) 2 0 = Some (s', 2) \<and> ready_queue s' [node0, node1] \<and>
     is_waiting (ntask s' node0) = 0"
  using waitpid_only_sleepers [of "demo node0 node1 1" "[]" node0 "[node1]" "[node0]" node1 "[]" 2 0]
    demo_queue [of node0 node1 1] by (auto simp: first_with_def zero_task_def)



text \<open>
  The test for the kernel's name is not made when the target is the parent of the caller:
  a task whose parent is the kernel task, at the head of the queue, removes it.
\<close>

theorem kill_parent_unchecked:
  assumes "ready_queue s (c # us @ x # vs)" and "running_task s = x" and "pid (ntask s c) = i"
    and "ppid (ntask s x) = i" and "previous s \<noteq> c"
  shows "\<exists>s'. sys_kill s i = Some s' \<and> ready_queue s' (us @ x # vs) \<and> klog s' = klog s @ [Session_terminated]"
proof -
  let ?s = "say s Session_terminated"
  let ?t = "?s\<lparr>queue_head := first_of (us @ x # vs)\<rparr>"
  have rq: "ready_queue ?s (c # us @ x # vs)" using assms(1) by simp
  have "delete_from_task_list ?s i = Some ?t"
    using delete_from_head [OF rq, of i] assms(3,5) by simp
  moreover have "task_at s x = Some (ntask s x)" using rq_node(3) [OF assms(1), of x] by simp
  ultimately have kill: "sys_kill s i = schedule ?t 0" using assms(2,4) by (simp add: sys_kill_def)
  have "running_task ?t = x" using assms(2) by simp
  from schedule_ok [OF ready_queue_tl [OF rq] this] show ?thesis unfolding kill by auto
qed

theorem kill_parent_unchecked_witness:
  "\<exists>s'. sys_kill (demo node1 node1 1) 1 = Some s' \<and> ready_queue s' [node1] \<and>
     kernel_cmp (tname (ntask (demo node1 node1 1) node0)) = Some 1"
  using kill_parent_unchecked [of "demo node1 node1 1" node0 "[]" node1 "[]" 1] demo_queue [of node1 node1 1]
  by (auto simp: zero_task_def kernel_cmp_text root_name_def kernel_name_def)

text \<open>
  \<^verbatim>\<open>vma_malloc\<close> places the second memory area of a task one page behind the first,
  in a page that was not allocated: the next \<^verbatim>\<open>kmalloc\<close> returns the same address.
\<close>

theorem vma_malloc_overlap:
  assumes "fl_inv (vkst (vm s)) lo hi n" and "Suc lo < hi" and "mms s mmp = Some m" and "mm_mmap m = 0"
    and "pages_for sz = 1"
  shows "\<exists>s1 s2 s3. vma_malloc s mmp = Some (s1, frame_ptr lo) \<and> vma_malloc s1 mmp = Some (s2, frame_ptr (Suc lo)) \<and>
    ksys_kmalloc s2 sz = Some (s3, frame_ptr (Suc lo))"
proof -
  obtain s1 where s1: "vma_malloc s mmp = Some (s1, frame_ptr lo)" "fl_inv (vkst (vm s1)) (Suc lo) hi n"
      "frame_ptr lo \<noteq> 0" "mms s1 = (mms s)(mmp \<mapsto> m\<lparr>mm_mmap := frame_ptr lo, mm_count := mm_count m + 1\<rparr>)"
      "free_list (vkst (vm s1)) = free_list (vkst (vm s))" "vm_next (vma_at (kmem_of s1) (frame_ptr lo)) = 0"
    using vma_malloc_first [OF assms(1) _ assms(3,4)] assms(2) by (fastforce simp: alloc_post_def)
  obtain s2 where s2: "vma_malloc s1 mmp = Some (s2, frame_ptr (Suc lo))" "fl_inv (vkst (vm s2)) (Suc lo) hi n"
    using vma_malloc_next [OF s1(2) _ _ _ _ s1(3,6), of mmp] s1(4,5) fl_invD(2) [OF assms(1)] by auto
  have "pages_for sz = int 1" using assms(5) by simp
  then obtain s3 where "ksys_kmalloc s2 sz = Some (s3, frame_ptr (Suc lo))"
    using ksys_kmalloc_ok [of s2 "Suc lo" hi n sz 1] s2(2) assms(2) by auto
  with s1(1) s2(1) show ?thesis by blast
qed

theorem vma_malloc_overlap_witness:
  "\<exists>s1 s2 s3 p. vma_malloc (demo node0 node1 1) 0x5000 = Some (s1, frame_ptr 2) \<and>
     vma_malloc s1 0x5000 = Some (s2, p) \<and> ksys_kmalloc s2 100 = Some (s3, p)"
proof -
  have "fl_inv (vkst (vm (demo node0 node1 1))) 2 170 171" using boot_inv by (simp add: demo_def)
  from vma_malloc_overlap [OF this, of "0x5000" "\<lparr>mm_count = 0, mm_mmap = 0\<rparr>" 100] show ?thesis
    by (auto simp: demo_def pages_for_def to_int_def)
qed

end
