(* ===== verification/UserMem.thy ===== *)
theory UserMem
  imports TaskCalls
begin

text \<open>
  Access to memory through the page tables: the kernel writes to the addresses of a process after
  it loaded its address space, as \<^verbatim>\<open>elf_run_bin\<close> and \<^verbatim>\<open>sys_fork\<close> do. The processor's
  walk is \<open>vloc\<close>; an access to a page that is not present has no defined result here. The
  lemmas say that writes to the data pages of a process keep the invariant of the page tables and
  that what is written is read back.
\<close>

section \<open>Loads and stores\<close>

definition vloc :: "mem \<Rightarrow> u64 \<Rightarrow> u64 \<Rightarrow> nat option" where
  "vloc m cr va =
     do { e \<leftarrow> lookup (tabs m) (frame_of cr) (path_of va) (unat (pte_index va));
          Some (4096 * frame_of e + unat va mod 4096) }"

definition vld8 :: "mem \<Rightarrow> u64 \<Rightarrow> u64 \<Rightarrow> u8 option" where
  "vld8 m cr va = do { a \<leftarrow> vloc m cr va; Some (ld8 m a) }"

definition vst8 :: "mem \<Rightarrow> u64 \<Rightarrow> u64 \<Rightarrow> u8 \<Rightarrow> mem option" where
  "vst8 m cr va b = do { a \<leftarrow> vloc m cr va; Some (st8 m a b) }"

fun vst_bytes :: "mem \<Rightarrow> u64 \<Rightarrow> u64 \<Rightarrow> u8 list \<Rightarrow> mem option" where
  "vst_bytes m cr va [] = Some m"
| "vst_bytes m cr va (b # bs) = do { m \<leftarrow> vst8 m cr va b; vst_bytes m cr (va + 1) bs }"

definition bytes_of :: "u64 \<Rightarrow> u8 list" where
  "bytes_of v = map (\<lambda>i. ucast (drop_bit (8 * i) v)) [0..<8]"

definition vst64 :: "mem \<Rightarrow> u64 \<Rightarrow> u64 \<Rightarrow> u64 \<Rightarrow> mem option" where
  "vst64 m cr va v = vst_bytes m cr va (bytes_of v)"

text \<open>\<^verbatim>\<open>memcpy\<close> and \<^verbatim>\<open>memset\<close> with a destination in the address space of a process.\<close>

fun vcopy :: "mem \<Rightarrow> u64 \<Rightarrow> u64 \<Rightarrow> nat \<Rightarrow> nat \<Rightarrow> mem option" where
  "vcopy m cr dst src 0 = Some m"
| "vcopy m cr dst src (Suc n) = do { m \<leftarrow> vst8 m cr dst (ld8 m src); vcopy m cr (dst + 1) (Suc src) n }"

fun vset :: "mem \<Rightarrow> u64 \<Rightarrow> u64 \<Rightarrow> u8 \<Rightarrow> nat \<Rightarrow> mem option" where
  "vset m cr dst v 0 = Some m"
| "vset m cr dst v (Suc n) = do { m \<leftarrow> vst8 m cr dst v; vset m cr (dst + 1) v n }"

section \<open>Data pages\<close>

definition upage :: "kst \<Rightarrow> nat \<Rightarrow> nat \<Rightarrow> nat \<Rightarrow> u64 \<Rightarrow> nat \<Rightarrow> bool" where
  "upage st root lo hi va g \<longleftrightarrow>
     pmap st root va = Some (of_nat (4096 * g) OR RW_USER_FLAGS) \<and> g \<in> table_frames st lo hi \<and> off_tree st root g"

definition upos :: "u64 \<Rightarrow> nat \<Rightarrow> nat" where
  "upos va g = 4096 * g + unat va mod 4096"

lemma upos_page: "4096 * g \<le> upos va g" "upos va g < 4096 * Suc g"
  by (simp_all add: upos_def)

text \<open>Memory \<open>m'\<close> differs from the state only in data pages.\<close>

definition data_only :: "kst \<Rightarrow> nat \<Rightarrow> nat \<Rightarrow> nat \<Rightarrow> mem \<Rightarrow> bool" where
  "data_only st root lo hi m' \<longleftrightarrow>
     (\<forall>a. m' a \<noteq> kmem st a \<longrightarrow> a div 4096 \<in> table_frames st lo hi \<and> off_tree st root (a div 4096))"

lemma data_only_page:
  assumes "data_only st root lo hi m'" and "\<not> (f \<in> table_frames st lo hi \<and> off_tree st root f)"
  shows "same_on (4096 * f) 4096 m' (kmem st)"
proof -
  have "m' a = kmem st a" if "4096 * f \<le> a" "a < 4096 * f + 4096" for a
  proof -
    have "a div 4096 = f" using that by (intro div_nat_eqI) auto
    then show ?thesis using assms by (auto simp: data_only_def)
  qed
  then show ?thesis by (simp add: same_on_def)
qed

lemma data_write:
  assumes inv: "pt_inv st root lo hi n" and d: "data_only st root lo hi m'"
  shows "pt_inv (st\<lparr>kmem := m'\<rparr>) root lo hi n"
    and "\<And>q. valid_path q \<Longrightarrow> walk (tabs m') root q = walk (tabs (kmem st)) root q"
    and "\<And>w. pmap (st\<lparr>kmem := m'\<rparr>) root w = pmap st root w"
    and "\<And>g. off_tree (st\<lparr>kmem := m'\<rparr>) root g = off_tree st root g"
proof -
  let ?E = "tabs (kmem st)" and ?T = "table_frames st lo hi"
  have fl: "fl_inv st lo hi n" and t: "tree ?E root ?T" using inv by (auto simp: pt_inv_def)
  have tab: "tabs m' f j = ?E f j" if "walk ?E root q = Some f" "valid_path q" "j < 512" for q f j
  proof -
    have "\<not> off_tree st root f" using that by (auto simp: off_tree_def)
    then have "same_on (4096 * f) 4096 m' (kmem st)" using data_only_page [OF d] by blast
    then show ?thesis unfolding tabs_def by (intro ld64_same) (rule same_on_sub, use that(3) in auto)
  qed
  show w: "walk (tabs m') root q = walk ?E root q" if "valid_path q" for q
    using that
  proof (induction q rule: rev_induct)
    case (snoc j q)
    then have q: "valid_path q" "j < 512" by (auto simp: valid_path_snoc)
    show ?case using snoc.IH [OF q(1)] tab [OF _ q] by (auto simp: walk_snoc split: option.split)
  qed (simp add: walk.simps)
  have "same_on (unat (free_list st)) (24 * hi) m' (kmem st)"
  proof -
    have "m' a = kmem st a" if "a < unat (free_list st) + 24 * hi" for a
    proof (rule ccontr)
      assume "m' a \<noteq> kmem st a"
      then have "unat (free_list st) + 24 * hi \<le> 4096 * (a div 4096)" using d by (auto simp: data_only_def table_frames_def)
      then show False using that by (simp add: div_times_less_eq_dividend order.trans)
    qed
    then show ?thesis by (simp add: same_on_def)
  qed
  then have fl': "fl_inv (st\<lparr>kmem := m'\<rparr>) lo hi n" by (rule fl_inv_write [OF fl])
  have "table_frames (st\<lparr>kmem := m'\<rparr>) lo hi = ?T" by (simp add: table_frames_def)
  moreover have "tree (tabs m') root ?T" using t w unfolding tree_def by metis
  ultimately show "pt_inv (st\<lparr>kmem := m'\<rparr>) root lo hi n" using fl' by (simp add: pt_inv_def)
  show "pmap (st\<lparr>kmem := m'\<rparr>) root v = pmap st root v" for v
    using w [OF valid_path_of(1) [of v]] tab [OF _ valid_path_of(1) index_bounds(1), of v]
    by (auto simp: pmap_def lookup_def split: option.split)
  show "off_tree (st\<lparr>kmem := m'\<rparr>) root g = off_tree st root g" for g
    using w by (auto simp: off_tree_def)
qed

lemma upage_write:
  assumes "pt_inv st root lo hi n" and "data_only st root lo hi m'"
  shows "upage (st\<lparr>kmem := m'\<rparr>) root lo hi va g = upage st root lo hi va g"
    and "data_only (st\<lparr>kmem := m'\<rparr>) root lo hi m'' \<Longrightarrow> data_only st root lo hi m''"
proof -
  note w = data_write [OF assms]
  have T: "table_frames (st\<lparr>kmem := m'\<rparr>) lo hi = table_frames st lo hi" by (simp add: table_frames_def)
  show "upage (st\<lparr>kmem := m'\<rparr>) root lo hi va g = upage st root lo hi va g" by (simp add: upage_def w(3,4) T)
  show "data_only (st\<lparr>kmem := m'\<rparr>) root lo hi m'' \<Longrightarrow> data_only st root lo hi m''"
    using assms(2) by (auto simp: data_only_def w(4) T) metis+
qed

lemma root_low:
  assumes "pt_inv st root lo hi n"
  shows "frame_of (of_nat (4096 * root)) = root"
proof -
  have "walk (tabs (kmem st)) root [] = Some root" by (simp add: walk.simps)
  then have "root \<in> table_frames st lo hi" using assms tree_in [of _ root _ "[]"] by (auto simp: pt_inv_def valid_path_def)
  then have "low (4096 * Suc root)" using assms table_low [of st lo hi n root] fl_invD(3) [of st lo hi n]
    by (auto simp: pt_inv_def table_frames_def)
  then have "low (4096 * root)" by (rule low_mono) simp
  then show ?thesis using link_entry(2) [of root 0] by simp
qed

lemma vloc_upage:
  assumes inv: "pt_inv st root lo hi n" and u: "upage st root lo hi va g"
  shows "vloc (kmem st) (of_nat (4096 * root)) va = Some (upos va g)"
proof -
  have "low (4096 * Suc g)"
    using u inv table_low [of st lo hi n g] fl_invD(3) [of st lo hi n] by (auto simp: upage_def table_frames_def pt_inv_def)
  then have "low (4096 * g)" by (rule low_mono) simp
  then have "frame_of (of_nat (4096 * g) OR RW_USER_FLAGS) = g" by (rule link_entry(2)) (simp add: RW_USER_FLAGS_def)
  then show ?thesis
    using u root_low [OF inv] by (simp add: vloc_def upage_def pmap_def upos_def del: of_nat_mult)
qed

lemma upage_det:
  assumes "pt_inv st root lo hi n" and "upage st root lo hi va g" and "upage st root lo hi va h"
  shows "g = h"
proof -
  have "frame_of (of_nat (4096 * f) OR RW_USER_FLAGS) = f" if "upage st root lo hi va f" for f
  proof -
    have "low (4096 * Suc f)"
      using that assms(1) table_low [of st lo hi n f] fl_invD(3) [of st lo hi n] by (auto simp: upage_def table_frames_def pt_inv_def)
    then have "low (4096 * f)" by (rule low_mono) simp
    then show ?thesis by (rule link_entry(2)) (simp add: RW_USER_FLAGS_def)
  qed
  from this [OF assms(2)] this [OF assms(3)] show ?thesis using assms(2,3) unfolding upage_def by (metis option.inject)
qed

text \<open>One byte.\<close>

lemma vst8_ok:
  assumes "pt_inv st root lo hi n" and "upage st root lo hi va g"
  shows "vst8 (kmem st) (of_nat (4096 * root)) va b = Some (st8 (kmem st) (upos va g) b)"
    and "data_only st root lo hi (st8 (kmem st) (upos va g) b)"
proof -
  show "vst8 (kmem st) (of_nat (4096 * root)) va b = Some (st8 (kmem st) (upos va g) b)"
    by (simp add: vst8_def vloc_upage [OF assms] del: of_nat_mult)
  have "upos va g div 4096 = g" by (simp add: upos_def)
  then show "data_only st root lo hi (st8 (kmem st) (upos va g) b)"
    using assms(2) by (auto simp: data_only_def st8_apply upage_def)
qed

text \<open>A run of bytes.\<close>

lemma vst_bytes_ok:
  assumes "pt_inv st root lo hi n" and "\<forall>i<length bs. upage st root lo hi (va + of_nat i) (g i)"
    and "inj_on (\<lambda>i. upos (va + of_nat i) (g i)) {..<length bs}"
  shows "\<exists>m'. vst_bytes (kmem st) (of_nat (4096 * root)) va bs = Some m' \<and> data_only st root lo hi m' \<and>
    (\<forall>i<length bs. m' (upos (va + of_nat i) (g i)) = bs ! i) \<and>
    (\<forall>a. a \<notin> (\<lambda>i. upos (va + of_nat i) (g i)) ` {..<length bs} \<longrightarrow> m' a = kmem st a)"
  using assms
proof (induction bs arbitrary: st va g)
  case Nil
  then show ?case by (simp add: data_only_def)
next
  case (Cons b bs)
  let ?p = "\<lambda>i. upos (va + of_nat i) (g i)" and ?g = "\<lambda>i. g (Suc i)" and ?q = "\<lambda>i. upos (va + 1 + of_nat i) (g (Suc i))"
  let ?m1 = "st8 (kmem st) (upos va (g 0)) b"
  define p where "p i = upos (va + of_nat i) (g i)" for i
  have p: "?p = p" by (simp add: p_def fun_eq_iff)
  have q: "?q i = p (Suc i)" for i by (simp add: p_def add.assoc)
  have inj: "p i = p j \<Longrightarrow> i \<le> length bs \<Longrightarrow> j \<le> length bs \<Longrightarrow> i = j" for i j
    using Cons.prems(3) unfolding p by (auto simp: inj_on_def)
  have "upage st root lo hi va (g 0)" using Cons.prems(2) [rule_format, of 0] by simp
  note one = vst8_ok [OF Cons.prems(1) this, of b]
  let ?st1 = "st\<lparr>kmem := ?m1\<rparr>"
  have inv1: "pt_inv ?st1 root lo hi n" by (rule data_write(1) [OF Cons.prems(1) one(2)])
  have u1: "\<forall>i<length bs. upage ?st1 root lo hi (va + 1 + of_nat i) (?g i)"
    using Cons.prems(2) [rule_format, of "Suc _"] by (simp add: upage_write(1) [OF Cons.prems(1) one(2)] add.assoc)
  have inj1: "inj_on ?q {..<length bs}"
    unfolding q using inj [of "Suc _" "Suc _"] by (auto simp: inj_on_def)
  obtain m' where m': "vst_bytes ?m1 (of_nat (4096 * root)) (va + 1) bs = Some m'" "data_only ?st1 root lo hi m'"
      "\<forall>i<length bs. m' (?q i) = bs ! i" "\<forall>a. a \<notin> ?q ` {..<length bs} \<longrightarrow> m' a = ?m1 a"
    using Cons.IH [OF inv1 u1 inj1] by auto
  have "vst_bytes (kmem st) (of_nat (4096 * root)) va (b # bs) = Some m'" using one(1) m'(1) by simp
  moreover have "data_only st root lo hi m'" by (rule upage_write(2) [OF Cons.prems(1) one(2) m'(2)])
  moreover have "m' (?p i) = (b # bs) ! i" if i: "i < length (b # bs)" for i
  proof (cases i)
    case 0
    have "p 0 \<notin> ?q ` {..<length bs}" unfolding q by (auto dest!: inj)
    moreover have "p 0 = upos va (g 0)" by (simp add: p_def)
    ultimately show ?thesis using m'(4) 0 by (auto simp: st8_apply)
  next
    case (Suc j)
    then show ?thesis using m'(3) [rule_format, of j] i q [of j] by (simp add: p_def)
  qed
  moreover have "m' a = kmem st a" if "a \<notin> ?p ` {..<length (b # bs)}" for a
  proof -
    have "a \<noteq> p 0" "a \<notin> ?q ` {..<length bs}" using that unfolding q p by auto
    moreover have "p 0 = upos va (g 0)" by (simp add: p_def)
    ultimately show ?thesis using m'(4) by (auto simp: st8_apply)
  qed
  ultimately show ?case by blast
qed

lemma vst_bytes_append:
  "vst_bytes m cr va (xs @ ys) = do { m \<leftarrow> vst_bytes m cr va xs; vst_bytes m cr (va + of_nat (length xs)) ys }"
  by (induction xs arbitrary: m va) (simp_all add: add.assoc Option.bind_assoc)

lemma vset_bytes: "vset m cr va v k = vst_bytes m cr va (replicate k v)"
  by (induction k arbitrary: m va) simp_all

text \<open>The source of a copy lies below the page descriptors, where no data page is.\<close>

lemma vcopy_bytes:
  assumes "pt_inv st root lo hi n" and "\<forall>i<k. upage st root lo hi (va + of_nat i) (g i)" and "src + k \<le> unat (free_list st)"
  shows "vcopy (kmem st) (of_nat (4096 * root)) va src k =
    vst_bytes (kmem st) (of_nat (4096 * root)) va (map (kmem st) [src..<src + k])"
  using assms
proof (induction k arbitrary: st va src g)
  case (Suc k)
  let ?m1 = "st8 (kmem st) (upos va (g 0)) (ld8 (kmem st) src)"
  let ?st1 = "st\<lparr>kmem := ?m1\<rparr>"
  have u: "upage st root lo hi va (g 0)" using Suc.prems(2) [rule_format, of 0] by simp
  note one = vst8_ok [OF Suc.prems(1) u, of "ld8 (kmem st) src"]
  have "unat (free_list st) \<le> upos va (g 0)"
    using u upos_page(1) [where g = "g 0" and va = va] by (auto simp: upage_def table_frames_def)
  then have same: "map ?m1 [Suc src..<Suc src + k] = map (kmem st) [Suc src..<Suc src + k]"
    using Suc.prems(3) by (auto simp: st8_apply)
  have u1: "\<forall>i<k. upage ?st1 root lo hi (va + 1 + of_nat i) (g (Suc i))"
    using Suc.prems(2) [rule_format, of "Suc _"] by (simp add: upage_write(1) [OF Suc.prems(1) one(2)] add.assoc)
  have "vcopy ?m1 (of_nat (4096 * root)) (va + 1) (Suc src) k =
      vst_bytes ?m1 (of_nat (4096 * root)) (va + 1) (map ?m1 [Suc src..<Suc src + k])"
    using Suc.IH [OF data_write(1) [OF Suc.prems(1) one(2)] u1, of "Suc src"] Suc.prems(3) by simp
  moreover have "[src..<src + Suc k] = src # [Suc src..<Suc src + k]" by (simp add: upt_conv_Cons)
  ultimately show ?case using one(1) by (simp only: vcopy.simps bind.bind_lunit same [unfolded ld8_def] list.map vst_bytes.simps ld8_def)
qed simp

section \<open>The contents of an address space\<close>

definition uimage :: "kst \<Rightarrow> nat \<Rightarrow> nat \<Rightarrow> nat \<Rightarrow> u64 \<Rightarrow> u8 list \<Rightarrow> bool" where
  "uimage st root lo hi va bs \<longleftrightarrow>
     (\<forall>i<length bs. \<exists>g. upage st root lo hi (va + of_nat i) g \<and> kmem st (upos (va + of_nat i) g) = bs ! i)"

lemma uimage_read:
  assumes "pt_inv st root lo hi n" and "uimage st root lo hi va bs" and "i < length bs"
  shows "vld8 (kmem st) (of_nat (4096 * root)) (va + of_nat i) = Some (bs ! i)"
proof -
  obtain g where "upage st root lo hi (va + of_nat i) g" "kmem st (upos (va + of_nat i) g) = bs ! i"
    using assms(2,3) by (auto simp: uimage_def)
  then show ?thesis using vloc_upage [OF assms(1)] by (simp add: vld8_def ld8_def del: of_nat_mult)
qed

text \<open>
  What a step keeps of the memory below the page descriptors and of the data pages below \<open>b\<close>;
  \<open>pt_step\<close> keeps them below its bound. What was loaded stays loaded while other pages are mapped.
\<close>

definition keeps :: "kst \<Rightarrow> kst \<Rightarrow> nat \<Rightarrow> nat \<Rightarrow> nat \<Rightarrow> bool" where
  "keeps st st' root b hi \<longleftrightarrow>
     free_list st' = free_list st \<and> same_on 0 (unat (free_list st)) (kmem st') (kmem st) \<and> walks_kept st st' root \<and>
     (\<forall>f\<in>table_frames st b hi. off_tree st root f \<longrightarrow>
        off_tree st' root f \<and> same_on (4096 * f) 4096 (kmem st') (kmem st))"

lemma pt_step_keeps: "pt_step st st' root lo lo' hi n \<longleftrightarrow> pt_inv st' root lo' hi n \<and> lo \<le> lo' \<and> keeps st st' root lo hi"
  by (auto simp: pt_step_def keeps_def)

lemma keeps_mono: "keeps st st' root b hi \<Longrightarrow> a \<le> b \<Longrightarrow> keeps st st' root a hi"
  by (auto simp: keeps_def table_frames_def)

lemma keeps_trans: "keeps st st1 root b hi \<Longrightarrow> keeps st1 st2 root b hi \<Longrightarrow> keeps st st2 root b hi"
  by (auto simp: keeps_def same_on_def table_frames_def walks_kept_def)

lemma keeps_write:
  assumes "pt_inv st root lo hi n" and "data_only st root lo hi m'" and "\<forall>a. a < 4096 * b \<longrightarrow> m' a = kmem st a"
    and "unat (free_list st) \<le> 4096 * b"
  shows "keeps st (st\<lparr>kmem := m'\<rparr>) root b hi"
  using data_write(2,4) [OF assms(1,2)] assms(3,4) by (auto simp: keeps_def same_on_def table_frames_def walks_kept_def)

lemma uimage_mono: "uimage st root a hi va bs \<Longrightarrow> a \<le> b \<Longrightarrow> uimage st root b hi va bs"
  unfolding uimage_def upage_def table_frames_def by fastforce

lemma uimage_keeps:
  assumes "keeps st st' root b hi" and "uimage st root b hi va bs"
    and "\<forall>i<length bs. pmap st' root (va + of_nat i) = pmap st root (va + of_nat i)"
  shows "uimage st' root b hi va bs"
proof -
  have T: "table_frames st b hi = table_frames st' b hi"
    using assms(1) by (simp add: table_frames_def keeps_def)
  have "\<exists>g. upage st' root b hi (va + of_nat i) g \<and> kmem st' (upos (va + of_nat i) g) = bs ! i" if i: "i < length bs" for i
  proof -
    obtain g where g: "upage st root b hi (va + of_nat i) g" "kmem st (upos (va + of_nat i) g) = bs ! i"
      using assms(2) i by (auto simp: uimage_def)
    then have "off_tree st' root g" "same_on (4096 * g) 4096 (kmem st') (kmem st)"
      using assms(1) by (auto simp: keeps_def upage_def)
    moreover have "kmem st' (upos (va + of_nat i) g) = kmem st (upos (va + of_nat i) g)"
      using calculation(2) upos_page [where g = g and va = "va + of_nat i"] by (auto simp: same_on_def)
    ultimately show ?thesis using g assms(3) i T by (auto simp: upage_def)
  qed
  then show ?thesis by (simp add: uimage_def)
qed

text \<open>Writes to data pages that miss what was loaded.\<close>

lemma uimage_write:
  assumes "pt_inv st root lo hi n" and "data_only st root lo hi m'" and "uimage st root lo hi va bs"
    and "\<And>i g. i < length bs \<Longrightarrow> upage st root lo hi (va + of_nat i) g \<Longrightarrow> m' (upos (va + of_nat i) g) = kmem st (upos (va + of_nat i) g)"
  shows "uimage (st\<lparr>kmem := m'\<rparr>) root lo hi va bs"
  using assms(3,4) unfolding uimage_def by (fastforce simp: upage_write(1) [OF assms(1,2)])

lemma unat_add_index: "unat va + i < 2 ^ 64 \<Longrightarrow> unat (va + of_nat i :: u64) = unat va + i"
proof -
  assume a: "unat va + i < 2 ^ 64"
  then have "unat (of_nat i :: u64) = i" by (simp add: unat_of_nat take_bit_eq_mod)
  then show ?thesis using a by (subst unat_add_lem [THEN iffD1]) simp_all
qed

lemma page_split: "4096 * x + r = 4096 * y + (s :: nat) \<Longrightarrow> r < 4096 \<Longrightarrow> s < 4096 \<Longrightarrow> x = y \<and> r = s"
  by (cases x y rule: linorder_cases) auto

text \<open>The places of a run of addresses in distinct pages are distinct.\<close>

lemma upos_inj:
  assumes "distinct gs" and "unat va + k < 2 ^ 64"
    and "\<forall>i<k. b \<le> (unat va + i) div 4096 \<and> (unat va + i) div 4096 < b + length gs"
  shows "inj_on (\<lambda>i. upos (va + of_nat i) (gs ! ((unat va + i) div 4096 - b))) {..<k}"
proof (rule inj_onI)
  fix i j
  assume ij: "i \<in> {..<k}" "j \<in> {..<k}"
    and eq: "upos (va + of_nat i) (gs ! ((unat va + i) div 4096 - b)) = upos (va + of_nat j) (gs ! ((unat va + j) div 4096 - b))"
  let ?x = "unat va + i" and ?y = "unat va + j"
  have u: "unat (va + of_nat i) = ?x" "unat (va + of_nat j) = ?y"
    using assms(2) ij by (auto intro!: unat_add_index)
  have e: "4096 * gs ! (?x div 4096 - b) + ?x mod 4096 = 4096 * gs ! (?y div 4096 - b) + ?y mod 4096"
    using eq by (simp add: upos_def u)
  then have "gs ! (?x div 4096 - b) = gs ! (?y div 4096 - b)" "?x mod 4096 = ?y mod 4096"
    using page_split [OF e] by simp_all
  moreover have "?x div 4096 - b < length gs" "?y div 4096 - b < length gs" "b \<le> ?x div 4096" "b \<le> ?y div 4096"
    using assms(3) [rule_format, of i] assms(3) [rule_format, of j] ij by auto
  ultimately have d: "?x div 4096 - b = ?y div 4096 - b" "b \<le> ?x div 4096" "b \<le> ?y div 4096" "?x mod 4096 = ?y mod 4096"
    using assms(1) by (auto simp: nth_eq_iff_index_eq)
  have "?x div 4096 = ?y div 4096" by (rule eq_diff_iff [THEN iffD1, OF d(2,3,1)])
  then have "?x = ?y" using d(4) by (metis div_mult_mod_eq)
  then show "i = j" by simp
qed

section \<open>Loading a segment\<close>

text \<open>
  A region that was just allocated is filled from its start: the bytes can be read back, and every
  page that was in use before keeps its mapping and its contents.
\<close>

lemma region_fill:
  assumes inv: "pt_inv st root lo hi n" and fit: "unat va + unat sz + 4096 < 2 ^ 48"
    and room: "lo + 4 * region_pages va sz \<le> hi" and len: "length bs \<le> unat sz"
  shows "\<exists>st1 lo' m'. region_alloc st (VADDR (of_nat (4096 * root))) va sz = Some st1 \<and>
    lo' \<le> lo + 4 * region_pages va sz \<and> pt_inv st1 root lo' hi n \<and> free_list st1 = free_list st \<and>
    same_on 0 (unat (free_list st)) (kmem st1) (kmem st) \<and>
    (\<forall>i<unat sz. \<exists>g. upage st1 root lo' hi (va + of_nat i) g) \<and>
    vst_bytes (kmem st1) (of_nat (4096 * root)) va bs = Some m' \<and>
    pt_step st (st1\<lparr>kmem := m'\<rparr>) root lo lo' hi n \<and> uimage (st1\<lparr>kmem := m'\<rparr>) root lo' hi va bs \<and>
    (\<forall>i<length bs. \<forall>g. upage (st1\<lparr>kmem := m'\<rparr>) root lo' hi (va + of_nat i) g \<longrightarrow>
       lo \<le> g \<and> (g = lo \<longleftrightarrow> i < 4096 - unat va mod 4096)) \<and>
    (\<forall>w. \<not> (unat va div 4096 \<le> pgno w \<and> pgno w < unat va div 4096 + region_pages va sz) \<longrightarrow>
       pmap (st1\<lparr>kmem := m'\<rparr>) root w = pmap st root w)"
proof -
  let ?b = "unat va div 4096"
  obtain st1 lo' gs where r: "region_alloc st (VADDR (of_nat (4096 * root))) va sz = Some st1" "pt_step st st1 root lo lo' hi n"
    "lo' \<le> lo + 4 * region_pages va sz" "0 < region_pages va sz \<longrightarrow> hd gs = lo"
    "length gs = region_pages va sz" "backed st st1 root lo lo' hi (get_starting_page va) gs"
    using region_alloc_ok [OF inv fit room] by (elim exE conjE) (rule that)
  note b = region_bounds(3) [OF fit]
  note B = r(6) [unfolded backed_def b]
  have inv1: "pt_inv st1 root lo' hi n" and free: "free_list st1 = free_list st" and lo: "lo \<le> lo'"
    using r(2) by (auto simp: pt_step_def)
  have fl: "fl_inv st lo hi n" using inv by (simp add: pt_inv_def)
  define g where "g i = gs ! ((unat va + i) div 4096 - ?b)" for i
  have pos: "unat (va + of_nat i) = unat va + i" "pgno (va + of_nat i) = (unat va + i) div 4096"
      "?b \<le> (unat va + i) div 4096" "(unat va + i) div 4096 < ?b + length gs" if i: "i < unat sz" for i
  proof -
    show u: "unat (va + of_nat i) = unat va + i" using i fit by (intro unat_add_index) simp
    have "(unat va + i) div 4096 < 2 ^ 36" using i fit by simp
    then show p: "pgno (va + of_nat i) = (unat va + i) div 4096" by (simp add: pgno_def u)
    show "?b \<le> (unat va + i) div 4096" "(unat va + i) div 4096 < ?b + length gs"
      using region_covers [OF fit, of "va + of_nat i"] i unfolding u p b r(5) by auto
  qed
  have up: "upage st1 root lo' hi (va + of_nat i) (g i)" if i: "i < unat sz" for i
  proof -
    have "g i \<in> set gs" using pos(3,4) [OF i] by (auto simp: g_def)
    then have "lo \<le> g i" "g i < lo'" "off_tree st1 root (g i)" using B by auto
    moreover have "pmap st1 root (va + of_nat i) = Some (of_nat (4096 * g i) OR RW_USER_FLAGS)"
      using B pos [OF i] by (simp add: g_def)
    ultimately show ?thesis using fl_invD(2) [OF fl] free by (auto simp: upage_def table_frames_def)
  qed
  have inj: "inj_on (\<lambda>i. upos (va + of_nat i) (g i)) {..<length bs}"
    unfolding g_def using B fit len pos(3,4) by (intro upos_inj) auto
  obtain m' where m': "vst_bytes (kmem st1) (of_nat (4096 * root)) va bs = Some m'" "data_only st1 root lo' hi m'"
    "\<forall>i<length bs. m' (upos (va + of_nat i) (g i)) = bs ! i"
    "\<forall>a. a \<notin> (\<lambda>i. upos (va + of_nat i) (g i)) ` {..<length bs} \<longrightarrow> m' a = kmem st1 a"
    using vst_bytes_ok [OF inv1 _ inj] up len by (meson less_le_trans)
  let ?st' = "st1\<lparr>kmem := m'\<rparr>"
  note w = data_write [OF inv1 m'(2)]
  have new: "m' a = kmem st1 a" if "a < 4096 * lo" for a
  proof -
    have "a \<noteq> upos (va + of_nat i) (g i)" if i: "i < length bs" for i
    proof -
      have "g i \<in> set gs" using pos(3,4) [of i] i len by (auto simp: g_def)
      then have "4096 * lo \<le> upos (va + of_nat i) (g i)"
        using B upos_page(1) [where g = "g i" and va = "va + of_nat i"] by (meson le_trans mult_le_mono2)
      then show ?thesis using \<open>a < 4096 * lo\<close> by simp
    qed
    then show ?thesis using m'(4) by blast
  qed
  have step: "pt_step st ?st' root lo lo' hi n"
  proof -
    have "same_on (4096 * f) 4096 m' (kmem st1)" if "f < lo" for f using new that by (auto simp: same_on_def)
    moreover have "same_on 0 (unat (free_list st)) m' (kmem st1)"
      using new fl_invD(2) [OF fl] by (auto simp: same_on_def)
    ultimately show ?thesis
      using r(2) w(1,2,4) by (auto simp: pt_step_def same_on_def table_frames_def walks_kept_def)
  qed
  have "uimage ?st' root lo' hi va bs"
    using up m'(3) len unfolding uimage_def by (auto simp: upage_write(1) [OF inv1 m'(2)] intro!: exI [of _ "g _"])
  moreover have "lo \<le> h \<and> (h = lo \<longleftrightarrow> i < 4096 - unat va mod 4096)"
    if i: "i < length bs" and h: "upage ?st' root lo' hi (va + of_nat i) h" for i h
  proof -
    let ?x = "unat va mod 4096 + i"
    have b: "(unat va + i) div 4096 = ?x div 4096 + ?b"
    proof -
      have "(?x + 4096 * ?b) div 4096 = ?b + ?x div 4096" by (rule div_mult_self2) simp
      moreover have "?x + 4096 * ?b = unat va + i" by simp
      ultimately show ?thesis by (simp only: add.commute)
    qed
    have p: "?x div 4096 < length gs" using pos(4) [of i] i len unfolding b by simp
    have "gs \<noteq> []" using p by auto
    then have g: "g i = gs ! (?x div 4096)" "lo = gs ! 0" using p r(4,5) hd_conv_nth [of gs] unfolding g_def b by auto
    have "upage st1 root lo' hi (va + of_nat i) h" using h by (simp add: upage_write(1) [OF inv1 m'(2)])
    then have h: "h = g i" using up [of i] i len upage_det [OF inv1] by simp
    then have "h = lo \<longleftrightarrow> g i = lo" by simp
    also have "\<dots> \<longleftrightarrow> ?x div 4096 = 0" 
      unfolding g using B p \<open>gs \<noteq> []\<close> by (intro nth_eq_iff_index_eq) auto
    also have "\<dots> \<longleftrightarrow> i < 4096 - unat va mod 4096" by (auto simp: div_eq_0_iff)
    finally show ?thesis using B p unfolding h g(1) by simp
  qed
  moreover have "same_on 0 (unat (free_list st)) (kmem st1) (kmem st)" using r(2) by (simp add: pt_step_def)
  moreover have "pmap ?st' root v = pmap st root v" if "\<not> (?b \<le> pgno v \<and> pgno v < ?b + region_pages va sz)" for v
    using B that w(3) r(5) by auto
  ultimately show ?thesis
    using r(1,3) inv1 free up m'(1) step by (intro exI [of _ st1] exI [of _ lo'] exI [of _ m']) blast
qed

section \<open>A stack page\<close>

lemma stack_addr:
  assumes "low (4096 * f)"
  shows "unat (bumpPtr + of_nat (4096 * f)) = 4096 * (unat bumpPtr div 4096 + f)"
    and "i < 4096 \<Longrightarrow> unat (bumpPtr + of_nat (4096 * f) + of_nat i) = 4096 * (unat bumpPtr div 4096 + f) + i"
proof -
  have "unat (bumpPtr + of_nat (4096 * f)) = unat bumpPtr + 4096 * f"
    using assms by (intro unat_add_index) (simp add: bumpPtr_def low_def)
  then show u: "unat (bumpPtr + of_nat (4096 * f)) = 4096 * (unat bumpPtr div 4096 + f)" by (simp add: bumpPtr_def)
  assume "i < 4096"
  then have "unat (bumpPtr + of_nat (4096 * f)) + i < 2 ^ 64" using assms unfolding u by (simp add: bumpPtr_def low_def)
  then show "unat (bumpPtr + of_nat (4096 * f) + of_nat i) = 4096 * (unat bumpPtr div 4096 + f) + i"
    unfolding u [symmetric] by (rule unat_add_index)
qed

lemma kmalloc_stack_ok:
  assumes inv: "pt_inv st root lo hi n" and room: "lo + 4 \<le> hi"
  defines "us \<equiv> bumpPtr + of_nat (4096 * lo)"
  shows "\<exists>st' lo'. kmalloc_stack st 1 (VADDR (of_nat (4096 * root))) = Some (st', us) \<and>
    lo' \<le> lo + 4 \<and> pt_step st st' root lo lo' hi n \<and> (\<forall>i<4096. upage st' root lo' hi (us + of_nat i) lo) \<and>
    same_on (4096 * lo) 4096 (kmem st') (\<lambda>_. 0) \<and>
    (\<forall>w. pgno w \<noteq> pgno us \<longrightarrow> pmap st' root w = pmap st root w)"
proof -
  have "walk (tabs (kmem st)) root [] = Some root" by (simp add: walk.simps)
  then have tbl: "is_table (VADDR (of_nat (4096 * root))) root"
    by (intro reached_table [OF inv, of "[]"]) (simp_all add: valid_path_def)
  have fl: "fl_inv st lo hi n" using inv by (simp add: pt_inv_def)
  obtain st1 where st1: "alloc_block VADDR st 1 = Some (st1, Some (of_nat (4096 * lo)))" "fl_inv st1 (lo + 1) hi n" "alloc_post st st1 lo 1 hi"
    using vaddr_map.alloc_block_ok [OF fl pages_for_1] room by auto
  note a = pt_step_alloc [OF inv st1(2,3)]
  have inv1: "pt_inv st1 root (lo + 1) hi n" using a(1) by (simp add: pt_step_def)
  obtain st' lo' where st': "init_map_virt_phys_addr st1 us (of_nat (4096 * lo)) 1 (VADDR (of_nat (4096 * root))) 1 = Some st'"
    "lo' \<le> lo + 1 + 3" "pt_step st1 st' root (lo + 1) lo' hi n"
    "\<forall>w. pmap st' root w = (if pgno w = pgno us then Some (one_table_entry 1 (of_nat (4096 * lo))) else pmap st1 root w)"
    using init_map_page [OF inv1 _ tbl, where va = us and pa = "of_nat (4096 * lo)" and access = 1] room by auto
  have run: "kmalloc_stack st 1 (VADDR (of_nat (4096 * root))) = Some (st', us)"
    using st1(1) st'(1) by (simp add: kmalloc_stack_def us_def del: of_nat_mult)
  have lo': "lo < lo'" "free_list st' = free_list st" using st'(3) st1(3) by (auto simp: pt_step_def alloc_post_def)
  have "lo \<in> table_frames st1 (lo + 1) hi"
    using fl_invD(2) [OF fl] st1(3) by (simp add: table_frames_def alloc_post_def)
  then have off: "off_tree st' root lo" "same_on (4096 * lo) 4096 (kmem st') (\<lambda>_. 0)"
    using st'(3) a(3,4) [of lo] by (auto simp: pt_step_def same_on_def)
  have T: "lo \<in> table_frames st' lo' hi" using lo' fl_invD(2) [OF fl] by (simp add: table_frames_def)
  have page: "pgno (us + of_nat i) = pgno us" if i: "i < 4096" for i
  proof -
    have l: "low (4096 * lo)" using table_low [OF fl, of lo] room by (auto simp: low_def)
    note u = stack_addr [OF l, folded us_def]
    have "unat (us + of_nat i) div 4096 = unat us div 4096" using i unfolding u(1) u(2) [OF i] by simp
    then show ?thesis by (simp add: pgno_def)
  qed
  then have "\<forall>i<4096. upage st' root lo' hi (us + of_nat i) lo"
    using st'(4) off(1) T one_table_user [of lo] by (auto simp: upage_def)
  then show ?thesis
    using run st'(2,4) off(2) a(2) pt_step_trans [OF a(1) st'(3)]
    by (intro exI [of _ st'] exI [of _ lo']) auto
qed

end
