(* ===== verification/Tarfs.thy ===== *)
theory Tarfs
  imports TaskQueue
begin

text \<open>
  The archive file system of \<^verbatim>\<open>sys/tarfs.c\<close>: \<^verbatim>\<open>init_tarfs\<close> reads the headers of
  the tar archive that is linked into the kernel; directories and files are then looked up in the list
  of entries. Open files are kept in a typed store, names are texts, and the data a read copies to the
  buffer of the caller is a result. The position \<^verbatim>\<open>bytesdone\<close> is one global variable.
\<close>

section \<open>State\<close>

record tarfs_e =
  te_name :: "u8 list"
  te_size :: int
  te_addr :: u64
  te_type :: int

record file_entry =
  f_name :: "u8 list"
  f_size :: int
  f_addr :: u64

record fsys =
  fk :: kst
  tarfs_list :: "tarfs_e list"
  bytesdone :: int
  files :: "u64 \<rightharpoonup> file_entry"
  fs_out :: "u8 list list"

abbreviation TYPE_DIRECTORY :: int where "TYPE_DIRECTORY \<equiv> 5"
abbreviation TYPE_FILE :: int where "TYPE_FILE \<equiv> 0"

section \<open>init_tarfs\<close>

definition c_rem :: "int \<Rightarrow> int \<Rightarrow> int" where
  "c_rem a b = a - b * c_div a b"

text \<open>The distance to the next header; a header has 512 bytes.\<close>

definition tar_step :: "int \<Rightarrow> int" where
  "tar_step entry_size =
     (if entry_size = 0 then 512
      else if c_rem entry_size 512 = 0 then entry_size + 512
      else entry_size + (512 - c_rem entry_size 512) + 512)"

definition text_at :: "mem \<Rightarrow> nat \<Rightarrow> nat \<Rightarrow> u8 list" where
  "text_at m a n = map (\<lambda>i. ld8 m (a + i)) [0..<n]"

text \<open>The size is at offset 124 of a header and the type at 156. The name is copied to an array of
  100 bytes, the entry to an array of 1024.\<close>

partial_function (option) tar_loop :: "mem \<Rightarrow> u64 \<Rightarrow> int \<Rightarrow> tarfs_e list \<Rightarrow> tarfs_e list option" where
  "tar_loop m start temp_ptr acc =
     (let tarfs_head = start + of_int temp_ptr; a = loc tarfs_head in
      do { n \<leftarrow> str_len m a;
           if 0 < n then
             do { octal \<leftarrow> atoi m (a + 124);
                  let entry_size = to_int (octTodec (of_int octal));
                  ty \<leftarrow> atoi m (a + 156);
                  if n < 100 \<and> length acc < 1024 \<and> int_ok (temp_ptr + tar_step entry_size) then
                    tar_loop m start (temp_ptr + tar_step entry_size)
                      (acc @ [\<lparr>te_name = text_at m a n, te_size = entry_size, te_addr = tarfs_head, te_type = ty\<rparr>])
                  else None }
           else Some acc })"

definition init_tarfs :: "fsys \<Rightarrow> u64 \<Rightarrow> fsys option" where
  "init_tarfs f start = do { es \<leftarrow> tar_loop (kmem (fk f)) start 0 []; Some (f\<lparr>tarfs_list := es\<rparr>) }"

section \<open>Directories\<close>

fun opendir_loop :: "tarfs_e list \<Rightarrow> u8 list \<Rightarrow> u64 option" where
  "opendir_loop [] dir = None"
| "opendir_loop (e # es) dir =
     (if te_type e = TYPE_DIRECTORY \<and> te_name e = dir then Some (te_addr e) else opendir_loop es dir)"

definition fs_print :: "fsys \<Rightarrow> u8 list \<Rightarrow> fsys" where
  "fs_print f t = f\<lparr>fs_out := fs_out f @ [t]\<rparr>"

definition no_such_dir :: "u8 list \<Rightarrow> u8 list" where
  "no_such_dir dir =
     [79, 112, 101, 110, 100, 105, 114, 32] @ dir @
     [58, 32, 78, 111, 32, 115, 117, 99, 104, 32, 100, 105, 114, 101, 99, 116, 111, 114, 121, 10]"

definition opendir :: "fsys \<Rightarrow> u8 list \<Rightarrow> fsys \<times> u64" where
  "opendir f dir =
     (case opendir_loop (tarfs_list f) dir of
        Some addr \<Rightarrow> (f, addr)
      | None \<Rightarrow> (fs_print f (no_such_dir dir), 0))"

definition closedir :: "u64 \<Rightarrow> u64" where
  "closedir addr = 1"

definition list_line :: "tarfs_e \<Rightarrow> u8 list list" where
  "list_line e =
     (if te_type e = TYPE_DIRECTORY then [te_name e @ [32, 32, 32, 32, 9, 9, 68, 73, 82, 10]]
      else if te_type e = TYPE_FILE then [te_name e @ [32, 32, 32, 32, 9, 9, 70, 73, 76, 69, 10]]
      else [])"

definition list_dir :: "fsys \<Rightarrow> fsys" where
  "list_dir f = f\<lparr>fs_out := fs_out f @ concat (map list_line (tarfs_list f))\<rparr>"

text \<open>The loop tests the name of the entry read before; \<open>junk\<close> is the uninitialised name of the
  first test. \<open>dir\<close> is the name of the parent once it is found.\<close>

fun read_dir_loop :: "tarfs_e list \<Rightarrow> u8 list \<Rightarrow> u8 list option \<Rightarrow> u64 \<Rightarrow> u8 list list" where
  "read_dir_loop [] lst dir addr = []"
| "read_dir_loop (e # es) lst dir addr =
     (if lst = [] then []
      else if te_addr e = addr then read_dir_loop es (te_name e) (Some (te_name e)) addr
      else (case dir of
              Some d \<Rightarrow> if take (length d) (te_name e) = d
                        then (10 # te_name e) # read_dir_loop es (te_name e) dir addr
                        else read_dir_loop es (te_name e) dir addr
            | None \<Rightarrow> read_dir_loop es (te_name e) dir addr))"

definition read_dir :: "fsys \<Rightarrow> u8 list \<Rightarrow> u64 \<Rightarrow> fsys \<times> u64" where
  "read_dir f junk addr =
     (f\<lparr>fs_out := fs_out f @ read_dir_loop (tarfs_list f) junk None addr @ [[10]]\<rparr>, 0)"

section \<open>Files\<close>

fun open_loop :: "tarfs_e list \<Rightarrow> u8 list \<Rightarrow> tarfs_e option option" where
  "open_loop [] filename = None"
| "open_loop (e # es) filename =
     (if filename = te_name e \<and> te_type e = TYPE_FILE then Some (Some e)
      else if filename = te_name e \<and> te_type e = TYPE_DIRECTORY then Some None
      else open_loop es filename)"

definition no_such_file :: "u8 list \<Rightarrow> u8 list" where
  "no_such_file name = name @ [58, 32, 78, 111, 32, 115, 117, 99, 104, 32, 102, 105, 108, 101, 10]"

text \<open>\<^verbatim>\<open>sizeof(file)\<close> is 112; the descriptor is allocated before the search.\<close>

definition open_file :: "fsys \<Rightarrow> u8 list \<Rightarrow> (fsys \<times> u64) option" where
  "open_file f filename =
     do { (k, fd) \<leftarrow> kmalloc (fk f) 112;
          let f = f\<lparr>fk := k\<rparr>;
          case open_loop (tarfs_list f) filename of
            Some (Some e) \<Rightarrow>
              if fd = 0 \<or> 100 \<le> length filename then None
              else Some (f\<lparr>files := (files f)(fd \<mapsto> \<lparr>f_name = filename, f_size = te_size e, f_addr = te_addr e\<rparr>)\<rparr>, fd)
          | Some None \<Rightarrow> Some (f, 0)
          | None \<Rightarrow> Some (fs_print f (no_such_file filename), 0) }"

definition close_file :: "fsys \<Rightarrow> u64 \<Rightarrow> (fsys \<times> int) option" where
  "close_file f fd =
     do { e \<leftarrow> files f fd;
          Some (f\<lparr>files := (files f)(fd \<mapsto> e\<lparr>f_addr := 0, f_size := 0, f_name := []\<rparr>), bytesdone := 0\<rparr>, 1) }"

text \<open>\<^verbatim>\<open>max(bytes, size - bytesdone) == size - bytesdone ? bytes : size - bytesdone\<close>, with the
  difference as a 64-bit number.\<close>

definition bytes_to_read :: "u64 \<Rightarrow> int \<Rightarrow> int \<Rightarrow> int" where
  "bytes_to_read bytes sz pos =
     (let rest = of_int (sz - pos) :: u64
      in to_int (if max_u64 bytes rest = rest then bytes else rest))"

text \<open>The bytes from the position on; the text the caller sees ends at the first zero.\<close>

definition file_bytes :: "fsys \<Rightarrow> file_entry \<Rightarrow> nat \<Rightarrow> u8 list" where
  "file_bytes f e n = text_at (kmem (fk f)) (loc (f_addr e + 512 + of_int (bytesdone f))) n"

definition seen :: "u8 list \<Rightarrow> u8 list" where
  "seen bs = takeWhile (\<lambda>b. b \<noteq> 0) bs"

definition read_file :: "fsys \<Rightarrow> u64 \<Rightarrow> u64 \<Rightarrow> (fsys \<times> u8 list \<times> u64) option" where
  "read_file f fd bytes =
     do { e \<leftarrow> files f fd;
          if f_size e = 0 then Some (f, [], 0)
          else let n = bytes_to_read bytes (f_size e) (bytesdone f);
                   bs = file_bytes f e (nat n)
               in Some (f\<lparr>bytesdone := bytesdone f + (int (length (seen bs)) - 1)\<rparr>, bs, of_int n) }"

text \<open>The copying loop of \<^verbatim>\<open>readline\<close> stops at a line end, which it skips.\<close>

definition readline :: "fsys \<Rightarrow> u64 \<Rightarrow> u64 \<Rightarrow> (fsys \<times> u8 list \<times> u64) option" where
  "readline f fd bytes =
     do { e \<leftarrow> files f fd;
          if f_size e = 0 \<or> bytesdone f - f_size e = 0 then Some (f, [], 0)
          else let n = bytes_to_read bytes (f_size e) (bytesdone f);
                   bs = file_bytes f e (nat n);
                   l = takeWhile (\<lambda>b. b \<noteq> 10) bs;
                   f = (if 10 \<in> set bs then f\<lparr>bytesdone := bytesdone f + 1\<rparr> else f)
               in Some (f\<lparr>bytesdone := bytesdone f + int (length (seen l))\<rparr>, l, of_nat (length (seen l))) }"

section \<open>Archives in memory\<close>

text \<open>A member of an archive: its name, its size as octal text and its type digit. Headers and data
  start at multiples of 512 from the beginning; a header with an empty name ends the archive.\<close>

record tfile =
  tf_name :: "u8 list"
  tf_octal :: "u8 list"
  tf_type :: u8

definition tf_len :: "tfile \<Rightarrow> nat" where
  "tf_len t = oct_val 0 (tf_octal t)"

definition tar_round :: "nat \<Rightarrow> nat" where
  "tar_round n = (n + 511) div 512 * 512"

definition header_ok :: "mem \<Rightarrow> nat \<Rightarrow> tfile \<Rightarrow> bool" where
  "header_ok m a t \<longleftrightarrow> cstr m a (tf_name t) \<and> tf_name t \<noteq> [] \<and> length (tf_name t) < 100 \<and>
     cstr m (a + 124) (tf_octal t) \<and> (\<forall>c \<in> set (tf_octal t). is_digit c) \<and> dec_val 0 (tf_octal t) < 2147483600 \<and>
     cstr m (a + 156) [tf_type t] \<and> is_digit (tf_type t)"

fun laid_out :: "mem \<Rightarrow> nat \<Rightarrow> tfile list \<Rightarrow> bool" where
  "laid_out m a [] \<longleftrightarrow> m a = 0"
| "laid_out m a (t # ts) \<longleftrightarrow> header_ok m a t \<and> laid_out m (a + 512 + tar_round (tf_len t)) ts"

fun tar_end :: "nat \<Rightarrow> tfile list \<Rightarrow> nat" where
  "tar_end a [] = a"
| "tar_end a (t # ts) = tar_end (a + 512 + tar_round (tf_len t)) ts"

definition tar_entry :: "nat \<Rightarrow> tfile \<Rightarrow> tarfs_e" where
  "tar_entry a t = \<lparr>te_name = tf_name t, te_size = int (tf_len t), te_addr = VADDR (of_nat a),
     te_type = int (digit_of (tf_type t))\<rparr>"

fun tar_entries :: "nat \<Rightarrow> tfile list \<Rightarrow> tarfs_e list" where
  "tar_entries a [] = []"
| "tar_entries a (t # ts) = tar_entry a t # tar_entries (a + 512 + tar_round (tf_len t)) ts"

lemma tar_end_ge: "a \<le> tar_end a ts"
  by (induction a ts rule: tar_end.induct) auto

lemma tar_step_round: "tar_step (int n) = int (512 + tar_round n)"
proof -
  define q r where "q = n div 512" and "r = n mod 512"
  have n: "n = r + q * 512" and r: "r < 512" unfolding q_def r_def by simp_all
  have rem: "c_rem (int n) 512 = int r" unfolding c_rem_def c_div_def r_def
    by (simp add: minus_mult_div_eq_mod zmod_int)
  show ?thesis
  proof (cases "r = 0")
    case True
    then have "(n + 511) div 512 = q" using n by simp
    then show ?thesis using True n rem by (simp add: tar_step_def tar_round_def)
  next
    case False
    then have "n + 511 = (r - 1) + (q + 1) * 512" using n by simp
    then have "(n + 511) div 512 = (r - 1) div 512 + (q + 1)" by simp
    then have "(n + 511) div 512 = q + 1" using r by simp
    moreover have "int n \<noteq> 0" "int n = int r + int q * 512" using n False by auto
    ultimately show ?thesis using False rem by (simp add: tar_step_def tar_round_def)
  qed
qed

lemma text_at_cstr: "cstr m a s \<Longrightarrow> text_at m a (length s) = s"
  by (auto simp: text_at_def ld8_def cstr_nth intro!: nth_equalityI)

lemma tar_loop_step:
  assumes h: "header_ok m (a0 + p) t" and e: "low (a0 + p + 512 + tar_round (tf_len t))" and acc: "length acc < 1024"
  shows "tar_loop m (VADDR (of_nat a0)) (int p) acc =
    tar_loop m (VADDR (of_nat a0)) (int (p + 512 + tar_round (tf_len t))) (acc @ [tar_entry (a0 + p) t])"
proof -
  let ?a = "a0 + p"
  note H = h [unfolded header_ok_def]
  have "tf_len t \<le> tar_round (tf_len t)" unfolding tar_round_def by (simp add: div_mult_mod_eq dividend_less_times_div)
  then have len: "tf_len t < 2147483648" "p + 512 + tar_round (tf_len t) < 2147483648" using e by (auto simp: low_def)
  have "low ?a" by (rule low_mono [OF e]) simp
  then have lc: "loc (VADDR (of_nat ?a)) = ?a" by (rule loc_VADDR_of_nat)
  have hd: "VADDR (of_nat a0) + of_int (int p) = VADDR (of_nat ?a)" by (simp add: VADDR_def)
  obtain v where v: "atoi m (?a + 124) = Some v" "octTodec (of_int v) = of_nat (tf_len t)"
    using octal_text [of m "?a + 124" "tf_octal t"] H by (auto simp: tf_len_def)
  have ty: "atoi m (?a + 156) = Some (int (digit_of (tf_type t)))"
    using atoi_digits [of m "?a + 156" "[tf_type t]"] H digit_sint(2) [of "tf_type t"] by simp
  have n: "str_len m ?a = Some (length (tf_name t))" using H by (simp add: str_len_cstr)
  have st: "to_int (of_nat (tf_len t)) = int (tf_len t)" by (rule to_int_small [OF len(1)])
  have ok: "int_ok (int p + tar_step (int (tf_len t)))" using len(2) by (simp add: int_ok_def tar_step_round)
  have nm: "text_at m ?a (length (tf_name t)) = tf_name t" using H by (simp add: text_at_cstr)
  have nx: "int p + tar_step (int (tf_len t)) = int (p + 512 + tar_round (tf_len t))" by (simp add: tar_step_round)
  show ?thesis
    apply (subst tar_loop.simps)
    unfolding Let_def hd lc n bind.bind_lunit v ty st nm
    using H ok acc by (simp add: tar_entry_def nx del: of_nat_add)
qed

lemma tar_loop_laid:
  assumes "laid_out m (a0 + p) ts" and "low (tar_end (a0 + p) ts)" and "length acc + length ts \<le> 1024"
  shows "tar_loop m (VADDR (of_nat a0)) (int p) acc = Some (acc @ tar_entries (a0 + p) ts)"
  using assms
proof (induction ts arbitrary: p acc)
  case Nil
  then have "loc (VADDR (of_nat (a0 + p))) = a0 + p" by (intro loc_VADDR_of_nat) simp
  moreover have "VADDR (of_nat a0) + of_int (int p) = VADDR (of_nat (a0 + p))" by (simp add: VADDR_def)
  moreover have "str_len m (a0 + p) = Some 0"
    using Nil str_len_cstr [of m "a0 + p" "[]"] by (simp add: cstr_def holds_def)
  ultimately show ?case by (subst tar_loop.simps) (simp add: Let_def)
next
  case (Cons t ts)
  let ?p = "p + 512 + tar_round (tf_len t)"
  have e: "a0 + p + 512 + tar_round (tf_len t) = a0 + ?p" by simp
  have lw: "low (a0 + ?p)" by (rule low_mono [OF Cons.prems(2)]) (simp only: tar_end.simps e tar_end_ge)
  have h: "header_ok m (a0 + p) t" "laid_out m (a0 + ?p) ts" "low (tar_end (a0 + ?p) ts)"
    using Cons.prems(1,2) by (simp_all only: laid_out.simps tar_end.simps e)
  have "tar_loop m (VADDR (of_nat a0)) (int p) acc =
      tar_loop m (VADDR (of_nat a0)) (int ?p) (acc @ [tar_entry (a0 + p) t])"
    by (rule tar_loop_step [OF h(1)]) (use lw Cons.prems(3) in \<open>simp_all only: e, simp\<close>)
  also have "\<dots> = Some ((acc @ [tar_entry (a0 + p) t]) @ tar_entries (a0 + ?p) ts)"
    by (rule Cons.IH [OF h(2,3)]) (use Cons.prems(3) in simp)
  finally show ?case by (simp only: tar_entries.simps e append.simps append_assoc)
qed

lemma init_tarfs_laid:
  assumes "laid_out (kmem (fk f)) a0 ts" and "low (tar_end a0 ts)" and "length ts \<le> 1024"
  shows "init_tarfs f (VADDR (of_nat a0)) = Some (f\<lparr>tarfs_list := tar_entries a0 ts\<rparr>)"
  using tar_loop_laid [of "kmem (fk f)" a0 0 ts "[]"] assms by (simp add: init_tarfs_def)

text \<open>The address of the header of a member, and its entry in the list.\<close>

fun header_at :: "nat \<Rightarrow> tfile list \<Rightarrow> nat \<Rightarrow> nat" where
  "header_at a [] i = a"
| "header_at a (t # ts) i = (case i of 0 \<Rightarrow> a | Suc j \<Rightarrow> header_at (a + 512 + tar_round (tf_len t)) ts j)"

lemma tar_entries_nth:
  "i < length ts \<Longrightarrow> tar_entries a ts ! i = tar_entry (header_at a ts i) (ts ! i)"
  by (induction a ts i rule: header_at.induct) (auto split: nat.splits)

lemma tar_entries_names: "map te_name (tar_entries a ts) = map tf_name ts" "length (tar_entries a ts) = length ts"
  by (induction a ts rule: tar_entries.induct) (auto simp: tar_entry_def)

lemma header_at_end:
  "i < length ts \<Longrightarrow> header_at a ts i + 512 + tar_round (tf_len (ts ! i)) \<le> tar_end a ts"
proof (induction a ts i rule: header_at.induct)
  case (2 a t ts i)
  then show ?case using tar_end_ge [of "a + 512 + tar_round (tf_len t)" ts] by (cases i) auto
qed simp

lemma tf_len_round: "tf_len t \<le> tar_round (tf_len t)"
  unfolding tar_round_def by (simp add: div_mult_mod_eq dividend_less_times_div)

section \<open>Opening and reading\<close>

lemma open_loop_nth:
  assumes "distinct (map te_name es)" and "i < length es" and "te_type (es ! i) = TYPE_FILE"
  shows "open_loop es (te_name (es ! i)) = Some (Some (es ! i))"
  using assms
proof (induction es arbitrary: i)
  case (Cons e es)
  show ?case
  proof (cases i)
    case 0
    then show ?thesis using Cons.prems by simp
  next
    case (Suc j)
    then have "te_name (es ! j) \<in> te_name ` set es" using Cons.prems(2) by simp
    then have "te_name (es ! j) \<noteq> te_name e" using Cons.prems(1) by auto
    then show ?thesis using Suc Cons.IH [of j] Cons.prems by simp
  qed
qed simp

lemma open_file_ok:
  assumes fl: "fl_inv (fk f) lo hi n" and room: "lo < hi"
    and e: "open_loop (tarfs_list f) name = Some (Some e)" and len: "length name < 100"
  shows "\<exists>f'. open_file f name = Some (f', frame_ptr lo) \<and> tarfs_list f' = tarfs_list f \<and> bytesdone f' = bytesdone f \<and>
    files f' (frame_ptr lo) = Some \<lparr>f_name = name, f_size = te_size e, f_addr = te_addr e\<rparr> \<and>
    (\<forall>a < unat (free_list (fk f)). kmem (fk f') a = kmem (fk f) a)"
proof -
  have p: "pages_for 112 = int 1" by (simp add: pages_for_def to_int_def)
  obtain k where k: "kmalloc (fk f) 112 = Some (k, VADDR (of_nat (4096 * lo)))" "alloc_post (fk f) k lo 1 hi"
    using kmalloc_src.al_ok [OF fl p] room by auto
  have nz: "frame_ptr lo \<noteq> 0" using kmalloc_frame [OF fl p] room by auto
  have "unat (free_list (fk f)) \<le> 4096 * lo" using fl_invD [OF fl] by auto
  then have "\<forall>a < unat (free_list (fk f)). kmem k a = kmem (fk f) a" using k(2) by (auto simp: alloc_post_def)
  then show ?thesis using k(1) e len nz by (simp add: open_file_def frame_ptr_def)
qed

lemma bytes_to_read_min:
  assumes "pos \<le> sz" and "sz < 2147483648" and "b < 2147483648"
  shows "bytes_to_read (of_nat b) (int sz) (int pos) = int (min b (sz - pos))"
proof -
  have rest: "of_int (int sz - int pos) = (of_nat (sz - pos) :: u64)" using assms(1) by (simp add: of_nat_diff)
  have u: "unat (of_nat b :: u64) = b" "unat (of_nat (sz - pos) :: u64) = sz - pos"
    by (rule unat_of_nat_low; use assms in \<open>simp add: low_def\<close>)+
  have "(of_nat (sz - pos) :: u64) < of_nat b \<longleftrightarrow> sz - pos < b" by (simp only: word_less_nat_alt u)
  moreover have "(of_nat b :: u64) = of_nat (sz - pos) \<longleftrightarrow> b = sz - pos" using u by metis
  ultimately have "(if max_u64 (of_nat b) (of_nat (sz - pos)) = of_nat (sz - pos) then of_nat b else of_nat (sz - pos)) =
      (of_nat (min b (sz - pos)) :: u64)"
    by (auto simp: max_u64_def min_def)
  then show ?thesis
    unfolding bytes_to_read_def Let_def rest using to_int_small [of "min b (sz - pos)"] assms by simp
qed

text \<open>An open file whose data lies at a physical address.\<close>

definition open_at :: "fsys \<Rightarrow> u64 \<Rightarrow> nat \<Rightarrow> u8 list \<Rightarrow> bool" where
  "open_at f fd a data \<longleftrightarrow> low (a + 512 + length data) \<and> data \<noteq> [] \<and> text_at (kmem (fk f)) (a + 512) (length data) = data \<and>
     (\<exists>e. files f fd = Some e \<and> f_addr e = VADDR (of_nat a) \<and> f_size e = int (length data))"

lemma take_drop_text: "text_at m (a + p) n = take n (drop p (text_at m a (p + n + k)))"
  by (rule nth_equalityI) (auto simp: text_at_def add.assoc)

lemma file_bytes_data:
  assumes o: "open_at f fd a data" and e: "files f fd = Some e" and pos: "bytesdone f = int p" and n: "p + n \<le> length data"
  shows "file_bytes f e n = take n (drop p data)"
proof -
  have lw: "low (a + 512 + p)"
    by (rule low_mono [of "a + 512 + length data"]) (use o n in \<open>auto simp: open_at_def\<close>)
  have "f_addr e = VADDR (of_nat a)" using o e by (auto simp: open_at_def)
  then have "f_addr e + 512 + of_int (bytesdone f) = VADDR (of_nat (a + 512 + p))" using pos by (simp add: VADDR_def)
  moreover have "loc (VADDR (of_nat (a + 512 + p))) = a + 512 + p" by (rule loc_VADDR_of_nat [OF lw])
  ultimately have "file_bytes f e n = text_at (kmem (fk f)) (a + 512 + p) n" by (simp only: file_bytes_def)
  also have "\<dots> = take n (drop p (text_at (kmem (fk f)) (a + 512) (p + n + (length data - (p + n)))))"
    by (rule take_drop_text)
  finally show ?thesis using o n by (simp add: open_at_def)
qed

lemma take_min_length: "take (min b (length xs)) xs = take b xs"
  by (cases "b \<le> length xs") (simp_all add: min_def)

lemma file_bytes_min:
  assumes "open_at f fd a data" and "files f fd = Some e" and "bytesdone f = int p" and "p \<le> length data"
  shows "file_bytes f e (min b (length data - p)) = take b (drop p data)"
proof -
  have "p + min b (length data - p) \<le> length data" using assms(4) by simp
  from file_bytes_data [OF assms(1-3) this] show ?thesis using take_min_length [of b "drop p data"] by simp
qed

lemma read_file_data:
  assumes o: "open_at f fd a data" and pos: "bytesdone f = int p" "p \<le> length data" and b: "b < 2147483648"
  shows "read_file f fd (of_nat b) =
    Some (f\<lparr>bytesdone := int p + (int (length (seen (take b (drop p data)))) - 1)\<rparr>, take b (drop p data),
      of_nat (min b (length data - p)))"
proof -
  obtain e where e: "files f fd = Some e" "f_size e = int (length data)" "data \<noteq> []" using o by (auto simp: open_at_def)
  have len: "length data < 2147483648" using o by (auto simp: open_at_def low_def)
  let ?n = "min b (length data - p)"
  have "bytes_to_read (of_nat b) (f_size e) (bytesdone f) = int ?n"
    using bytes_to_read_min [OF pos(2) len b] e(2) pos(1) by simp
  moreover have "file_bytes f e ?n = take b (drop p data)"
    by (rule file_bytes_min [OF o e(1) pos])
  ultimately show ?thesis using e pos(1) by (simp add: read_file_def Let_def)
qed

lemma readline_data:
  assumes o: "open_at f fd a data" and pos: "bytesdone f = int p" "p < length data" and b: "b < 2147483648"
    and l: "drop p data = l @ 10 # rest" "10 \<notin> set l" "0 \<notin> set l" "length l < b"
  shows "readline f fd (of_nat b) =
    Some (f\<lparr>bytesdone := int (p + length l + 1)\<rparr>, l, of_nat (length l))"
proof -
  obtain e where e: "files f fd = Some e" "f_size e = int (length data)" "data \<noteq> []" using o by (auto simp: open_at_def)
  have len: "length data < 2147483648" using o by (auto simp: open_at_def low_def)
  let ?n = "min b (length data - p)"
  have "bytes_to_read (of_nat b) (f_size e) (bytesdone f) = int ?n"
    using bytes_to_read_min [OF _ len b, of p] e(2) pos by simp
  moreover have bs: "file_bytes f e ?n = take b (l @ 10 # rest)"
    using file_bytes_min [OF o e(1) pos(1), of b] pos(2) l(1) by simp
  moreover have "10 \<in> set (take b (l @ 10 # rest))" "takeWhile (\<lambda>c. c \<noteq> 10) (take b (l @ 10 # rest)) = l"
  proof -
    obtain k where "b - length l = Suc k" using l(4) by (metis Suc_diff_Suc)
    then have t: "take b (l @ 10 # rest) = l @ 10 # take k rest" using l(4) by simp
    show "10 \<in> set (take b (l @ 10 # rest))" unfolding t by simp
    show "takeWhile (\<lambda>c. c \<noteq> 10) (take b (l @ 10 # rest)) = l" unfolding t using l(2) by (subst takeWhile_append2) auto
  qed
  moreover have "seen l = l" using l(3) by (auto simp: seen_def takeWhile_eq_all_conv)
  moreover have "bytesdone f - f_size e \<noteq> 0" using e(2) pos by simp
  ultimately show ?thesis using e pos(1) by (simp add: readline_def Let_def algebra_simps)
qed

section \<open>A small archive\<close>

text \<open>One regular file named a with the three bytes xyz at the start of memory.\<close>

definition demo_tar :: "u8 list" where
  "demo_tar = [97] @ replicate 123 0 @ [51] @ replicate 31 0 @ [48] @ replicate 355 0 @ [120, 121, 122] @ replicate 509 0 @ [0]"

definition demo_member :: tfile where
  "demo_member = \<lparr>tf_name = [97], tf_octal = [51], tf_type = 48\<rparr>"

lemma fl_inv_below:
  assumes "fl_inv st lo hi n" and "\<And>a. unat (free_list st) \<le> a \<Longrightarrow> m a = kmem st a"
  shows "fl_inv (st\<lparr>kmem := m\<rparr>) lo hi n"
proof -
  have "same_on a k m (kmem st)" if "unat (free_list st) \<le> a" for a k
    using assms(2) that by (auto simp: same_on_def)
  then have "ld32 m (unat (free_list st) + b) = ld32 (kmem st) (unat (free_list st) + b)"
      "ld64 m (unat (free_list st) + b) = ld64 (kmem st) (unat (free_list st) + b)" for b
    by (auto intro!: ld32_same ld64_same)
  then show ?thesis
    using assms(1) by (simp add: fl_inv_def fl_linked_def Let_def add.assoc)
qed

definition demo_fs :: fsys where
  "demo_fs = \<lparr>fk = boot_st\<lparr>kmem := blit (kmem boot_st) 0 demo_tar\<rparr>, tarfs_list = [], bytesdone = 0, files = Map.empty, fs_out = []\<rparr>"

lemma boot_free_list: "free_list boot_st = 4096"
proof -
  have num: "1 + reserved_pages 171 = 2" "intact_descs 171 = 170"
    by (simp_all add: reserved_pages_def intact_descs_def)
  show ?thesis
    using calculate_free_list_inv [of 1 171 "\<lparr>kmem = (\<lambda>_. 0), free_list = 0\<rparr>", unfolded num]
    by (auto simp: low_def boot_st_def)
qed

lemma demo_fs_inv: "fl_inv (fk demo_fs) 2 170 171" "unat (free_list (fk demo_fs)) = 4096"
proof -
  show "unat (free_list (fk demo_fs)) = 4096" by (simp add: demo_fs_def boot_free_list)
  have "fl_inv (boot_st\<lparr>kmem := blit (kmem boot_st) 0 demo_tar\<rparr>) 2 170 171"
    by (rule fl_inv_below [OF boot_inv]) (simp add: boot_free_list blit_def demo_tar_def)
  then show "fl_inv (fk demo_fs) 2 170 171" by (simp add: demo_fs_def)
qed

lemma demo_byte: "i < 1025 \<Longrightarrow> kmem (fk demo_fs) i = demo_tar ! i"
  by (simp add: demo_fs_def blit_def demo_tar_def)

lemma demo_laid: "laid_out (kmem (fk demo_fs)) 0 [demo_member]" "tar_end 0 [demo_member] = 1024"
proof -
  have l: "tf_len demo_member = 3" by (simp add: tf_len_def demo_member_def digit_of_def)
  show "tar_end 0 [demo_member] = 1024" by (simp add: l tar_round_def)
  have "cstr (kmem (fk demo_fs)) 0 [97]" "cstr (kmem (fk demo_fs)) 124 [51]" "cstr (kmem (fk demo_fs)) 156 [48]"
    by (simp_all add: cstr_def holds_def demo_byte All_less_Suc) (simp_all add: demo_tar_def nth_append nth_Cons')
  moreover have "kmem (fk demo_fs) 1024 = 0" by (simp add: demo_byte) (simp add: demo_tar_def nth_append nth_Cons')
  ultimately show "laid_out (kmem (fk demo_fs)) 0 [demo_member]"
    using l by (simp add: header_ok_def tar_round_def) (simp add: demo_member_def is_digit_def digit_of_def)
qed

section \<open>Properties\<close>

text \<open>
  C10. From archive to data: when memory holds an archive in tar format below the allocator's
  list, \<^verbatim>\<open>init_tarfs\<close> finds every member, \<^verbatim>\<open>open\<close> of a regular file by its name gives a
  new descriptor, and \<^verbatim>\<open>read_file\<close> from the start returns the first bytes of its data.
\<close>

theorem tar_open_read:
  assumes "laid_out (kmem (fk f)) a ts" and "low (tar_end a ts)" and "length ts \<le> 1024"
    and "fl_inv (fk f) lo hi n" and "lo < hi" and "tar_end a ts \<le> unat (free_list (fk f))"
    and "distinct (map tf_name ts)" and "i < length ts" and "tf_type (ts ! i) = 48" and "0 < tf_len (ts ! i)"
    and "length (tf_name (ts ! i)) < 100" and "bytesdone f = 0" and "b < 2147483648"
  shows "\<exists>f1 f2 f3 fd. init_tarfs f (VADDR (of_nat a)) = Some f1 \<and>
    map te_name (tarfs_list f1) = map tf_name ts \<and> map te_size (tarfs_list f1) = map (int \<circ> tf_len) ts \<and>
    open_file f1 (tf_name (ts ! i)) = Some (f2, fd) \<and>
    read_file f2 fd (of_nat b) =
      Some (f3, text_at (kmem (fk f)) (header_at a ts i + 512) (min b (tf_len (ts ! i))), of_nat (min b (tf_len (ts ! i))))"
proof -
  let ?t = "ts ! i" and ?h = "header_at a ts i" and ?m = "kmem (fk f)"
  let ?f1 = "f\<lparr>tarfs_list := tar_entries a ts\<rparr>" and ?data = "text_at (kmem (fk f)) (header_at a ts i + 512) (tf_len (ts ! i))"
  have init: "init_tarfs f (VADDR (of_nat a)) = Some ?f1" by (rule init_tarfs_laid [OF assms(1-3)])
  have sizes: "map te_size (tar_entries a ts) = map (int \<circ> tf_len) ts" for a
    by (induction ts arbitrary: a) (auto simp: tar_entry_def)
  have ent: "tar_entries a ts ! i = tar_entry ?h ?t" by (rule tar_entries_nth [OF assms(8)])
  have "digit_of (tf_type ?t) = 0" using assms(9) by (simp add: digit_of_def)
  then have "open_loop (tarfs_list ?f1) (tf_name ?t) = Some (Some (tar_entry ?h ?t))"
    using open_loop_nth [of "tar_entries a ts" i] assms(7,8) by (simp add: tar_entries_names ent tar_entry_def)
  then obtain f2 where f2: "open_file ?f1 (tf_name ?t) = Some (f2, frame_ptr lo)" "bytesdone f2 = 0"
      "files f2 (frame_ptr lo) = Some \<lparr>f_name = tf_name ?t, f_size = int (tf_len ?t), f_addr = VADDR (of_nat ?h)\<rparr>"
      "\<forall>x < unat (free_list (fk f)). kmem (fk f2) x = ?m x"
    using open_file_ok [of ?f1 lo hi n "tf_name ?t" "tar_entry ?h ?t"] assms(4,5,11,12) by (auto simp: tar_entry_def)
  have hend: "?h + 512 + tf_len ?t \<le> tar_end a ts"
    using header_at_end [OF assms(8), of a] tf_len_round [of ?t] by simp
  have same: "text_at (kmem (fk f2)) (?h + 512) (tf_len ?t) = ?data"
    using f2(4) hend assms(6) by (auto simp: text_at_def ld8_def)
  have len: "length ?data = tf_len ?t" by (simp add: text_at_def)
  have "low (?h + 512 + tf_len ?t)" by (rule low_mono [OF assms(2) hend])
  then have o: "open_at f2 (frame_ptr lo) ?h ?data"
    unfolding open_at_def using f2(3) same assms(10) len by (auto simp: text_at_def)
  have "take b ?data = text_at ?m (?h + 512) (min b (tf_len ?t))"
    by (auto simp: text_at_def take_map take_upt intro!: nth_equalityI)
  then have "read_file f2 (frame_ptr lo) (of_nat b) =
      Some (f2\<lparr>bytesdone := int 0 + (int (length (seen (take b (drop 0 ?data)))) - 1)\<rparr>,
        text_at ?m (?h + 512) (min b (tf_len ?t)), of_nat (min b (tf_len ?t)))"
    using read_file_data [OF o, of 0 b] f2(2) assms(13) len by simp
  then show ?thesis using init f2(1) sizes [of a] by (auto simp: tar_entries_names)
qed

theorem tar_open_read_witness:
  "\<exists>f1 f2 f3 fd. init_tarfs demo_fs (VADDR (of_nat 0)) = Some f1 \<and> open_file f1 [97] = Some (f2, fd) \<and>
     read_file f2 fd (of_nat 2) = Some (f3, [120, 121], 2)"
proof -
  have l: "tf_len demo_member = 3" by (simp add: tf_len_def demo_member_def digit_of_def)
  have t: "text_at (kmem (fk demo_fs)) 512 2 = [120, 121]"
    by (simp add: text_at_def ld8_def demo_byte upt_rec) (simp add: demo_tar_def nth_append nth_Cons')
  have "bytesdone demo_fs = 0" by (simp add: demo_fs_def)
  then show ?thesis
    using tar_open_read [OF demo_laid(1) _ _ demo_fs_inv(1), of 0 2] demo_laid(2) demo_fs_inv(2) l t
    by (auto simp: low_def) (auto simp: demo_member_def)
qed

text \<open>
  C39. A second read of a file starts with the last byte of the first one: the position moves by
  one less than the number of bytes that were copied.
\<close>

theorem read_file_rereads:
  assumes "open_at f fd a data" and "bytesdone f = 0" and "0 < b" and "2 * b \<le> length data" and "0 \<notin> set data"
  shows "\<exists>f1 f2. read_file f fd (of_nat b) = Some (f1, take b data, of_nat b) \<and>
    read_file f1 fd (of_nat b) = Some (f2, take b (drop (b - 1) data), of_nat b) \<and>
    hd (take b (drop (b - 1) data)) = last (take b data)"
proof -
  have len: "length data < 2147483648" using assms(1) by (auto simp: open_at_def low_def)
  have "seen (take b data) = take b data"
    using assms(5) by (auto simp: seen_def takeWhile_eq_all_conv dest: in_set_takeD)
  then have r1: "read_file f fd (of_nat b) = Some (f\<lparr>bytesdone := int (b - 1)\<rparr>, take b data, of_nat b)"
    using read_file_data [OF assms(1), of 0 b] assms(2-4) len by (simp add: of_nat_diff min_def)
  have "open_at (f\<lparr>bytesdone := int (b - 1)\<rparr>) fd a data" using assms(1) by (simp add: open_at_def)
  from read_file_data [OF this, of "b - 1" b]
  have r2: "\<exists>f2. read_file (f\<lparr>bytesdone := int (b - 1)\<rparr>) fd (of_nat b) = Some (f2, take b (drop (b - 1) data), of_nat b)"
    using assms(3,4) len by (cases "b \<le> Suc (length data) - b") (simp_all add: min_def)
  have "hd (take b (drop (b - 1) data)) = data ! (b - 1)" using assms(3,4) by (simp add: hd_drop_conv_nth hd_take)
  moreover have "last (take b data) = data ! (b - 1)" 
    using assms(3,4) last_conv_nth [of "take b data"] by (cases data) (auto simp: min_def)
  ultimately show ?thesis using r1 r2 by auto
qed

definition demo_open :: fsys where
  "demo_open = \<lparr>fk = \<lparr>kmem = blit (\<lambda>_. 0) 512 [97, 98, 99, 10, 100], free_list = 0\<rparr>, tarfs_list = [], bytesdone = 0,
     files = [64 \<mapsto> \<lparr>f_name = [97], f_size = 5, f_addr = VADDR 0\<rparr>], fs_out = []\<rparr>"

lemma demo_open_at: "open_at demo_open 64 0 [97, 98, 99, 10, 100]"
  by (simp add: open_at_def demo_open_def low_def text_at_def ld8_def blit_def upt_rec)

theorem read_file_rereads_witness:
  "\<exists>f1 f2. read_file demo_open 64 (of_nat 2) = Some (f1, [97, 98], of_nat 2) \<and>
     read_file f1 64 (of_nat 2) = Some (f2, [98, 99], of_nat 2)"
  using read_file_rereads [OF demo_open_at, of 2] by (auto simp: demo_open_def)

text \<open>
  C38. \<^verbatim>\<open>readline\<close> returns the next line without its end and moves behind it, when the line
  fits the buffer; an empty line is returned as length zero, like the end of the file.
\<close>

theorem readline_next_line:
  assumes "open_at f fd a data" and "bytesdone f = int p" and "p < length data" and "b < 2147483648"
    and "drop p data = l @ 10 # rest" and "10 \<notin> set l" and "0 \<notin> set l" and "length l < b"
  shows "\<exists>f'. readline f fd (of_nat b) = Some (f', l, of_nat (length l)) \<and> bytesdone f' = int (p + length l + 1) \<and>
    drop (nat (bytesdone f')) data = rest"
proof -
  have "drop (p + (length l + 1)) data = drop (length l + 1) (drop p data)" by (simp add: add.commute)
  then have "drop (p + (length l + 1)) data = rest" using assms(5) by simp
  then show ?thesis using readline_data [OF assms] by (simp add: nat_add_distrib add.assoc)
qed

theorem readline_next_line_witness:
  "\<exists>f'. readline demo_open 64 (of_nat 50) = Some (f', [97, 98, 99], 3) \<and> bytesdone f' = 4"
  using readline_next_line [OF demo_open_at, of 0 50 "[97, 98, 99]" "[100]"] by (auto simp: demo_open_def)

end
