(* ===== verification/Elf64.thy ===== *)
theory Elf64
  imports UserMem Tarfs
begin

text \<open>
  The program loader of \<^verbatim>\<open>sys/elf64.c\<close>. \<^verbatim>\<open>elf_run_bin\<close> makes a task with an address
  space of its own, loads the segments of the image into it through the new page tables, and
  prepares the kernel stack from which the first switch enters the program. The image lies in
  the archive, below the page descriptors.
\<close>

section \<open>Headers\<close>

record Elf64_Ehdr =
  e_ident :: "nat \<Rightarrow> u8"
  e_type :: u16
  e_machine :: u16
  e_version :: u32
  e_entry :: u64
  e_phoff :: u64
  e_shoff :: u64
  e_flags :: u32
  e_ehsize :: u16
  e_phentsize :: u16
  e_phnum :: u16
  e_shentsize :: u16
  e_shnum :: u16
  e_shstrndx :: u16

record Elf64_Phdr =
  p_type :: u32
  p_flags :: u32
  p_offset :: u64
  p_vaddr :: u64
  p_paddr :: u64
  p_filesz :: u64
  p_memsz :: u64
  p_align :: u64

definition ld16 :: "mem \<Rightarrow> nat \<Rightarrow> u16" where
  "ld16 m p = of_nat (ldn 2 m p)"

definition ehdr_at :: "mem \<Rightarrow> nat \<Rightarrow> Elf64_Ehdr" where
  "ehdr_at m a =
     \<lparr>e_ident = (\<lambda>i. ld8 m (a + i)), e_type = ld16 m (a + 16), e_machine = ld16 m (a + 18), e_version = ld32 m (a + 20),
      e_entry = ld64 m (a + 24), e_phoff = ld64 m (a + 32), e_shoff = ld64 m (a + 40), e_flags = ld32 m (a + 48),
      e_ehsize = ld16 m (a + 52), e_phentsize = ld16 m (a + 54), e_phnum = ld16 m (a + 56), e_shentsize = ld16 m (a + 58),
      e_shnum = ld16 m (a + 60), e_shstrndx = ld16 m (a + 62)\<rparr>"

definition phdr_at :: "mem \<Rightarrow> nat \<Rightarrow> Elf64_Phdr" where
  "phdr_at m a =
     \<lparr>p_type = ld32 m a, p_flags = ld32 m (a + 4), p_offset = ld64 m (a + 8), p_vaddr = ld64 m (a + 16),
      p_paddr = ld64 m (a + 24), p_filesz = ld64 m (a + 32), p_memsz = ld64 m (a + 40), p_align = ld64 m (a + 48)\<rparr>"

section \<open>The checks\<close>

definition elf_check_file :: "ksys \<Rightarrow> u64 \<Rightarrow> ksys \<times> bool" where
  "elf_check_file s elfhdr =
     (let h = ehdr_at (kmem_of s) (loc elfhdr) in
      if elfhdr = 0 then (s, False)
      else if e_ident h 0 \<noteq> 0x7F then (say s (Say ''ELF Header EI_MAG0 incorrect.\<newline>''), False)
      else if e_ident h 1 \<noteq> 69 then (say s (Say ''ELF Header EI_MAG1 incorrect.\<newline>''), False)
      else if e_ident h 2 \<noteq> 76 then (say s (Say ''ELF Header EI_MAG2 incorrect.\<newline>''), False)
      else if e_ident h 3 \<noteq> 70 then (say s (Say ''ELF Header EI_MAG3 incorrect.\<newline>''), False)
      else (s, True))"

definition elf_check_supported :: "ksys \<Rightarrow> u64 \<Rightarrow> ksys \<times> bool" where
  "elf_check_supported s hdr =
     (let (s, ok) = elf_check_file s hdr; h = ehdr_at (kmem_of s) (loc hdr) in
      if \<not> ok then (say s (Say ''Invalid ELF File.\<newline>''), False)
      else if e_ident h 4 \<noteq> 2 then (say s (Say ''Unsupported ELF File Class.\<newline>''), False)
      else if e_ident h 5 \<noteq> 1 then (say s (Say ''Unsupported ELF File byte order.\<newline>''), False)
      else if e_machine h \<noteq> 0x3E then (say s (Say ''Unsupported ELF File target.\<newline>''), False)
      else if e_ident h 6 \<noteq> 1 then (say s (Say ''Unsupported ELF File version.\<newline>''), False)
      else if e_type h \<noteq> 1 \<and> e_type h \<noteq> 2 then (say s (Say ''Unsupported ELF File type.\<newline>''), False)
      else (s, True))"

section \<open>A new task\<close>

definition clear_table :: "mem \<Rightarrow> u64 \<Rightarrow> mem" where
  "clear_table m pml4a = fold (\<lambda>i m. set_entry m pml4a (of_nat i) 0) [0..<512] m"

text \<open>The new page-table root shares the last entry of the kernel's.\<close>

definition new_space :: "ksys \<Rightarrow> u64 \<Rightarrow> ksys" where
  "new_space s pml4a =
     (let m = clear_table (kmem_of s) pml4a
      in set_kmem s (set_entry m pml4a 511 (entry_at m (ker_pml4_t (vm s)) 511)))"

text \<open>\<^verbatim>\<open>memcpy(pcb->tname, name, str_len(name))\<close> with a name in memory.\<close>

definition copy_name :: "(nat \<Rightarrow> u8) \<Rightarrow> mem \<Rightarrow> nat \<Rightarrow> nat \<Rightarrow> (nat \<Rightarrow> u8)" where
  "copy_name nm m a n = (\<lambda>i. if i < n then ld8 m (a + i) else nm i)"

text \<open>Clearing the first 512 words of the user stack, through the page tables.\<close>

fun clear_ustack :: "mem \<Rightarrow> u64 \<Rightarrow> u64 \<Rightarrow> nat \<Rightarrow> nat \<Rightarrow> mem option" where
  "clear_ustack m cr us i 0 = Some m"
| "clear_ustack m cr us i (Suc n) = do { m \<leftarrow> vst64 m cr (us + 8 * of_nat i) 0; clear_ustack m cr us (Suc i) n }"

text \<open>The frame from which the first switch to the task returns; \<open>isr32\<close> is the address of the
  interrupt entry in \<^verbatim>\<open>sys/isr.s\<close>.\<close>

definition start_stack :: "u64 \<Rightarrow> u64 \<Rightarrow> nat \<Rightarrow> (nat \<Rightarrow> u64) \<Rightarrow> (nat \<Rightarrow> u64) \<Rightarrow> (nat \<Rightarrow> u64)" where
  "start_stack isr32 us argc argv ks =
     (let ks = ks(506 := of_nat argc);
          ks = fold (\<lambda>i ks. ks(505 - i := argv i)) [0..<argc] ks;
          ks = fold (\<lambda>i ks. ks(506 - argc - i := of_nat (argc + 1 + i))) [1..<15] ks;
          ks = ks(491 := isr32 + 29);
          ks = ks(511 := 0x23);
          ks = ks(510 := us + 8 * 511);
          ks = ks(509 := 0x200286)
      in ks(508 := 0x1b))"

text \<open>The fields of a memory area that its user sets.\<close>

definition set_vma :: "mem \<Rightarrow> u64 \<Rightarrow> vm_area_struct \<Rightarrow> mem" where
  "set_vma m p v =
     (let a = loc p;
          m = st64 m (a + 8) (vm_start v);
          m = st64 m (a + 16) (vm_end v);
          m = st64 m (a + 48) (vm_mmsz v);
          m = st64 m (a + 56) (vm_next v);
          m = st64 m (a + 24) (vm_file v);
          m = st64 m (a + 40) (vm_flags v)
      in st64 m (a + 32) (vm_pgoff v))"

text \<open>\<^verbatim>\<open>memcpy\<close> and \<^verbatim>\<open>memset\<close> are declared with a size of type \<^verbatim>\<open>int\<close> and defined with
  one of 64 bits; a size that does not fit has no defined meaning.\<close>

definition c_size :: "u64 \<Rightarrow> nat option" where
  "c_size x = (if unat x < 2147483648 then Some (unat x) else None)"

definition load_segment :: "ksys \<Rightarrow> u64 \<Rightarrow> u64 \<Rightarrow> Elf64_Phdr \<Rightarrow> ksys option" where
  "load_segment s elfhdr pcb ph =
     do { let s = (if p_memsz ph < p_filesz ph then say s (Say ''Wrong size in elf binary\<newline>'') else s);
          t \<leftarrow> tasks s pcb;
          k \<leftarrow> region_alloc (vkst (vm s)) (t_pml4 t) (p_vaddr ph) (p_memsz ph);
          n \<leftarrow> c_size (p_filesz ph);
          m \<leftarrow> vcopy (kmem k) (cr3 (vm s)) (p_vaddr ph) (loc (elfhdr + p_offset ph)) n;
          m \<leftarrow> (if p_filesz ph < p_memsz ph then
                 do { n \<leftarrow> c_size (p_memsz ph - p_filesz ph);
                      vset m (cr3 (vm s)) (p_vaddr ph + p_filesz ph) 0 n }
               else Some m);
          let s = s\<lparr>vm := (vm s)\<lparr>vkst := k\<lparr>kmem := m\<rparr>\<rparr>\<rparr>;
          (s, vma) \<leftarrow> vma_malloc s (mm t);
          Some (set_kmem s (set_vma (kmem_of s) vma
            \<lparr>vm_mm = 0, vm_start = p_vaddr ph, vm_end = p_vaddr ph + p_memsz ph, vm_file = elfhdr, vm_pgoff = p_offset ph,
             vm_flags = ucast (p_flags ph), vm_mmsz = p_memsz ph, vm_next = 0\<rparr>)) }"

fun load_segments :: "ksys \<Rightarrow> u64 \<Rightarrow> u64 \<Rightarrow> u64 \<Rightarrow> nat \<Rightarrow> ksys option" where
  "load_segments s elfhdr pcb phdr 0 = Some s"
| "load_segments s elfhdr pcb phdr (Suc n) =
     do { let ph = phdr_at (kmem_of s) (loc phdr);
          s \<leftarrow> (if p_type ph = 1 then load_segment s elfhdr pcb ph else Some s);
          load_segments s elfhdr pcb (phdr + 56) n }"

text \<open>The task up to the point where its address space is loaded.\<close>

definition new_task :: "ksys \<Rightarrow> u64 \<Rightarrow> u64 \<Rightarrow> (ksys \<times> u64) option" where
  "new_task s parent fileptr =
     do { (s, process_page) \<leftarrow> ksys_kmalloc s 24;
          (s, pcb) \<leftarrow> ksys_kmalloc s 32976;
          p \<leftarrow> tasks s parent;
          n \<leftarrow> str_len (kmem_of s) (loc fileptr);
          if process_page = 0 \<or> pcb = 0 \<or> 100 < n \<or> \<not> int_ok (PID s + 1) then None
          else do {
            let mmp = pcb + 32976;
            let s = s\<lparr>mms := (mms s)(mmp \<mapsto> \<lparr>mm_count = 0, mm_mmap = 0\<rparr>)\<rparr>;
            let t = zero_task\<lparr>mm := mmp, pid := of_int (PID s), ppid := pid p,
                      tname := copy_name (tname zero_task) (kmem_of s) (loc fileptr) n\<rparr>;
            let s = s\<lparr>PID := PID s + 1\<rparr>;
            let s = new_space s process_page;
            let t = t\<lparr>t_pml4 := process_page, t_cr3 := PADDR process_page, is_waiting := 0, sleep_time := 0, is_sleeping := 0\<rparr>;
            (k, us) \<leftarrow> kmalloc_stack (vkst (vm s)) 1 process_page;
            Some (s\<lparr>vm := (vm s)\<lparr>vkst := k\<rparr>, tasks := (tasks s)(pcb \<mapsto> t\<lparr>ustack := us\<rparr>)\<rparr>, pcb) } }"

text \<open>The address space of the task is loaded and its two stacks are set up. The two loops of the
  source that clear the kernel stack, which is clear, are left out.\<close>

definition setup_stacks :: "u64 \<Rightarrow> ksys \<Rightarrow> u64 \<Rightarrow> nat \<Rightarrow> (nat \<Rightarrow> u64) \<Rightarrow> ksys option" where
  "setup_stacks isr32 s pcb argc argv =
     do { t \<leftarrow> tasks s pcb;
          let s = s\<lparr>vm := LOAD_CR3 (vm s) (t_cr3 t)\<rparr>;
          m \<leftarrow> clear_ustack (kmem_of s) (cr3 (vm s)) (ustack t) 0 512;
          let s = set_kmem s m;
          if 492 < argc then None
          else upd_task s pcb (\<lambda>t. t\<lparr>kstack := start_stack isr32 (ustack t) argc argv (kstack t), t_rsp := pcb + 8 + 8 * 491\<rparr>) }"

definition elf_run_bin :: "u64 \<Rightarrow> ksys \<Rightarrow> u64 \<Rightarrow> u64 \<Rightarrow> nat \<Rightarrow> (nat \<Rightarrow> u64) \<Rightarrow> (ksys \<times> u64) option" where
  "elf_run_bin isr32 s addr fileptr argc argv =
     do { parent \<leftarrow> get_running_task s;
          (s, pcb) \<leftarrow> new_task s parent fileptr;
          s \<leftarrow> setup_stacks isr32 s pcb argc argv;
          let h = ehdr_at (kmem_of s) (loc addr);
          s \<leftarrow> load_segments s addr pcb (addr + e_phoff h) (unat (e_phnum h));
          let h = ehdr_at (kmem_of s) (loc addr);
          s \<leftarrow> upd_task s pcb (\<lambda>t. t\<lparr>t_entry := e_entry h, kstack := (kstack t)(507 := e_entry h)\<rparr>);
          p \<leftarrow> tasks s parent;
          Some (s\<lparr>vm := LOAD_CR3 (vm s) (t_cr3 p)\<rparr>, pcb) }"

definition elf_parse :: "u64 \<Rightarrow> ksys \<Rightarrow> u64 \<Rightarrow> u64 \<Rightarrow> nat \<Rightarrow> (nat \<Rightarrow> u64) \<Rightarrow> (ksys \<times> u64) option" where
  "elf_parse isr32 s addr fileptr argc argv =
     (let (s, ok) = elf_check_supported s addr in elf_run_bin isr32 s addr fileptr argc argv)"

section \<open>The new address space\<close>

lemma clear_table_zero:
  assumes "is_table pml4a g" and "\<forall>j<512. tabs m g j = 0"
  shows "\<forall>h j. j < 512 \<longrightarrow> tabs (clear_table m pml4a) h j = tabs m h j"
    and "\<forall>a. a < 4096 * g \<or> 4096 * Suc g \<le> a \<longrightarrow> clear_table m pml4a a = m a"
proof -
  have u: "unat (of_nat i :: u64) = i" if "i < 512" for i :: nat using that by (simp add: unat_of_nat take_bit_eq_mod)
  have "k \<le> 512 \<Longrightarrow> (\<forall>h j. j < 512 \<longrightarrow> tabs (fold (\<lambda>i m. set_entry m pml4a (of_nat i) 0) [0..<k] m) h j = tabs m h j) \<and>
      (\<forall>a. a < 4096 * g \<or> 4096 * Suc g \<le> a \<longrightarrow> fold (\<lambda>i m. set_entry m pml4a (of_nat i) 0) [0..<k] m a = m a)" for k
  proof (induction k)
    case (Suc k)
    then have k: "unat (of_nat k :: u64) < 512" using u [of k] by simp
    show ?case
      using Suc tabs_set_entry [OF assms(1) k] set_entry_frame [OF assms(1) k] u [of k] assms(2) by auto
  qed simp
  from this [of 512] show "\<forall>h j. j < 512 \<longrightarrow> tabs (clear_table m pml4a) h j = tabs m h j"
    and "\<forall>a. a < 4096 * g \<or> 4096 * Suc g \<le> a \<longrightarrow> clear_table m pml4a a = m a"
    unfolding clear_table_def by blast+
qed

text \<open>An empty page \<open>g\<close> with the last entry of the kernel's root is the root of an address space
  that agrees with the kernel's in the last entry and is empty elsewhere.\<close>

lemma shared_root:
  assumes inv: "pt_inv st kroot lo hi n" and g: "g \<in> table_frames st lo hi" "off_tree st kroot g"
    and zero: "\<forall>j<512. tabs (kmem st) g j = 0"
    and m': "\<forall>h j. j < 512 \<longrightarrow> tabs m' h j = (if h = g \<and> j = 511 then tabs (kmem st) kroot 511 else tabs (kmem st) h j)"
    and frame: "\<forall>a. a < 4096 * g \<or> 4096 * Suc g \<le> a \<longrightarrow> m' a = kmem st a"
  shows "pt_inv (st\<lparr>kmem := m'\<rparr>) g lo hi n"
    and "\<And>w. pmap (st\<lparr>kmem := m'\<rparr>) g w = (if unat (pml4_index w) = 511 then pmap st kroot w else None)"
    and "\<And>f. f \<noteq> g \<Longrightarrow> off_tree st kroot f \<Longrightarrow> off_tree (st\<lparr>kmem := m'\<rparr>) g f"
    and "pt_inv (st\<lparr>kmem := m'\<rparr>) kroot lo hi n"
proof -
  let ?E = "tabs (kmem st)" and ?E' = "tabs m'" and ?T = "table_frames st lo hi"
  have "a div 4096 = g" if "m' a \<noteq> kmem st a" for a
  proof -
    have "4096 * g \<le> a" "a < 4096 * Suc g" using that frame not_less by blast+
    then show ?thesis by (intro div_nat_eqI) simp_all
  qed
  then have d: "data_only st kroot lo hi m'" using g by (auto simp: data_only_def)
  note w = data_write [OF inv d]
  show kinv: "pt_inv (st\<lparr>kmem := m'\<rparr>) kroot lo hi n" by (rule w(1))
  have T: "table_frames (st\<lparr>kmem := m'\<rparr>) lo hi = ?T" by (simp add: table_frames_def)
  have kr: "kroot \<noteq> g" using g(2) by (auto simp: off_tree_def walk.simps valid_path_def dest!: spec [of _ "[]"])
  have walkg: "walk ?E' g p = (case p of [] \<Rightarrow> Some g | i # q \<Rightarrow> if i = 511 then walk ?E kroot p else None)"
    if p: "valid_path p" for p
  proof (cases p)
    case (Cons i q)
    have i: "i < 512" using p Cons by (simp add: valid_path_def)
    show ?thesis
    proof (cases "i = 511")
      case True
      have "walk ?E' g p = walk ?E' kroot p" using Cons True m' kr by (simp add: walk.simps)
      then show ?thesis using w(2) [OF p] Cons True by simp
    qed (use Cons i m' zero in \<open>simp add: walk.simps\<close>)
  qed (simp add: walk.simps)
  have t: "tree ?E kroot ?T" using inv by (simp add: pt_inv_def)
  have "tree ?E' g ?T"
    unfolding tree_def
  proof (intro conjI allI impI; elim conjE)
    fix p f assume p: "valid_path p" "walk ?E' g p = Some f"
    then show "f \<in> ?T" using walkg [OF p(1)] g(1) tree_in [OF t p(1)] by (auto split: list.splits if_splits)
  next
    fix p q f assume a: "valid_path p" "valid_path q" "walk ?E' g p = Some f" "walk ?E' g q = Some f"
    have no: "walk ?E kroot r \<noteq> Some g" if "valid_path r" for r using g(2) that by (auto simp: off_tree_def)
    show "p = q"
      using a(3,4) walkg [OF a(1)] walkg [OF a(2)] no [OF a(1)] no [OF a(2)] tree_inj [OF t a(1,2)]
      by (auto split: list.splits if_splits)
  qed
  then show "pt_inv (st\<lparr>kmem := m'\<rparr>) g lo hi n" using kinv by (simp add: pt_inv_def T)
  show "off_tree (st\<lparr>kmem := m'\<rparr>) g f" if "f \<noteq> g" "off_tree st kroot f" for f
    using that walkg by (auto simp: off_tree_def split: list.splits if_splits)
  show "pmap (st\<lparr>kmem := m'\<rparr>) g v = (if unat (pml4_index v) = 511 then pmap st kroot v else None)" for v
  proof (cases "unat (pml4_index v) = 511")
    case True
    then have "walk ?E' g (path_of v) = walk ?E' kroot (path_of v)"
      using walkg [OF valid_path_of(1) [of v]] w(2) [OF valid_path_of(1) [of v]] by (simp add: path_of_def)
    then have "pmap (st\<lparr>kmem := m'\<rparr>) g v = pmap (st\<lparr>kmem := m'\<rparr>) kroot v" by (simp add: pmap_def lookup_def)
    then show ?thesis using True w(3) by simp
  next
    case False
    then show ?thesis using walkg [OF valid_path_of(1) [of v]] by (simp add: path_of_def pmap_def lookup_def)
  qed
qed

section \<open>The new task\<close>

definition task_of :: "u64 \<Rightarrow> u64 \<Rightarrow> u64 \<Rightarrow> u64 \<Rightarrow> u64 \<Rightarrow> (nat \<Rightarrow> u8) \<Rightarrow> task_struct" where
  "task_of pcb pg us num par nm = zero_task\<lparr>mm := pcb + 32976, pid := num, ppid := par, tname := nm,
     t_pml4 := pg, t_cr3 := PADDR pg, ustack := us\<rparr>"

definition text_fun :: "u8 list \<Rightarrow> (nat \<Rightarrow> u8)" where
  "text_fun nm = (\<lambda>i. if i < length nm then nm ! i else 0)"

lemma copy_name_text:
  assumes "cstr m a nm"
  shows "copy_name (tname zero_task) m a (length nm) = text_fun nm"
  using cstr_nth [OF assms] by (auto simp: copy_name_def text_fun_def zero_task_def ld8_def fun_eq_iff)

lemma cstr_same: "cstr m a s \<Longrightarrow> same_on a (Suc (length s)) m' m \<Longrightarrow> cstr m' a s"
  by (auto simp: cstr_def holds_def same_on_def)

text \<open>The page-table root of the new task, after the two allocations.\<close>

lemma new_space_ok:
  assumes inv: "pt_inv (vkst (vm s)) kroot lo hi n" and ker: "ker_pml4_t (vm s) = VADDR (of_nat (4096 * kroot))"
    and g: "g \<in> table_frames (vkst (vm s)) lo hi" "off_tree (vkst (vm s)) kroot g"
    and zero: "same_on (4096 * g) 4096 (kmem_of s) (\<lambda>_. 0)"
  shows "\<exists>m'. new_space s (frame_ptr g) = set_kmem s m' \<and> pt_inv ((vkst (vm s))\<lparr>kmem := m'\<rparr>) g lo hi n \<and>
    same_on 0 (unat (free_list (vkst (vm s)))) m' (kmem_of s) \<and>
    (\<forall>w. pmap ((vkst (vm s))\<lparr>kmem := m'\<rparr>) g w = (if unat (pml4_index w) = 511 then pmap (vkst (vm s)) kroot w else None))"
proof -
  let ?st = "vkst (vm s)" and ?m = "clear_table (kmem_of s) (frame_ptr g)"
  have fl: "fl_inv ?st lo hi n" using inv by (simp add: pt_inv_def)
  have "g < hi" using g(1) fl_invD(3) [OF fl] by (simp add: table_frames_def)
  then have tg: "is_table (frame_ptr g) g" unfolding frame_ptr_def by (rule table_pointers(1) [OF fl])
  have "walk (tabs (kmem_of s)) kroot [] = Some kroot" by (simp add: walk.simps)
  then have tk: "is_table (ker_pml4_t (vm s)) kroot"
    unfolding ker by (intro reached_table [OF inv, of "[]"]) (simp_all add: valid_path_def)
  have z: "\<forall>j<512. tabs (kmem_of s) g j = 0"
  proof (intro allI impI)
    fix j :: nat assume "j < 512"
    then have "same_on (4096 * g + 8 * j) 8 (kmem_of s) (\<lambda>_. 0)" by (intro same_on_sub [OF zero]) auto
    then show "tabs (kmem_of s) g j = 0" by (simp add: tabs_def ld64_same [where m = "kmem_of s"] ld64_zero)
  qed
  note c = clear_table_zero [OF tg z]
  have e: "unat (511 :: u64) < 512" "unat (511 :: u64) = 511" by simp_all
  let ?e = "entry_at ?m (ker_pml4_t (vm s)) 511"
  have ke: "?e = tabs (kmem_of s) kroot 511"
    unfolding entry_at_tabs [OF tk e(1)] using c(1) e(2) by simp
  define m' where "m' = set_entry ?m (frame_ptr g) 511 ?e"
  have m1: "\<forall>h j. j < 512 \<longrightarrow> tabs m' h j = (if h = g \<and> j = 511 then tabs (kmem_of s) kroot 511 else tabs (kmem_of s) h j)"
    unfolding m'_def ke using tabs_set_entry [OF tg e(1)] c(1) e(2) by auto
  have m2: "\<forall>a. a < 4096 * g \<or> 4096 * Suc g \<le> a \<longrightarrow> m' a = kmem_of s a"
    unfolding m'_def using set_entry_frame [OF tg e(1)] c(2) by auto
  note r = shared_root [OF inv g z m1 m2]
  have "same_on 0 (unat (free_list ?st)) m' (kmem_of s)" using m2 g(1) by (auto simp: same_on_def table_frames_def)
  then show ?thesis
    using r(1,2) by (intro exI [of _ m']) (simp add: new_space_def Let_def m'_def)
qed

lemma new_task_ok:
  assumes inv: "pt_inv (vkst (vm s)) kroot lo hi n" and ker: "ker_pml4_t (vm s) = VADDR (of_nat (4096 * kroot))"
    and room: "lo + 14 \<le> hi" and par: "tasks s parent = Some p" and num: "int_ok (PID s + 1)"
    and nm: "cstr (kmem_of s) (loc fileptr) nm" "length nm \<le> 100" "loc fileptr + length nm < unat (free_list (vkst (vm s)))"
  defines "pcb \<equiv> frame_ptr (lo + 1)" and "us \<equiv> bumpPtr + of_nat (4096 * (lo + 10))"
  shows "\<exists>k lo'. new_task s parent fileptr = Some (s\<lparr>vm := (vm s)\<lparr>vkst := k\<rparr>, mms := (mms s)(pcb + 32976 \<mapsto> \<lparr>mm_count = 0, mm_mmap = 0\<rparr>),
        PID := PID s + 1, tasks := (tasks s)(pcb \<mapsto> task_of pcb (frame_ptr lo) us (of_int (PID s)) (pid p) (text_fun nm))\<rparr>, pcb) \<and>
    pt_inv k lo lo' hi n \<and> lo' \<le> lo + 14 \<and> free_list k = free_list (vkst (vm s)) \<and>
    same_on 0 (unat (free_list k)) (kmem k) (kmem_of s) \<and> (\<forall>i<4096. upage k lo lo' hi (us + of_nat i) (lo + 10))"
proof -
  let ?F = "unat (free_list (vkst (vm s)))"
  have fl: "fl_inv (vkst (vm s)) lo hi n" using inv by (simp add: pt_inv_def)
  have pages: "pages_for 24 = int 1" "pages_for 32976 = int 9" by (simp_all add: pages_for_def to_int_def)
  obtain k1 where k1: "ksys_kmalloc s 24 = Some (s\<lparr>vm := (vm s)\<lparr>vkst := k1\<rparr>\<rparr>, frame_ptr lo)" "fl_inv k1 (lo + 1) hi n"
      "frame_ptr lo \<noteq> 0" "alloc_post (vkst (vm s)) k1 lo 1 hi"
    using ksys_kmalloc_ok [OF fl pages(1)] room by auto
  let ?s1 = "s\<lparr>vm := (vm s)\<lparr>vkst := k1\<rparr>\<rparr>"
  obtain k2 where k2: "ksys_kmalloc ?s1 32976 = Some (?s1\<lparr>vm := (vm ?s1)\<lparr>vkst := k2\<rparr>\<rparr>, pcb)" "fl_inv k2 (lo + 1 + 9) hi n"
      "pcb \<noteq> 0" "alloc_post k1 k2 (lo + 1) 9 hi"
    using ksys_kmalloc_ok [of ?s1 "lo + 1" hi n 32976 9] k1(2) pages(2) room unfolding pcb_def by auto
  note a1 = pt_step_alloc [OF inv k1(2,4)]
  have i1: "pt_inv k1 kroot (lo + 1) hi n" using a1(1) by (simp add: pt_step_def)
  note a2 = pt_step_alloc [OF i1 k2(2,4)]
  have lo: "lo \<in> table_frames k1 (lo + 1) hi"
    using fl_invD(2) [OF fl] k1(4) by (simp add: table_frames_def alloc_post_def)
  have off: "off_tree k2 kroot lo" "same_on (4096 * lo) 4096 (kmem k2) (\<lambda>_. 0)"
    using a2(1) lo a1(3,4) [of lo] by (auto simp: pt_step_def same_on_def)
  have i2: "pt_inv k2 kroot (lo + 10) hi n" using a2(1) by (simp add: pt_step_def add.commute)
  have free: "free_list k2 = free_list (vkst (vm s))" using k1(4) k2(4) by (simp add: alloc_post_def)
  have lo2: "lo \<in> table_frames k2 (lo + 10) hi" using lo k2(4) by (simp add: table_frames_def alloc_post_def)
  have low: "same_on 0 ?F (kmem k2) (kmem_of s)"
    using a1(1) a2(1) k1(4) by (auto simp: pt_step_def same_on_def alloc_post_def)
  let ?s2 = "s\<lparr>vm := (vm s)\<lparr>vkst := k2\<rparr>, mms := (mms s)(pcb + 32976 \<mapsto> \<lparr>mm_count = 0, mm_mmap = 0\<rparr>), PID := PID s + 1\<rparr>"
  obtain m' where m': "new_space ?s2 (frame_ptr lo) = set_kmem ?s2 m'" "pt_inv (k2\<lparr>kmem := m'\<rparr>) lo (lo + 10) hi n"
      "same_on 0 (unat (free_list k2)) m' (kmem k2)"
    using new_space_ok [of ?s2 kroot "lo + 10" hi n lo] i2 ker lo2 off by auto
  obtain k lo' where k: "kmalloc_stack (k2\<lparr>kmem := m'\<rparr>) 1 (frame_ptr lo) = Some (k, us)" "lo' \<le> lo + 10 + 4"
      "pt_step (k2\<lparr>kmem := m'\<rparr>) k lo (lo + 10) lo' hi n" "\<forall>i<4096. upage k lo lo' hi (us + of_nat i) (lo + 10)"
    using kmalloc_stack_ok [OF m'(2)] room unfolding us_def frame_ptr_def by auto
  have "same_on (loc fileptr) (Suc (length nm)) (kmem k2) (kmem_of s)" using low nm(3) by (auto simp: same_on_def)
  then have c: "cstr (kmem k2) (loc fileptr) nm" by (rule cstr_same [OF nm(1)])
  have "new_task s parent fileptr = Some (s\<lparr>vm := (vm s)\<lparr>vkst := k\<rparr>, mms := (mms s)(pcb + 32976 \<mapsto> \<lparr>mm_count = 0, mm_mmap = 0\<rparr>),
        PID := PID s + 1, tasks := (tasks s)(pcb \<mapsto> task_of pcb (frame_ptr lo) us (of_int (PID s)) (pid p) (text_fun nm))\<rparr>, pcb)"
    using k1(1,3) k2(1,3) par num nm(2) m'(1) k(1) str_len_cstr [OF c] copy_name_text [OF c]
    by (simp add: new_task_def Let_def set_kmem_def task_of_def zero_task_def)
  moreover have "free_list k = free_list (vkst (vm s))" "same_on 0 ?F (kmem k) (kmem_of s)"
    using k(3) free m'(3) low by (auto simp: pt_step_def same_on_def)
  moreover have "pt_inv k lo lo' hi n" using k(3) by (simp add: pt_step_def)
  ultimately show ?thesis using k(2,4) by (intro exI [of _ k] exI [of _ lo']) simp
qed

section \<open>The user stack\<close>

lemma bytes_of_0: "bytes_of 0 = replicate 8 0"
  by (simp add: bytes_of_def map_replicate_const)

lemma clear_ustack_bytes: "clear_ustack m cr us i k = vst_bytes m cr (us + 8 * of_nat i) (replicate (8 * k) 0)"
proof (induction k arbitrary: m i)
  case (Suc k)
  have "vst_bytes m cr (us + 8 * of_nat i) (replicate (8 * Suc k) 0) =
      do { m \<leftarrow> vst_bytes m cr (us + 8 * of_nat i) (replicate 8 0); vst_bytes m cr (us + 8 * of_nat (Suc i)) (replicate (8 * k) 0) }"
    using vst_bytes_append [of m cr "us + 8 * of_nat i" "replicate 8 0" "replicate (8 * k) 0"]
    by (simp only: replicate_add [symmetric] length_replicate mult_Suc_right) (simp add: algebra_simps)
  then show ?case using Suc by (simp only: clear_ustack.simps vst64_def bytes_of_0)
qed simp

lemma clear_ustack_ok:
  assumes inv: "pt_inv k root lo hi n" and us: "us = bumpPtr + of_nat (4096 * f)" "low (4096 * f)"
    and u: "\<forall>i<4096. upage k root lo hi (us + of_nat i) f"
  shows "\<exists>m'. clear_ustack (kmem k) (of_nat (4096 * root)) us 0 512 = Some m' \<and> data_only k root lo hi m' \<and>
    uimage (k\<lparr>kmem := m'\<rparr>) root lo hi us (replicate 4096 0) \<and> same_on 0 (unat (free_list k)) m' (kmem k)"
proof -
  have "upos (us + of_nat i) f = 4096 * f + i" if i: "i < 4096" for i
    unfolding us(1) upos_def stack_addr(2) [OF us(2) i] using i by (simp del: distrib_left_numeral)
  then have inj: "inj_on (\<lambda>i. upos (us + of_nat i) f) {..<length (replicate 4096 (0 :: u8))}"
    by (auto simp: inj_on_def)
  have u': "\<forall>i<length (replicate 4096 (0 :: u8)). upage k root lo hi (us + of_nat i) f" using u by simp
  obtain m' where m': "vst_bytes (kmem k) (of_nat (4096 * root)) us (replicate 4096 0) = Some m'" "data_only k root lo hi m'"
    "\<forall>i<length (replicate 4096 (0 :: u8)). m' (upos (us + of_nat i) f) = replicate 4096 0 ! i"
    using vst_bytes_ok [OF inv u' inj] by blast
  have "clear_ustack (kmem k) (of_nat (4096 * root)) us 0 512 = Some m'"
    using m'(1) by (simp only: clear_ustack_bytes) (simp del: of_nat_mult)
  moreover have "uimage (k\<lparr>kmem := m'\<rparr>) root lo hi us (replicate 4096 0)"
    using u m'(3) unfolding uimage_def by (auto simp: upage_write(1) [OF inv m'(2)])
  moreover have "same_on 0 (unat (free_list k)) m' (kmem k)"
  proof -
    have "m' a = kmem k a" if "a < unat (free_list k)" for a
    proof (rule ccontr)
      assume "m' a \<noteq> kmem k a"
      then have "unat (free_list k) \<le> 4096 * (a div 4096)" using m'(2) by (auto simp: data_only_def table_frames_def)
      also have "\<dots> \<le> a" by simp
      finally show False using that by simp
    qed
    then show ?thesis by (simp add: same_on_def)
  qed
  ultimately show ?thesis using m'(2) by blast
qed

section \<open>One segment\<close>

definition seg_src :: "u64 \<Rightarrow> Elf64_Phdr \<Rightarrow> nat" where
  "seg_src elfhdr ph = loc (elfhdr + p_offset ph)"

text \<open>What a segment holds in memory: the bytes of the file, then zeros.\<close>

definition seg_bytes :: "mem \<Rightarrow> u64 \<Rightarrow> Elf64_Phdr \<Rightarrow> u8 list" where
  "seg_bytes m elfhdr ph =
     map m [seg_src elfhdr ph..<seg_src elfhdr ph + unat (p_filesz ph)] @ replicate (unat (p_memsz ph) - unat (p_filesz ph)) 0"

definition seg_ok :: "nat \<Rightarrow> u64 \<Rightarrow> Elf64_Phdr \<Rightarrow> bool" where
  "seg_ok F elfhdr ph \<longleftrightarrow> p_filesz ph \<le> p_memsz ph \<and> unat (p_memsz ph) < 2147483648 \<and>
     unat (p_vaddr ph) + unat (p_memsz ph) + 4096 < 2 ^ 47 \<and> seg_src elfhdr ph + unat (p_filesz ph) \<le> F"

definition seg_pages :: "Elf64_Phdr \<Rightarrow> nat" where
  "seg_pages ph = region_pages (p_vaddr ph) (p_memsz ph)"

definition in_seg :: "Elf64_Phdr \<Rightarrow> u64 \<Rightarrow> bool" where
  "in_seg ph w \<longleftrightarrow> unat (p_vaddr ph) div 4096 \<le> pgno w \<and> pgno w < unat (p_vaddr ph) div 4096 + seg_pages ph"

lemma length_seg_bytes [simp]:
  "p_filesz ph \<le> p_memsz ph \<Longrightarrow> length (seg_bytes m elfhdr ph) = unat (p_memsz ph)"
  by (simp add: seg_bytes_def word_le_nat_alt)

lemma seg_bytes_same:
  assumes "same_on 0 F m' m" and "seg_ok F elfhdr ph"
  shows "seg_bytes m' elfhdr ph = seg_bytes m elfhdr ph"
  using assms by (auto simp: seg_bytes_def same_on_def seg_ok_def)

lemma segment_data:
  assumes inv: "pt_inv k root lo hi n" and ok: "seg_ok (unat (free_list k)) elfhdr ph" and room: "lo + 4 * seg_pages ph \<le> hi"
  defines "cr \<equiv> of_nat (4096 * root)"
  shows "\<exists>k1 m1 m2 lo'. region_alloc k (frame_ptr root) (p_vaddr ph) (p_memsz ph) = Some k1 \<and>
    vcopy (kmem k1) cr (p_vaddr ph) (seg_src elfhdr ph) (unat (p_filesz ph)) = Some m1 \<and>
    (if p_filesz ph < p_memsz ph then vset m1 cr (p_vaddr ph + p_filesz ph) 0 (unat (p_memsz ph - p_filesz ph)) else Some m1) = Some m2 \<and>
    lo' \<le> lo + 4 * seg_pages ph \<and> pt_step k (k1\<lparr>kmem := m2\<rparr>) root lo lo' hi n \<and>
    uimage (k1\<lparr>kmem := m2\<rparr>) root lo' hi (p_vaddr ph) (seg_bytes (kmem k) elfhdr ph) \<and>
    (\<forall>i<unat (p_memsz ph). \<forall>g. upage (k1\<lparr>kmem := m2\<rparr>) root lo' hi (p_vaddr ph + of_nat i) g \<longrightarrow>
       lo \<le> g \<and> (g = lo \<longleftrightarrow> i < 4096 - unat (p_vaddr ph) mod 4096)) \<and>
    (\<forall>w. \<not> in_seg ph w \<longrightarrow> pmap (k1\<lparr>kmem := m2\<rparr>) root w = pmap k root w)"
proof -
  let ?va = "p_vaddr ph" and ?f = "unat (p_filesz ph)" and ?m = "unat (p_memsz ph)" and ?bs = "seg_bytes (kmem k) elfhdr ph"
  note S = ok [unfolded seg_ok_def]
  have le: "p_filesz ph \<le> p_memsz ph" "?f \<le> ?m" using S by (auto simp: word_le_nat_alt)
  have len: "length ?bs = ?m" using le by simp
  obtain k1 lo' m2 where r: "region_alloc k (frame_ptr root) ?va (p_memsz ph) = Some k1" "lo' \<le> lo + 4 * seg_pages ph"
    "pt_inv k1 root lo' hi n" "free_list k1 = free_list k" "same_on 0 (unat (free_list k)) (kmem k1) (kmem k)"
    "\<forall>i<?m. \<exists>g. upage k1 root lo' hi (?va + of_nat i) g" "vst_bytes (kmem k1) cr ?va ?bs = Some m2"
    "pt_step k (k1\<lparr>kmem := m2\<rparr>) root lo lo' hi n" "uimage (k1\<lparr>kmem := m2\<rparr>) root lo' hi ?va ?bs"
    "\<forall>i<?m. \<forall>g. upage (k1\<lparr>kmem := m2\<rparr>) root lo' hi (?va + of_nat i) g \<longrightarrow>
       lo \<le> g \<and> (g = lo \<longleftrightarrow> i < 4096 - unat ?va mod 4096)"
    "\<forall>w. \<not> in_seg ph w \<longrightarrow> pmap (k1\<lparr>kmem := m2\<rparr>) root w = pmap k root w"
    using region_fill [OF inv, of ?va "p_memsz ph" ?bs] S room len
    unfolding seg_pages_def frame_ptr_def in_seg_def cr_def by (elim impE exE conjE) auto
  obtain g where g: "\<forall>i<?m. upage k1 root lo' hi (?va + of_nat i) (g i)" using r(6) by metis
  have src: "seg_src elfhdr ph + ?f \<le> unat (free_list k1)" using S r(4) by simp
  have same: "map (kmem k1) [seg_src elfhdr ph..<seg_src elfhdr ph + ?f] = map (kmem k) [seg_src elfhdr ph..<seg_src elfhdr ph + ?f]"
    using r(5) S by (auto simp: same_on_def)
  have u: "\<forall>i<?f. upage k1 root lo' hi (?va + of_nat i) (g i)" using g le(2) by simp
  have copy: "vcopy (kmem k1) cr ?va (seg_src elfhdr ph) ?f =
      vst_bytes (kmem k1) cr ?va (map (kmem k) [seg_src elfhdr ph..<seg_src elfhdr ph + ?f])"
    unfolding same [symmetric] cr_def by (rule vcopy_bytes [OF r(3) u src])
  have split: "vst_bytes (kmem k1) cr ?va ?bs =
      do { m \<leftarrow> vcopy (kmem k1) cr ?va (seg_src elfhdr ph) ?f; vset m cr (?va + p_filesz ph) 0 (?m - ?f) }"
    unfolding copy vset_bytes seg_bytes_def vst_bytes_append by simp
  obtain m1 where m1: "vcopy (kmem k1) cr ?va (seg_src elfhdr ph) ?f = Some m1" "vset m1 cr (?va + p_filesz ph) 0 (?m - ?f) = Some m2"
    using r(7) unfolding split bind_eq_Some_conv by blast
  have "unat (p_memsz ph - p_filesz ph) = ?m - ?f" using le(1) by (rule unat_sub)
  moreover have "?m - ?f = 0" if "\<not> p_filesz ph < p_memsz ph" using that by (simp add: word_less_nat_alt)
  ultimately have "(if p_filesz ph < p_memsz ph then vset m1 cr (?va + p_filesz ph) 0 (unat (p_memsz ph - p_filesz ph)) else Some m1) = Some m2"
    using m1(2) by auto
  then show ?thesis using r m1(1) by blast
qed

section \<open>Memory areas of a segment\<close>

definition seg_vma :: "u64 \<Rightarrow> Elf64_Phdr \<Rightarrow> vm_area_struct" where
  "seg_vma elfhdr ph =
     \<lparr>vm_mm = 0, vm_start = p_vaddr ph, vm_end = p_vaddr ph + p_memsz ph, vm_file = elfhdr, vm_pgoff = p_offset ph,
      vm_flags = ucast (p_flags ph), vm_mmsz = p_memsz ph, vm_next = 0\<rparr>"

lemma set_vma_frame: "a < loc p + 8 \<or> loc p + 64 \<le> a \<Longrightarrow> set_vma m p v a = m a"
  by (auto simp: set_vma_def Let_def cell64.st_frame)

lemma vma_at_set: "vma_at (set_vma m p v) p = v\<lparr>vm_mm := ld64 m (loc p)\<rparr>"
  by (simp add: vma_at_def set_vma_def Let_def mem_simps)

lemma set_vma_data:
  assumes "f \<in> table_frames k lo hi" and "off_tree k root f" and "loc p = 4096 * f"
  shows "data_only k root lo hi (set_vma (kmem k) p v)" and "\<And>a. a < 4096 * f \<Longrightarrow> set_vma (kmem k) p v a = kmem k a"
proof -
  have "a div 4096 = f" if "set_vma (kmem k) p v a \<noteq> kmem k a" for a
  proof -
    have "4096 * f + 8 \<le> a" "a < 4096 * f + 64" using that set_vma_frame [of a p "kmem k" v] assms(3) not_le by auto
    then show ?thesis by (intro div_nat_eqI) simp_all
  qed
  then show "data_only k root lo hi (set_vma (kmem k) p v)" using assms(1,2) by (auto simp: data_only_def)
  show "\<And>a. a < 4096 * f \<Longrightarrow> set_vma (kmem k) p v a = kmem k a" using set_vma_frame assms(3) by auto
qed

lemma load_segment_run:
  assumes ok: "seg_ok F elfhdr ph" and cr: "cr3 (vm s) = cr" and t: "tasks s pcb = Some t" "t_pml4 t = pg"
    and d: "region_alloc (vkst (vm s)) pg (p_vaddr ph) (p_memsz ph) = Some k1"
      "vcopy (kmem k1) cr (p_vaddr ph) (seg_src elfhdr ph) (unat (p_filesz ph)) = Some m1"
      "(if p_filesz ph < p_memsz ph then vset m1 cr (p_vaddr ph + p_filesz ph) 0 (unat (p_memsz ph - p_filesz ph)) else Some m1) = Some m2"
    and v: "vma_malloc (s\<lparr>vm := (vm s)\<lparr>vkst := k1\<lparr>kmem := m2\<rparr>\<rparr>\<rparr>) (mm t) = Some (s3, vma)"
  shows "load_segment s elfhdr pcb ph = Some (set_kmem s3 (set_vma (kmem_of s3) vma (seg_vma elfhdr ph)))"
proof -
  have sz: "c_size (p_filesz ph) = Some (unat (p_filesz ph))"
      "p_filesz ph < p_memsz ph \<Longrightarrow> c_size (p_memsz ph - p_filesz ph) = Some (unat (p_memsz ph - p_filesz ph))"
    using ok by (auto simp: c_size_def seg_ok_def word_le_nat_alt unat_sub)
  have nw: "\<not> p_memsz ph < p_filesz ph" using ok by (auto simp: seg_ok_def)
  show ?thesis
  proof (cases "p_filesz ph < p_memsz ph")
    case True
    then show ?thesis using assms sz nw by (simp add: load_segment_def seg_src_def [symmetric] seg_vma_def)
  next
    case False
    then show ?thesis using assms sz nw by (simp add: load_segment_def seg_src_def [symmetric] seg_vma_def)
  qed
qed

text \<open>The first segment of a task: its memory area is in a page of its own.\<close>

lemma load_segment_first:
  assumes inv: "pt_inv (vkst (vm s)) root lo hi n" and ok: "seg_ok (unat (free_list (vkst (vm s)))) elfhdr ph"
    and room: "lo + 4 * seg_pages ph + 1 \<le> hi" and cr: "cr3 (vm s) = of_nat (4096 * root)"
    and t: "tasks s pcb = Some t" "t_pml4 t = frame_ptr root" "mms s (mm t) = Some r" "mm_mmap r = 0"
  shows "\<exists>k' f. load_segment s elfhdr pcb ph = Some (s\<lparr>vm := (vm s)\<lparr>vkst := k'\<rparr>,
      mms := (mms s)(mm t \<mapsto> r\<lparr>mm_mmap := frame_ptr f, mm_count := mm_count r + 1\<rparr>)\<rparr>) \<and>
    lo \<le> f \<and> f \<le> lo + 4 * seg_pages ph \<and> pt_inv k' root (Suc f) hi n \<and> keeps (vkst (vm s)) k' root lo hi \<and>
    uimage k' root f hi (p_vaddr ph) (seg_bytes (kmem_of s) elfhdr ph) \<and>
    (\<forall>w. \<not> in_seg ph w \<longrightarrow> pmap k' root w = pmap (vkst (vm s)) root w) \<and>
    off_tree k' root f \<and> f \<in> table_frames k' (Suc f) hi \<and> frame_ptr f \<noteq> 0 \<and> vma_at (kmem k') (frame_ptr f) = seg_vma elfhdr ph"
proof -
  let ?k = "vkst (vm s)"
  have room': "lo + 4 * seg_pages ph \<le> hi" using room by simp
  obtain k1 m1 m2 f where d: "region_alloc ?k (frame_ptr root) (p_vaddr ph) (p_memsz ph) = Some k1"
    "vcopy (kmem k1) (of_nat (4096 * root)) (p_vaddr ph) (seg_src elfhdr ph) (unat (p_filesz ph)) = Some m1"
    "(if p_filesz ph < p_memsz ph then vset m1 (of_nat (4096 * root)) (p_vaddr ph + p_filesz ph) 0 (unat (p_memsz ph - p_filesz ph)) else Some m1) = Some m2"
    "f \<le> lo + 4 * seg_pages ph" "pt_step ?k (k1\<lparr>kmem := m2\<rparr>) root lo f hi n"
    "uimage (k1\<lparr>kmem := m2\<rparr>) root f hi (p_vaddr ph) (seg_bytes (kmem_of s) elfhdr ph)"
    "\<forall>w. \<not> in_seg ph w \<longrightarrow> pmap (k1\<lparr>kmem := m2\<rparr>) root w = pmap ?k root w"
    using segment_data [OF inv ok room'] by (elim exE conjE) (rule that)
  let ?k2 = "k1\<lparr>kmem := m2\<rparr>"
  let ?s2 = "s\<lparr>vm := (vm s)\<lparr>vkst := ?k2\<rparr>\<rparr>"
  have inv2: "pt_inv ?k2 root f hi n" "lo \<le> f" "keeps ?k ?k2 root lo hi" using d(5) by (auto simp: pt_step_keeps)
  have fl2: "fl_inv ?k2 f hi n" using inv2(1) by (simp add: pt_inv_def)
  have f: "f < hi" using d(4) room by simp
  obtain k3 where k3: "vma_malloc ?s2 (mm t) = Some (?s2\<lparr>vm := (vm ?s2)\<lparr>vkst := k3\<rparr>,
      mms := (mms ?s2)(mm t \<mapsto> r\<lparr>mm_mmap := frame_ptr f, mm_count := mm_count r + 1\<rparr>)\<rparr>, frame_ptr f)"
      "fl_inv k3 (Suc f) hi n" "frame_ptr f \<noteq> 0" "alloc_post ?k2 k3 f 1 hi"
    using vma_malloc_first [of ?s2 f hi n "mm t" r] fl2 f t(3,4) by auto
  note a = pt_step_alloc [OF inv2(1) k3(2) [unfolded Suc_eq_plus1] k3(4)]
  have inv3: "pt_inv k3 root (Suc f) hi n" "keeps ?k2 k3 root f hi" using a(1) by (auto simp: pt_step_keeps)
  have T: "f \<in> table_frames k3 (Suc f) hi" "off_tree k3 root f"
    using fl_invD(2) [OF fl2] k3(4) a(3) [of f] by (auto simp: table_frames_def alloc_post_def)
  have l: "loc (frame_ptr f) = 4096 * f" by (rule frame_ptr_loc [OF fl2 f])
  let ?m = "set_vma (kmem k3) (frame_ptr f) (seg_vma elfhdr ph)"
  let ?k' = "k3\<lparr>kmem := ?m\<rparr>"
  note w = set_vma_data [OF T l, where v = "seg_vma elfhdr ph"]
  note dw = data_write [OF inv3(1) w(1)]
  have "unat (free_list k3) \<le> 4096 * f" using T(1) by (simp add: table_frames_def)
  then have k23: "keeps ?k2 ?k' root f hi"
    using keeps_trans [OF inv3(2) keeps_write [OF inv3(1) w(1)]] w(2) by blast
  have pm: "pmap ?k' root v = pmap ?k2 root v" for v using dw(3) a(2) by simp
  have "load_segment s elfhdr pcb ph = Some (s\<lparr>vm := (vm s)\<lparr>vkst := ?k'\<rparr>,
      mms := (mms s)(mm t \<mapsto> r\<lparr>mm_mmap := frame_ptr f, mm_count := mm_count r + 1\<rparr>)\<rparr>)"
    using load_segment_run [OF ok cr t(1,2) d(1-3) k3(1)] by (simp add: set_kmem_def)
  moreover have "uimage ?k' root f hi (p_vaddr ph) (seg_bytes (kmem_of s) elfhdr ph)"
    by (rule uimage_keeps [OF k23 d(6)]) (simp add: pm)
  moreover have "keeps ?k ?k' root lo hi"
    by (rule keeps_trans [OF inv2(3) keeps_mono [OF k23 inv2(2)]])
  moreover have "vma_at ?m (frame_ptr f) = seg_vma elfhdr ph"
  proof -
    have "same_on (4096 * f) 8 (kmem k3) (\<lambda>_. 0)" using a(4) [of f] by (auto simp: same_on_def)
    then show ?thesis by (simp add: vma_at_set l ld64_same [where m = "kmem k3"] ld64_zero seg_vma_def)
  qed
  moreover have "f \<in> table_frames ?k' (Suc f) hi" using T(1) by (simp add: table_frames_def)
  ultimately show ?thesis
    using d(4,7) inv2(2) dw(1,4) pm T(2) k3(3) by (intro exI [of _ ?k'] exI [of _ f]) simp
qed

text \<open>
  The second segment: its memory area lies in the page behind the first area, which is the first
  page that was just allocated for the segment. The data survives when it starts behind the 64
  bytes of the area.
\<close>

lemma load_segment_second:
  assumes inv: "pt_inv (vkst (vm s)) root (Suc f) hi n" and ok: "seg_ok (unat (free_list (vkst (vm s)))) elfhdr ph"
    and room: "Suc f + 4 * seg_pages ph \<le> hi" and cr: "cr3 (vm s) = of_nat (4096 * root)"
    and t: "tasks s pcb = Some t" "t_pml4 t = frame_ptr root" "mms s (mm t) = Some r" "mm_mmap r = frame_ptr f"
    and f: "off_tree (vkst (vm s)) root f" "f \<in> table_frames (vkst (vm s)) (Suc f) hi" "frame_ptr f \<noteq> 0"
      "vm_next (vma_at (kmem_of s) (frame_ptr f)) = 0"
    and seg: "64 \<le> unat (p_vaddr ph) mod 4096" "p_memsz ph \<noteq> 0"
  shows "\<exists>k' lo'. load_segment s elfhdr pcb ph = Some (s\<lparr>vm := (vm s)\<lparr>vkst := k'\<rparr>,
      mms := (mms s)(mm t \<mapsto> r\<lparr>mm_count := mm_count r + 1\<rparr>)\<rparr>) \<and>
    Suc f \<le> lo' \<and> lo' \<le> Suc f + 4 * seg_pages ph \<and> pt_inv k' root lo' hi n \<and> keeps (vkst (vm s)) k' root f hi \<and>
    uimage k' root lo' hi (p_vaddr ph) (seg_bytes (kmem_of s) elfhdr ph) \<and>
    (\<forall>w. \<not> in_seg ph w \<longrightarrow> pmap k' root w = pmap (vkst (vm s)) root w)"
proof -
  let ?k = "vkst (vm s)" and ?va = "p_vaddr ph"
  obtain k1 m1 m2 lo' where d: "region_alloc ?k (frame_ptr root) ?va (p_memsz ph) = Some k1"
    "vcopy (kmem k1) (of_nat (4096 * root)) ?va (seg_src elfhdr ph) (unat (p_filesz ph)) = Some m1"
    "(if p_filesz ph < p_memsz ph then vset m1 (of_nat (4096 * root)) (?va + p_filesz ph) 0 (unat (p_memsz ph - p_filesz ph)) else Some m1) = Some m2"
    "pt_step ?k (k1\<lparr>kmem := m2\<rparr>) root (Suc f) lo' hi n"
    "uimage (k1\<lparr>kmem := m2\<rparr>) root lo' hi ?va (seg_bytes (kmem_of s) elfhdr ph)"
    "\<forall>i<unat (p_memsz ph). \<forall>g. upage (k1\<lparr>kmem := m2\<rparr>) root lo' hi (?va + of_nat i) g \<longrightarrow>
       Suc f \<le> g \<and> (g = Suc f \<longleftrightarrow> i < 4096 - unat ?va mod 4096)"
    "\<forall>w. \<not> in_seg ph w \<longrightarrow> pmap (k1\<lparr>kmem := m2\<rparr>) root w = pmap ?k root w" "lo' \<le> Suc f + 4 * seg_pages ph"
    using segment_data [OF inv ok room] by (elim exE conjE) (rule that)
  let ?k2 = "k1\<lparr>kmem := m2\<rparr>"
  let ?s2 = "s\<lparr>vm := (vm s)\<lparr>vkst := ?k2\<rparr>\<rparr>"
  have inv2: "pt_inv ?k2 root lo' hi n" "Suc f \<le> lo'" "keeps ?k ?k2 root (Suc f) hi" using d(4) by (auto simp: pt_step_keeps)
  have fl2: "fl_inv ?k2 lo' hi n" using inv2(1) by (simp add: pt_inv_def)
  have free: "free_list ?k2 = free_list ?k" using inv2(3) by (simp add: keeps_def)
  have len: "length (seg_bytes (kmem_of s) elfhdr ph) = unat (p_memsz ph)" using ok by (simp add: seg_ok_def)
  have pos: "0 < unat (p_memsz ph)" using seg(2) unat_gt_0 [of "p_memsz ph"] by blast
  then obtain g where g: "upage ?k2 root lo' hi (?va + of_nat 0) g" using d(5) unfolding uimage_def len by blast
  then have "g = Suc f" using d(6) [rule_format, OF pos g] by simp
  with g have "upage ?k2 root lo' hi (?va + of_nat 0) (Suc f)" by simp
  then have S: "Suc f \<in> table_frames ?k2 lo' hi" "off_tree ?k2 root (Suc f)" by (auto simp: upage_def)
  have F: "f \<in> table_frames ?k2 lo' hi" "off_tree ?k2 root f" "same_on (4096 * f) 4096 m2 (kmem_of s)"
    using f(1,2) inv2 free by (auto simp: keeps_def table_frames_def)
  have lt: "f < lo'" "f < hi" "Suc f < hi" using S(1) fl_invD(3) [OF fl2] by (auto simp: table_frames_def)
  note l = frame_ptr_loc [OF fl2 lt(2)] frame_ptr_loc [OF fl2 lt(3)]
  have "ld64 m2 (4096 * f + 56) = ld64 (kmem_of s) (4096 * f + 56)"
    by (rule ld64_same, rule same_on_sub [OF F(3)]) simp_all
  then have nx: "vm_next (vma_at m2 (frame_ptr f)) = 0" using f(4) by (simp add: vma_at_def Let_def l)
  let ?m3 = "st64 m2 (4096 * f + 56) (frame_ptr (Suc f))"
  let ?s3 = "(set_kmem ?s2 ?m3)\<lparr>mms := (mms s)(mm t \<mapsto> r\<lparr>mm_count := mm_count r + 1\<rparr>)\<rparr>"
  have v: "vma_malloc ?s2 (mm t) = Some (?s3, frame_ptr (Suc f))"
    using vma_malloc_next [of ?s2 lo' hi n f "mm t" r] fl2 lt(1) F(1) t(3,4) f(3) nx by (simp add: table_frames_def)
  have d3: "data_only ?k2 root lo' hi ?m3" "\<And>a. a < 4096 * f \<Longrightarrow> ?m3 a = m2 a" "\<And>a. a div 4096 \<noteq> f \<Longrightarrow> ?m3 a = m2 a"
  proof -
    have "a div 4096 = f" if "?m3 a \<noteq> m2 a" for a
    proof -
      have "\<not> (a < 4096 * f + 56 \<or> 4096 * f + 56 + 8 \<le> a)" using that cell64.st_frame by blast
      then have "4096 * f + 56 \<le> a" "a < 4096 * f + 64" by simp_all
      then show ?thesis by (intro div_nat_eqI) simp_all
    qed
    then show "data_only ?k2 root lo' hi ?m3" "\<And>a. a div 4096 \<noteq> f \<Longrightarrow> ?m3 a = m2 a"
      using F(1,2) by (auto simp: data_only_def)
    show "\<And>a. a < 4096 * f \<Longrightarrow> ?m3 a = m2 a" by (rule cell64.st_frame) simp
  qed
  let ?k3 = "k1\<lparr>kmem := ?m3\<rparr>"
  note w3 = data_write [OF inv2(1) d3(1), simplified]
  have S3: "Suc f \<in> table_frames ?k3 lo' hi" "off_tree ?k3 root (Suc f)"
    using S w3(4) by (simp_all add: table_frames_def)
  let ?m4 = "set_vma ?m3 (frame_ptr (Suc f)) (seg_vma elfhdr ph)"
  let ?k' = "k1\<lparr>kmem := ?m4\<rparr>"
  note d4 = set_vma_data [OF S3 l(2), where v = "seg_vma elfhdr ph", simplified]
  note w4 = data_write [OF w3(1) d4(1), simplified]
  have "load_segment s elfhdr pcb ph = Some (s\<lparr>vm := (vm s)\<lparr>vkst := ?k'\<rparr>,
      mms := (mms s)(mm t \<mapsto> r\<lparr>mm_count := mm_count r + 1\<rparr>)\<rparr>)"
    using load_segment_run [OF ok cr t(1,2) d(1-3) v] by (simp add: set_kmem_def)
  moreover have "keeps ?k ?k' root f hi"
  proof -
    have F': "unat (free_list ?k2) \<le> 4096 * f" using F(1) by (simp add: table_frames_def)
    have "keeps ?k2 ?k3 root f hi" using keeps_write [OF inv2(1) d3(1)] d3(2) F' by simp
    moreover have "keeps ?k3 ?k' root f hi" using keeps_write [OF w3(1) d4(1), of f] d4(2) F' by simp
    ultimately show ?thesis using keeps_trans keeps_mono [OF inv2(3), of f] by (meson le_SucI order_refl)
  qed
  moreover have "uimage ?k' root lo' hi ?va (seg_bytes (kmem_of s) elfhdr ph)"
  proof -
    have u: "upos (?va + of_nat i) g div 4096 = g" for i g by (simp add: upos_def)
    have "uimage (?k2\<lparr>kmem := ?m3\<rparr>) root lo' hi ?va (seg_bytes (kmem_of s) elfhdr ph)"
    proof (rule uimage_write [OF inv2(1) d3(1) d(5)])
      fix i g assume i: "i < length (seg_bytes (kmem_of s) elfhdr ph)" and g: "upage ?k2 root lo' hi (?va + of_nat i) g"
      have "Suc f \<le> g" using d(6) i g unfolding len by blast
      then have "upos (?va + of_nat i) g div 4096 \<noteq> f" unfolding u by simp
      from d3(3) [OF this] show "?m3 (upos (?va + of_nat i) g) = kmem ?k2 (upos (?va + of_nat i) g)" by simp
    qed
    then have i3: "uimage ?k3 root lo' hi ?va (seg_bytes (kmem_of s) elfhdr ph)" by simp
    have "uimage (?k3\<lparr>kmem := ?m4\<rparr>) root lo' hi ?va (seg_bytes (kmem_of s) elfhdr ph)"
    proof (rule uimage_write [OF w3(1) _ i3])
      show "data_only ?k3 root lo' hi ?m4" by (rule d4(1))
      fix i g assume i: "i < length (seg_bytes (kmem_of s) elfhdr ph)" and g: "upage ?k3 root lo' hi (?va + of_nat i) g"
      have "upage ?k2 root lo' hi (?va + of_nat i) g" using g upage_write(1) [OF inv2(1) d3(1), of "?va + of_nat i" g] by simp
      then have h: "Suc f \<le> g" "g = Suc f \<longleftrightarrow> i < 4096 - unat ?va mod 4096" using d(6) i unfolding len by blast+
      have "4096 * Suc f + 64 \<le> upos (?va + of_nat i) g"
      proof (cases "g = Suc f")
        case True
        have "unat (?va + of_nat i) = unat ?va + i" using i ok unfolding len by (intro unat_add_index) (simp add: seg_ok_def)
        moreover have "(unat ?va + i) mod 4096 = unat ?va mod 4096 + i"
          using h(2) True by (metis add.commute less_diff_conv mod_add_left_eq mod_less)
        ultimately show ?thesis using True seg(1) by (simp add: upos_def)
      next
        case False
        then have "Suc (Suc f) \<le> g" using h(1) by simp
        then show ?thesis by (simp add: upos_def)
      qed
      then show "?m4 (upos (?va + of_nat i) g) = kmem ?k3 (upos (?va + of_nat i) g)"
        by (simp add: set_vma_frame l(2))
    qed
    then show ?thesis by simp
  qed
  moreover have "pmap ?k' root w = pmap ?k root w" if "\<not> in_seg ph w" for w using d(7) that w3(3) w4(3) by simp
  ultimately show ?thesis using inv2(2) w4(1) d(8) by (intro exI [of _ ?k'] exI [of _ lo']) simp
qed

section \<open>All segments\<close>

text \<open>The program headers in memory, all below \<open>F\<close>, and those that are loaded.\<close>

fun hdrs :: "mem \<Rightarrow> nat \<Rightarrow> u64 \<Rightarrow> Elf64_Phdr list \<Rightarrow> bool" where
  "hdrs m F phdr [] \<longleftrightarrow> True"
| "hdrs m F phdr (ph # phs) \<longleftrightarrow> phdr_at m (loc phdr) = ph \<and> loc phdr + 56 \<le> F \<and> hdrs m F (phdr + 56) phs"

definition loads :: "Elf64_Phdr list \<Rightarrow> Elf64_Phdr list" where
  "loads phs = filter (\<lambda>ph. p_type ph = 1) phs"

lemma loads_simps [simp]:
  "loads [] = []" "p_type ph = 1 \<Longrightarrow> loads (ph # phs) = ph # loads phs" "p_type ph \<noteq> 1 \<Longrightarrow> loads (ph # phs) = loads phs"
  by (simp_all add: loads_def)

lemma phdr_same: "same_on 0 F m' m \<Longrightarrow> a + 56 \<le> F \<Longrightarrow> phdr_at m' a = phdr_at m a"
proof -
  assume a: "same_on 0 F m' m" "a + 56 \<le> F"
  have "ld64 m' (a + i) = ld64 m (a + i)" if "i \<le> 48" for i
    by (rule ld64_same, rule same_on_sub [OF a(1)]) (use a(2) that in auto)
  moreover have "ld32 m' (a + i) = ld32 m (a + i)" if "i \<le> 4" for i
    by (rule ld32_same, rule same_on_sub [OF a(1)]) (use a(2) that in auto)
  from this [of 0] this [of 4] calculation show ?thesis by (simp add: phdr_at_def)
qed

lemma hdrs_same: "same_on 0 F m' m \<Longrightarrow> hdrs m F phdr phs \<Longrightarrow> hdrs m' F phdr phs"
  by (induction phs arbitrary: phdr) (auto simp: phdr_same)

text \<open>Segments that share no page.\<close>

definition seg_apart :: "Elf64_Phdr \<Rightarrow> Elf64_Phdr \<Rightarrow> bool" where
  "seg_apart p q \<longleftrightarrow> unat (p_vaddr p) div 4096 + seg_pages p \<le> unat (p_vaddr q) div 4096 \<or>
     unat (p_vaddr q) div 4096 + seg_pages q \<le> unat (p_vaddr p) div 4096"

lemma seg_apartD: "seg_apart p q \<Longrightarrow> in_seg p w \<Longrightarrow> \<not> in_seg q w"
  by (auto simp: seg_apart_def in_seg_def)

lemma in_seg_addr:
  assumes "seg_ok F elfhdr ph" and "i < unat (p_memsz ph)"
  shows "in_seg ph (p_vaddr ph + of_nat i)"
proof -
  have fit: "unat (p_vaddr ph) + unat (p_memsz ph) + 4096 < 2 ^ 48" using assms(1) by (simp add: seg_ok_def)
  have "unat (p_vaddr ph + of_nat i) = unat (p_vaddr ph) + i" using fit assms(2) by (intro unat_add_index) simp
  then show ?thesis
    using region_covers [OF fit, of "p_vaddr ph + of_nat i"] assms(2)
    unfolding region_bounds(3) [OF fit] by (simp add: in_seg_def seg_pages_def)
qed

definition second_ok :: "Elf64_Phdr \<Rightarrow> bool" where
  "second_ok ph \<longleftrightarrow> 64 \<le> unat (p_vaddr ph) mod 4096 \<and> p_memsz ph \<noteq> 0"

text \<open>What the theorems ask of the loaded segments of a program.\<close>

fun segs_ok :: "nat \<Rightarrow> u64 \<Rightarrow> Elf64_Phdr list \<Rightarrow> bool" where
  "segs_ok F elfhdr [] \<longleftrightarrow> True"
| "segs_ok F elfhdr [p] \<longleftrightarrow> seg_ok F elfhdr p"
| "segs_ok F elfhdr [p, q] \<longleftrightarrow> seg_ok F elfhdr p \<and> seg_ok F elfhdr q \<and> second_ok q \<and> seg_apart p q"
| "segs_ok F elfhdr _ \<longleftrightarrow> False"

definition segs_room :: "Elf64_Phdr list \<Rightarrow> nat" where
  "segs_room ls = sum_list (map (\<lambda>ph. 4 * seg_pages ph + 1) ls)"

text \<open>The state and the memory after loading.\<close>

definition segs_loaded :: "mem \<Rightarrow> kst \<Rightarrow> kst \<Rightarrow> nat \<Rightarrow> nat \<Rightarrow> nat \<Rightarrow> u64 \<Rightarrow> Elf64_Phdr list \<Rightarrow> bool" where
  "segs_loaded m k k' root lo' hi elfhdr ls \<longleftrightarrow>
     (\<forall>ph\<in>set ls. uimage k' root lo' hi (p_vaddr ph) (seg_bytes m elfhdr ph)) \<and>
     (\<forall>w. (\<forall>ph\<in>set ls. \<not> in_seg ph w) \<longrightarrow> pmap k' root w = pmap k root w)"

lemma load_segments_none:
  "hdrs (kmem_of s) F phdr phs \<Longrightarrow> loads phs = [] \<Longrightarrow> load_segments s elfhdr pcb phdr (length phs) = Some s"
proof (induction phs arbitrary: phdr)
  case (Cons ph phs)
  then show ?case by (cases "p_type ph = 1") auto
qed simp

lemma load_segments_second:
  assumes "hdrs (kmem_of s) (unat (free_list (vkst (vm s)))) phdr phs" and "loads phs = [] \<or> loads phs = [q]"
    and "pt_inv (vkst (vm s)) root (Suc f) hi n" and "cr3 (vm s) = of_nat (4096 * root)"
    and "tasks s pcb = Some t" and "t_pml4 t = frame_ptr root" and "mms s (mm t) = Some r" and "mm_mmap r = frame_ptr f"
    and "off_tree (vkst (vm s)) root f" and "f \<in> table_frames (vkst (vm s)) (Suc f) hi" and "frame_ptr f \<noteq> 0"
    and "vm_next (vma_at (kmem_of s) (frame_ptr f)) = 0"
    and "loads phs = [q] \<Longrightarrow> seg_ok (unat (free_list (vkst (vm s)))) elfhdr q \<and> second_ok q \<and> Suc f + 4 * seg_pages q \<le> hi"
  shows "\<exists>k' lo' r'. load_segments s elfhdr pcb phdr (length phs) = Some (s\<lparr>vm := (vm s)\<lparr>vkst := k'\<rparr>, mms := (mms s)(mm t \<mapsto> r')\<rparr>) \<and>
    Suc f \<le> lo' \<and> lo' \<le> Suc f + segs_room (loads phs) \<and> pt_inv k' root lo' hi n \<and> keeps (vkst (vm s)) k' root f hi \<and>
    segs_loaded (kmem_of s) (vkst (vm s)) k' root lo' hi elfhdr (loads phs)"
  using assms(1,2,13)
proof (induction phs arbitrary: phdr)
  case Nil
  have e: "s\<lparr>vm := (vm s)\<lparr>vkst := vkst (vm s)\<rparr>, mms := (mms s)(mm t \<mapsto> r)\<rparr> = s" using assms(7) by (simp add: map_upd_triv)
  have "keeps (vkst (vm s)) (vkst (vm s)) root f hi" by (simp add: keeps_def same_on_def walks_kept_def)
  moreover have "segs_loaded (kmem_of s) (vkst (vm s)) (vkst (vm s)) root (Suc f) hi elfhdr (loads [])" by (simp add: segs_loaded_def)
  moreover have "load_segments s elfhdr pcb phdr (length []) = Some (s\<lparr>vm := (vm s)\<lparr>vkst := vkst (vm s)\<rparr>, mms := (mms s)(mm t \<mapsto> r)\<rparr>)"
    unfolding e by simp
  moreover have "Suc f \<le> Suc f + segs_room (loads [])" by simp
  ultimately show ?case using assms(3) by blast
next
  case (Cons ph phs)
  show ?case
  proof (cases "p_type ph = 1")
    case False
    then show ?thesis using Cons by simp
  next
    case True
    then have q: "ph = q" "loads phs = []" "seg_ok (unat (free_list (vkst (vm s)))) elfhdr q" "second_ok q" "Suc f + 4 * seg_pages q \<le> hi"
      using Cons.prems(2,3) by auto
    obtain k' lo' where r: "load_segment s elfhdr pcb q = Some (s\<lparr>vm := (vm s)\<lparr>vkst := k'\<rparr>, mms := (mms s)(mm t \<mapsto> r\<lparr>mm_count := mm_count r + 1\<rparr>)\<rparr>)"
      "Suc f \<le> lo'" "lo' \<le> Suc f + 4 * seg_pages q" "pt_inv k' root lo' hi n" "keeps (vkst (vm s)) k' root f hi" "uimage k' root lo' hi (p_vaddr q) (seg_bytes (kmem_of s) elfhdr q)"
      "\<forall>w. \<not> in_seg q w \<longrightarrow> pmap k' root w = pmap (vkst (vm s)) root w"
      using load_segment_second [OF assms(3) q(3,5) assms(4-12)] q(4) unfolding second_ok_def by (elim impE exE conjE) auto
    let ?s = "s\<lparr>vm := (vm s)\<lparr>vkst := k'\<rparr>, mms := (mms s)(mm t \<mapsto> r\<lparr>mm_count := mm_count r + 1\<rparr>)\<rparr>"
    have "hdrs (kmem_of ?s) (unat (free_list (vkst (vm s)))) (phdr + 56) phs"
      using Cons.prems(1) r(5) hdrs_same by (auto simp: keeps_def)
    from load_segments_none [OF this q(2), of elfhdr pcb]
    have "load_segments s elfhdr pcb phdr (length (ph # phs)) = Some ?s"
      using r(1) Cons.prems(1) True q(1) by simp
    moreover have "segs_loaded (kmem_of s) (vkst (vm s)) k' root lo' hi elfhdr (loads (ph # phs))"
      using r(6,7) True q(1,2) by (simp add: segs_loaded_def)
    moreover have "lo' \<le> Suc f + segs_room (loads (ph # phs))" using r(3) True q(1) by (simp add: segs_room_def)
    ultimately show ?thesis using r(2,4,5) by blast
  qed
qed

lemma segs_ok_tl: "segs_ok F elfhdr (p # ls) \<Longrightarrow> ls = [] \<or> (\<exists>q. ls = [q] \<and> seg_ok F elfhdr q \<and> second_ok q \<and> seg_apart p q)"
  by (cases "(F, elfhdr, p # ls)" rule: segs_ok.cases) auto

lemma segs_ok_hd: "segs_ok F elfhdr (p # ls) \<Longrightarrow> seg_ok F elfhdr p"
  by (cases "(F, elfhdr, p # ls)" rule: segs_ok.cases) auto

lemma load_segments_ok:
  assumes "hdrs (kmem_of s) (unat (free_list (vkst (vm s)))) phdr phs" and "segs_ok (unat (free_list (vkst (vm s)))) elfhdr (loads phs)"
    and inv: "pt_inv (vkst (vm s)) root lo hi n" and room: "lo + segs_room (loads phs) \<le> hi"
    and cr: "cr3 (vm s) = of_nat (4096 * root)"
    and t: "tasks s pcb = Some t" "t_pml4 t = frame_ptr root" "mms s (mm t) = Some r" "mm_mmap r = 0"
  shows "\<exists>k' lo' r'. load_segments s elfhdr pcb phdr (length phs) = Some (s\<lparr>vm := (vm s)\<lparr>vkst := k'\<rparr>, mms := (mms s)(mm t \<mapsto> r')\<rparr>) \<and>
    lo \<le> lo' \<and> lo' \<le> lo + segs_room (loads phs) \<and> pt_inv k' root lo' hi n \<and> keeps (vkst (vm s)) k' root lo hi \<and>
    segs_loaded (kmem_of s) (vkst (vm s)) k' root lo' hi elfhdr (loads phs)"
  using assms(1,2) room
proof (induction phs arbitrary: phdr)
  case Nil
  have e: "s\<lparr>vm := (vm s)\<lparr>vkst := vkst (vm s)\<rparr>, mms := (mms s)(mm t \<mapsto> r)\<rparr> = s" using t(3) by (simp add: map_upd_triv)
  have "keeps (vkst (vm s)) (vkst (vm s)) root lo hi" by (simp add: keeps_def same_on_def walks_kept_def)
  moreover have "segs_loaded (kmem_of s) (vkst (vm s)) (vkst (vm s)) root lo hi elfhdr (loads [])" by (simp add: segs_loaded_def)
  moreover have "load_segments s elfhdr pcb phdr (length []) = Some (s\<lparr>vm := (vm s)\<lparr>vkst := vkst (vm s)\<rparr>, mms := (mms s)(mm t \<mapsto> r)\<rparr>)"
    unfolding e by simp
  moreover have "lo \<le> lo + segs_room (loads [])" by simp
  ultimately show ?case using inv by blast
next
  case (Cons ph phs)
  let ?k = "vkst (vm s)"
  let ?F = "unat (free_list ?k)"
  show ?case
  proof (cases "p_type ph = 1")
    case False
    then show ?thesis using Cons by simp
  next
    case True
    then have ls: "loads (ph # phs) = ph # loads phs" by simp
    have ok: "seg_ok ?F elfhdr ph" using segs_ok_hd Cons.prems(2) unfolding ls by blast
    have tl: "loads phs = [] \<or> (\<exists>q. loads phs = [q] \<and> seg_ok ?F elfhdr q \<and> second_ok q \<and> seg_apart ph q)"
      using segs_ok_tl Cons.prems(2) unfolding ls by blast
    have rm: "lo + 4 * seg_pages ph + 1 + segs_room (loads phs) \<le> hi" using Cons.prems(3) unfolding ls segs_room_def by simp
    then have rm1: "lo + 4 * seg_pages ph + 1 \<le> hi" by simp
    obtain k1 f where a: "load_segment s elfhdr pcb ph = Some (s\<lparr>vm := (vm s)\<lparr>vkst := k1\<rparr>,
          mms := (mms s)(mm t \<mapsto> r\<lparr>mm_mmap := frame_ptr f, mm_count := mm_count r + 1\<rparr>)\<rparr>)"
      "lo \<le> f" "f \<le> lo + 4 * seg_pages ph" "pt_inv k1 root (Suc f) hi n" "keeps ?k k1 root lo hi"
      "uimage k1 root f hi (p_vaddr ph) (seg_bytes (kmem_of s) elfhdr ph)"
      "\<forall>w. \<not> in_seg ph w \<longrightarrow> pmap k1 root w = pmap ?k root w"
      "off_tree k1 root f" "f \<in> table_frames k1 (Suc f) hi" "frame_ptr f \<noteq> 0" "vma_at (kmem k1) (frame_ptr f) = seg_vma elfhdr ph"
      using load_segment_first [OF inv ok rm1 cr t] by (elim exE conjE) (rule that)
    let ?r1 = "r\<lparr>mm_mmap := frame_ptr f, mm_count := mm_count r + 1\<rparr>"
    let ?s1 = "s\<lparr>vm := (vm s)\<lparr>vkst := k1\<rparr>, mms := (mms s)(mm t \<mapsto> ?r1)\<rparr>"
    have F: "free_list k1 = free_list ?k" and low: "same_on 0 ?F (kmem k1) (kmem_of s)" using a(5) by (auto simp: keeps_def)
    have h: "hdrs (kmem_of ?s1) (unat (free_list (vkst (vm ?s1)))) (phdr + 56) phs"
      using Cons.prems(1) hdrs_same [OF low] F by simp
    obtain q where q: "loads phs = [] \<or> loads phs = [q]"
      "loads phs = [q] \<Longrightarrow> seg_ok ?F elfhdr q \<and> second_ok q \<and> seg_apart ph q"
      using tl by (cases "loads phs") (auto intro: that [of ph])
    have qr: "loads phs = [q] \<Longrightarrow> Suc f + 4 * seg_pages q \<le> hi" using rm a(3) by (simp add: segs_room_def)
    obtain k' lo' r' where b: "load_segments ?s1 elfhdr pcb (phdr + 56) (length phs) = Some (?s1\<lparr>vm := (vm ?s1)\<lparr>vkst := k'\<rparr>, mms := (mms ?s1)(mm t \<mapsto> r')\<rparr>)"
      "Suc f \<le> lo'" "pt_inv k' root lo' hi n" "keeps k1 k' root f hi" "segs_loaded (kmem k1) k1 k' root lo' hi elfhdr (loads phs)"
      "lo' \<le> Suc f + segs_room (loads phs)"
      using load_segments_second [OF h q(1), of root f hi n pcb t ?r1 elfhdr] a(4,8-11) cr t(1,2) q(2) qr F
      by (auto simp: seg_vma_def)
    have "load_segments s elfhdr pcb phdr (length (ph # phs)) = Some (s\<lparr>vm := (vm s)\<lparr>vkst := k'\<rparr>, mms := (mms s)(mm t \<mapsto> r')\<rparr>)"
      using a(1) b(1) True Cons.prems(1) by simp
    moreover have "keeps ?k k' root lo hi" by (rule keeps_trans [OF a(5) keeps_mono [OF b(4) a(2)]])
    moreover have "segs_loaded (kmem_of s) ?k k' root lo' hi elfhdr (loads (ph # phs))"
    proof -
      have "\<forall>i<length (seg_bytes (kmem_of s) elfhdr ph). pmap k' root (p_vaddr ph + of_nat i) = pmap k1 root (p_vaddr ph + of_nat i)"
        using b(5) in_seg_addr [OF ok] seg_apartD q ok unfolding segs_loaded_def by (fastforce simp: seg_ok_def)
      then have "uimage k' root f hi (p_vaddr ph) (seg_bytes (kmem_of s) elfhdr ph)" by (rule uimage_keeps [OF b(4) a(6)])
      then have "uimage k' root lo' hi (p_vaddr ph) (seg_bytes (kmem_of s) elfhdr ph)" by (rule uimage_mono) (use b(2) in simp)
      moreover have "seg_bytes (kmem k1) elfhdr p = seg_bytes (kmem_of s) elfhdr p" if "p \<in> set (loads phs)" for p
        using that q seg_bytes_same [OF low] by auto
      ultimately show ?thesis using b(5) a(7) unfolding ls segs_loaded_def by auto
    qed
    moreover have "lo \<le> lo'" "lo' \<le> lo + segs_room (loads (ph # phs))"
      using b(2,6) a(2,3) unfolding ls by (simp_all add: segs_room_def)
    ultimately show ?thesis using b(3) by blast
  qed
qed

section \<open>The whole loader\<close>

lemma fold_upd_other: "\<forall>i\<in>set xs. c i \<noteq> j \<Longrightarrow> fold (\<lambda>i ks. ks(c i := v i)) xs ks j = ks j"
  by (induction xs arbitrary: ks) auto

lemma argv_fold: "i < k \<Longrightarrow> k \<le> 506 \<Longrightarrow> fold (\<lambda>i ks. ks(505 - i := argv i)) [0..<k] ks (505 - i) = (argv i :: u64)"
  by (induction k arbitrary: i) (auto simp: less_Suc_eq)

lemma start_stack_fields:
  assumes "argc \<le> 492"
  shows "start_stack isr32 us argc argv ks 506 = of_nat argc" and "start_stack isr32 us argc argv ks 491 = isr32 + 29"
    and "start_stack isr32 us argc argv ks 511 = 0x23" and "start_stack isr32 us argc argv ks 510 = us + 8 * 511"
    and "start_stack isr32 us argc argv ks 509 = 0x200286" and "start_stack isr32 us argc argv ks 508 = 0x1b"
    and "i < argc \<Longrightarrow> i < 14 \<Longrightarrow> start_stack isr32 us argc argv ks (505 - i) = argv i"
proof -
  have "\<forall>j\<in>set [1..<15]. 506 - argc - j \<noteq> 506" "\<forall>j\<in>set [0..<argc]. 505 - j \<noteq> 506" by auto
  note o = this [THEN fold_upd_other]
  show "start_stack isr32 us argc argv ks 506 = of_nat argc"
    unfolding start_stack_def Let_def by (simp only: fun_upd_apply o) simp
  show "start_stack isr32 us argc argv ks (505 - i) = argv i" if i: "i < argc" "i < 14"
  proof -
    have "505 - i \<noteq> 491" "505 - i \<noteq> 508" "505 - i \<noteq> 509" "505 - i \<noteq> 510" "505 - i \<noteq> 511" using i by auto
    moreover have "\<forall>j\<in>set [1..<15]. 506 - argc - j \<noteq> 505 - i" using i assms by auto
    note p = fold_upd_other [OF this]
    have "argc \<le> 506" using assms by simp
    note q = argv_fold [OF i(1) this]
    show ?thesis by (simp only: start_stack_def Let_def fun_upd_apply calculation if_False p q)
  qed
qed (simp_all add: start_stack_def Let_def)

lemma talk_cases:
  "\<exists>l. s = s\<lparr>klog := l\<rparr>" "\<exists>l. say s m = s\<lparr>klog := l\<rparr>" "\<exists>l. say (s\<lparr>klog := l0\<rparr>) m = s\<lparr>klog := l\<rparr>"
  by (intro exI [of _ "klog s"], simp) (auto simp: say_def)

lemma check_only_talks: "\<exists>l. fst (elf_check_supported s hdr) = s\<lparr>klog := l\<rparr>"
proof -
  have "\<exists>l. fst (elf_check_file s hdr) = s\<lparr>klog := l\<rparr>"
    unfolding elf_check_file_def Let_def by (simp only: if_distrib [of fst] fst_conv split: if_split) (simp add: talk_cases)
  then obtain l ok where f: "elf_check_file s hdr = (s\<lparr>klog := l\<rparr>, ok)" by (metis prod.collapse)
  show ?thesis
    unfolding elf_check_supported_def f Let_def prod.case
    by (simp only: if_distrib [of fst] fst_conv split: if_split) (auto simp: say_def)
qed

lemma stack_apart:
  assumes "seg_ok F elfhdr ph" and "low (4096 * f)" and "i < 4096"
  shows "\<not> in_seg ph (bumpPtr + of_nat (4096 * f) + of_nat i)"
proof -
  let ?u = "bumpPtr + of_nat (4096 * f) + of_nat i"
  have "unat ?u = 4096 * (unat bumpPtr div 4096 + f) + i" by (rule stack_addr(2) [OF assms(2,3)])
  then have "unat ?u div 4096 = unat bumpPtr div 4096 + f" using assms(3) by (simp del: distrib_left_numeral)
  then have "pgno ?u = (unat bumpPtr div 4096 + f) mod 2 ^ 36" by (simp add: pgno_def)
  also have "unat bumpPtr div 4096 + f = (0xF0F080700 + f) + 0xFFFF * 2 ^ 36" by (simp add: bumpPtr_def)
  also have "\<dots> mod 2 ^ 36 = (0xF0F080700 + f) mod 2 ^ 36" by (rule mod_mult_self1)
  also have "\<dots> = 0xF0F080700 + f" using assms(2) by (intro mod_less) (simp add: low_def)
  finally have p: "pgno ?u = 0xF0F080700 + f" .
  have fit: "unat (p_vaddr ph) + unat (p_memsz ph) + 4096 < 2 ^ 47" using assms(1) by (simp add: seg_ok_def)
  have "unat (p_vaddr ph) div 4096 \<le> (unat (p_vaddr ph) + unat (p_memsz ph) + 4095) div 4096" by (rule div_le_mono) simp
  then have "unat (p_vaddr ph) div 4096 + seg_pages ph = (unat (p_vaddr ph) + unat (p_memsz ph) + 4095) div 4096"
    by (simp add: seg_pages_def region_pages_def)
  also have "\<dots> \<le> 2 ^ 47 div 4096" by (rule div_le_mono) (use fit in simp)
  finally show ?thesis unfolding in_seg_def p by simp
qed

text \<open>A program in memory that the loader can run: the name of the file, the headers and the segments
  lie below the page descriptors, and there is room for all pages.\<close>

definition program_at :: "ksys \<Rightarrow> nat \<Rightarrow> nat \<Rightarrow> nat \<Rightarrow> nat \<Rightarrow> u64 \<Rightarrow> u64 \<Rightarrow> u8 list \<Rightarrow> Elf64_Phdr list \<Rightarrow> bool" where
  "program_at s kroot lo hi n addr fileptr nm phs \<longleftrightarrow>
     (let F = unat (free_list (vkst (vm s))); h = ehdr_at (kmem_of s) (loc addr) in
      pt_inv (vkst (vm s)) kroot lo hi n \<and> ker_pml4_t (vm s) = VADDR (of_nat (4096 * kroot)) \<and> int_ok (PID s + 1) \<and>
      tasks s (frame_ptr (lo + 1)) = None \<and>
      cstr (kmem_of s) (loc fileptr) nm \<and> length nm \<le> 100 \<and> loc fileptr + length nm < F \<and>
      loc addr + 64 \<le> F \<and> hdrs (kmem_of s) F (addr + e_phoff h) phs \<and> length phs = unat (e_phnum h) \<and>
      segs_ok F addr (loads phs) \<and> lo + 14 + segs_room (loads phs) \<le> hi)"

definition started :: "u64 \<Rightarrow> ksys \<Rightarrow> nat \<Rightarrow> u64 \<Rightarrow> nat \<Rightarrow> (nat \<Rightarrow> u64) \<Rightarrow> u64 \<Rightarrow> u8 list \<Rightarrow> task_struct" where
  "started isr32 s lo par argc argv entry nm =
     (let pcb = frame_ptr (lo + 1); us = bumpPtr + of_nat (4096 * (lo + 10));
          t = task_of pcb (frame_ptr lo) us (of_int (PID s)) par (text_fun nm)
      in t\<lparr>kstack := (start_stack isr32 us argc argv (kstack t))(507 := entry), t_rsp := pcb + 8 + 8 * 491, t_entry := entry\<rparr>)"

lemma ehdr_same: "same_on 0 F m' m \<Longrightarrow> a + 64 \<le> F \<Longrightarrow> e_phoff (ehdr_at m' a) = e_phoff (ehdr_at m a) \<and>
    e_phnum (ehdr_at m' a) = e_phnum (ehdr_at m a) \<and> e_entry (ehdr_at m' a) = e_entry (ehdr_at m a)"
proof -
  assume a: "same_on 0 F m' m" "a + 64 \<le> F"
  have "ldn w m' (a + i) = ldn w m (a + i)" if "i + w \<le> 64" for i w
    by (rule ldn_cong, rule same_on_sub [OF a(1)]) (use a(2) that in auto)
  then show ?thesis by (simp add: ehdr_at_def ld64_def ld16_def)
qed

lemma segs_ok_all: "segs_ok F elfhdr ls \<Longrightarrow> ph \<in> set ls \<Longrightarrow> seg_ok F elfhdr ph"
  by (induction F elfhdr ls rule: segs_ok.induct) auto

lemma elf_run_bin_ok:
  assumes prog: "program_at s kroot lo hi n addr fileptr nm phs" and argc: "argc \<le> 492"
    and par: "get_running_task s = Some parent" "tasks s parent = Some p"
  defines "pcb \<equiv> frame_ptr (lo + 1)" and "us \<equiv> bumpPtr + of_nat (4096 * (lo + 10))"
    and "entry \<equiv> e_entry (ehdr_at (kmem_of s) (loc addr))"
  shows "\<exists>s' k' lo'. elf_run_bin isr32 s addr fileptr argc argv = Some (s', pcb) \<and>
    tasks s' = (tasks s)(pcb \<mapsto> started isr32 s lo (pid p) argc argv entry nm) \<and> vm s' = (vm s)\<lparr>vkst := k', cr3 := t_cr3 p\<rparr> \<and>
    PID s' = PID s + 1 \<and> rtasks s' = rtasks s \<and> queue_head s' = queue_head s \<and> running_task s' = running_task s \<and>
    lo' \<le> lo + 14 + segs_room (loads phs) \<and> pt_inv k' lo lo' hi n \<and> uimage k' lo lo' hi us (replicate 4096 0) \<and>
    (\<forall>ph\<in>set (loads phs). uimage k' lo lo' hi (p_vaddr ph) (seg_bytes (kmem_of s) addr ph)) \<and>
    same_on 0 (unat (free_list (vkst (vm s)))) (kmem k') (kmem_of s)"
proof -
  let ?F = "unat (free_list (vkst (vm s)))" and ?h = "ehdr_at (kmem_of s) (loc addr)"
  note P = prog [unfolded program_at_def Let_def]
  have inv: "pt_inv (vkst (vm s)) kroot lo hi n" and ker: "ker_pml4_t (vm s) = VADDR (of_nat (4096 * kroot))"
    and room: "lo + 14 \<le> hi" and num: "int_ok (PID s + 1)" and new: "tasks s pcb = None"
    and nm: "cstr (kmem_of s) (loc fileptr) nm" "length nm \<le> 100" "loc fileptr + length nm < ?F"
    and hd: "loc addr + 64 \<le> ?F" "hdrs (kmem_of s) ?F (addr + e_phoff ?h) phs" "length phs = unat (e_phnum ?h)"
    and sg: "segs_ok ?F addr (loads phs)" "lo + 14 + segs_room (loads phs) \<le> hi"
    using P unfolding pcb_def by auto
  obtain k lo1 where n: "new_task s parent fileptr = Some (s\<lparr>vm := (vm s)\<lparr>vkst := k\<rparr>, mms := (mms s)(pcb + 32976 \<mapsto> \<lparr>mm_count = 0, mm_mmap = 0\<rparr>),
        PID := PID s + 1, tasks := (tasks s)(pcb \<mapsto> task_of pcb (frame_ptr lo) us (of_int (PID s)) (pid p) (text_fun nm))\<rparr>, pcb)"
      "pt_inv k lo lo1 hi n" "lo1 \<le> lo + 14" "free_list k = free_list (vkst (vm s))"
      "same_on 0 (unat (free_list k)) (kmem k) (kmem_of s)" "\<forall>i<4096. upage k lo lo1 hi (us + of_nat i) (lo + 10)"
    using new_task_ok [OF inv ker room par(2) num nm, folded pcb_def us_def] by (elim exE conjE) (rule that)
  have lw: "low (4096 * (lo + 10))" using table_low [of "vkst (vm s)" lo hi n "lo + 10"] inv room by (auto simp: pt_inv_def low_def)
  obtain m where m: "clear_ustack (kmem k) (of_nat (4096 * lo)) us 0 512 = Some m" "data_only k lo lo1 hi m"
      "uimage (k\<lparr>kmem := m\<rparr>) lo lo1 hi us (replicate 4096 0)" "same_on 0 (unat (free_list k)) m (kmem k)"
    using clear_ustack_ok [OF n(2) us_def [THEN meta_eq_to_obj_eq] lw n(6)] by blast
  let ?k1 = "k\<lparr>kmem := m\<rparr>"
  let ?t0 = "task_of pcb (frame_ptr lo) us (of_int (PID s)) (pid p) (text_fun nm)"
  let ?t1 = "?t0\<lparr>kstack := start_stack isr32 us argc argv (kstack ?t0), t_rsp := pcb + 8 + 8 * 491\<rparr>"
  let ?s1 = "s\<lparr>vm := (vm s)\<lparr>vkst := ?k1, cr3 := of_nat (4096 * lo)\<rparr>, mms := (mms s)(pcb + 32976 \<mapsto> \<lparr>mm_count = 0, mm_mmap = 0\<rparr>),
      PID := PID s + 1, tasks := (tasks s)(pcb \<mapsto> ?t1)\<rparr>"
  have inv1: "pt_inv ?k1 lo lo1 hi n" by (rule data_write(1) [OF n(2) m(2)])
  have low1: "same_on 0 ?F m (kmem_of s)" using m(4) n(4,5) by (auto simp: same_on_def)
  have h1: "hdrs m ?F (addr + e_phoff ?h) phs" by (rule hdrs_same [OF low1 hd(2)])
  have t1: "t_pml4 ?t1 = frame_ptr lo" "mm ?t1 = pcb + 32976" "t_cr3 ?t0 = of_nat (4096 * lo)"
    by (simp_all add: task_of_def frame_ptr_def)
  obtain k' lo' r' where l: "load_segments ?s1 addr pcb (addr + e_phoff ?h) (length phs) =
        Some (?s1\<lparr>vm := (vm ?s1)\<lparr>vkst := k'\<rparr>, mms := (mms ?s1)(pcb + 32976 \<mapsto> r')\<rparr>)"
      "lo1 \<le> lo'" "pt_inv k' lo lo' hi n" "keeps ?k1 k' lo lo1 hi" "segs_loaded m ?k1 k' lo lo' hi addr (loads phs)"
      "lo' \<le> lo1 + segs_room (loads phs)"
    using load_segments_ok [of ?s1 "addr + e_phoff ?h" phs addr lo lo1 hi n pcb ?t1 "\<lparr>mm_count = 0, mm_mmap = 0\<rparr>"]
      h1 sg inv1 n(3,4) t1 by auto
  have low': "same_on 0 ?F (kmem k') (kmem_of s)" using l(4) low1 n(4) by (auto simp: keeps_def same_on_def)
  let ?t2 = "?t1\<lparr>t_entry := entry, kstack := (kstack ?t1)(507 := entry)\<rparr>"
  let ?s2 = "?s1\<lparr>vm := (vm ?s1)\<lparr>vkst := k'\<rparr>, mms := (mms ?s1)(pcb + 32976 \<mapsto> r')\<rparr>"
  let ?s' = "?s2\<lparr>tasks := (tasks ?s2)(pcb \<mapsto> ?t2), vm := (vm ?s2)\<lparr>cr3 := t_cr3 p\<rparr>\<rparr>"
  have np: "parent \<noteq> pcb" using par(2) new by auto
  have e: "e_phoff (ehdr_at m (loc addr)) = e_phoff ?h" "e_phnum (ehdr_at m (loc addr)) = e_phnum ?h"
      "e_entry (ehdr_at (kmem k') (loc addr)) = entry"
    using ehdr_same [OF low1 hd(1)] ehdr_same [OF low' hd(1)] by (auto simp: entry_def)
  have "elf_run_bin isr32 s addr fileptr argc argv = Some (?s', pcb)"
  proof -
    have "ustack ?t0 = us" by (simp add: task_of_def)
    then have a: "setup_stacks isr32 (s\<lparr>vm := (vm s)\<lparr>vkst := k\<rparr>, mms := (mms s)(pcb + 32976 \<mapsto> \<lparr>mm_count = 0, mm_mmap = 0\<rparr>),
        PID := PID s + 1, tasks := (tasks s)(pcb \<mapsto> ?t0)\<rparr>) pcb argc argv = Some ?s1"
      using argc t1(3) m(1) by (simp add: setup_stacks_def LOAD_CR3_def set_kmem_def upd_task_def del: of_nat_mult)
    have b: "ehdr_at (kmem_of ?s1) (loc addr) = ehdr_at m (loc addr)" "ehdr_at (kmem_of ?s2) (loc addr) = ehdr_at (kmem k') (loc addr)" by simp_all
    have c: "upd_task ?s2 pcb (\<lambda>t. t\<lparr>t_entry := entry, kstack := (kstack t)(507 := entry)\<rparr>) = Some (?s2\<lparr>tasks := (tasks ?s2)(pcb \<mapsto> ?t2)\<rparr>)"
      by (simp add: upd_task_def)
    have d: "tasks (?s2\<lparr>tasks := (tasks ?s2)(pcb \<mapsto> ?t2)\<rparr>) parent = Some p" using np par(2) by simp
    show ?thesis
      unfolding elf_run_bin_def par(1) n(1) bind.bind_lunit prod.case a Let_def b e(1,2) hd(3) [symmetric] l(1) e(3) c d
      by (simp add: LOAD_CR3_def)
  qed
  moreover have "?t2 = started isr32 s lo (pid p) argc argv entry nm"
    by (simp add: started_def Let_def task_of_def pcb_def us_def)
  moreover have "uimage k' lo lo' hi us (replicate 4096 0)"
  proof -
    have "pmap k' lo (us + of_nat i) = pmap ?k1 lo (us + of_nat i)" if "i < 4096" for i
      using l(5) stack_apart [OF segs_ok_all [OF sg(1)] lw that] unfolding segs_loaded_def us_def by blast
    then have "uimage k' lo lo1 hi us (replicate 4096 0)" by (intro uimage_keeps [OF l(4) m(3)]) simp
    then show ?thesis by (rule uimage_mono [OF _ l(2)])
  qed
  moreover have "\<forall>ph\<in>set (loads phs). uimage k' lo lo' hi (p_vaddr ph) (seg_bytes (kmem_of s) addr ph)"
    using l(5) seg_bytes_same [OF low1 segs_ok_all [OF sg(1)]] by (simp add: segs_loaded_def)
  ultimately show ?thesis using l(3,6) n(3) low' by (intro exI [of _ ?s'] exI [of _ k'] exI [of _ lo']) simp
qed

lemma program_at_log: "program_at (s\<lparr>klog := l\<rparr>) kroot lo hi n addr fileptr nm phs = program_at s kroot lo hi n addr fileptr nm phs"
  by (simp add: program_at_def)

section \<open>A small program\<close>

lemma pt_inv_below:
  assumes "pt_inv st root lo hi n" and "\<And>a. unat (free_list st) \<le> a \<Longrightarrow> m a = kmem st a"
  shows "pt_inv (st\<lparr>kmem := m\<rparr>) root lo hi n"
proof -
  have "fl_inv (st\<lparr>kmem := m\<rparr>) lo hi n" using assms by (intro fl_inv_below) (auto simp: pt_inv_def)
  moreover have "tree (tabs m) root (table_frames st lo hi)"
  proof -
    have t: "tree (tabs (kmem st)) root (table_frames st lo hi)" using assms(1) by (simp add: pt_inv_def)
    have tab: "tabs m f j = tabs (kmem st) f j" if "f \<in> table_frames st lo hi" for f j
      unfolding tabs_def by (rule ld64_same) (use that assms(2) in \<open>auto simp: same_on_def table_frames_def\<close>)
    have "walk (tabs m) root q = walk (tabs (kmem st)) root q" if "valid_path q" for q
      using that
    proof (induction q rule: rev_induct)
      case (snoc j q)
      then have q: "valid_path q" by (simp add: valid_path_snoc)
      show ?case using snoc.IH [OF q] tab tree_in [OF t q] by (auto simp: walk_snoc split: option.split)
    qed (simp add: walk.simps)
    then show ?thesis using t unfolding tree_def by metis
  qed
  moreover have "table_frames (st\<lparr>kmem := m\<rparr>) lo hi = table_frames st lo hi" by (simp add: table_frames_def)
  ultimately show ?thesis by (simp add: pt_inv_def)
qed

text \<open>An image with two segments, of three and two bytes, at address 0, and the name of its file at 192.\<close>

definition demo_elf :: mem where
  "demo_elf = (\<lambda>_. 0)
     (24 := 0x10, 26 := 0x40, 32 := 64, 56 := 2,
      64 := 1, 68 := 5, 72 := 176, 82 := 0x40, 96 := 3, 104 := 5,
      120 := 1, 124 := 6, 128 := 179, 136 := 0x40, 137 := 0x10, 138 := 0x40, 152 := 2, 160 := 2,
      176 := 11, 177 := 12, 178 := 13, 179 := 14, 180 := 15, 192 := 97)"

definition demo_ph1 :: Elf64_Phdr where
  "demo_ph1 = \<lparr>p_type = 1, p_flags = 5, p_offset = 176, p_vaddr = 0x400000, p_paddr = 0, p_filesz = 3, p_memsz = 5, p_align = 0\<rparr>"

definition demo_ph2 :: Elf64_Phdr where
  "demo_ph2 = \<lparr>p_type = 1, p_flags = 6, p_offset = 179, p_vaddr = 0x401040, p_paddr = 0, p_filesz = 2, p_memsz = 2, p_align = 0\<rparr>"

definition low_mem :: "mem \<Rightarrow> mem \<Rightarrow> mem" where
  "low_mem l m a = (if a < 4096 then l a else m a)"

definition demo_exec :: ksys where
  "demo_exec = (demo node0 node1 1)\<lparr>vm := \<lparr>vkst = paged_st\<lparr>kmem := low_mem demo_elf (kmem paged_st)\<rparr>, topVAddr = 0, ker_cr3 = 0x2000,
     ker_pml4_t = VADDR (of_nat (4096 * 2)), cr3 = 0x7000\<rparr>\<rparr>"

lemma paged_free_list: "free_list paged_st = 4096"
proof -
  obtain st' where "kmalloc_init boot_st 1 = Some (st', VADDR (of_nat (4096 * 2)))" "alloc_post boot_st st' 2 1 170"
    using kmalloc_init_src.al_ok [OF boot_inv pages_for_1] by auto
  then show ?thesis using boot_free_list by (simp add: paged_st_def alloc_post_def)
qed

lemma ldn_numeral: "ldn (numeral w) m p = unat (m p) + 256 * ldn (pred_numeral w) m (Suc p)"
  unfolding numeral_eq_Suc [of w] ldn.simps by simp

lemma demo_elf_hdrs:
  "phdr_at (low_mem demo_elf m) 64 = demo_ph1" "phdr_at (low_mem demo_elf m) 120 = demo_ph2"
  "e_phoff (ehdr_at (low_mem demo_elf m) 0) = 64" "e_phnum (ehdr_at (low_mem demo_elf m) 0) = 2" "e_entry (ehdr_at (low_mem demo_elf m) 0) = 0x400010"
  by (simp_all add: phdr_at_def ehdr_at_def ld64_def ld32_def ld16_def ldn_numeral demo_elf_def demo_ph1_def demo_ph2_def low_mem_def)

lemma demo_program: "program_at demo_exec 2 3 170 171 (VADDR 0) (VADDR 192) [97] [demo_ph1, demo_ph2]"
proof -
  let ?m = "low_mem demo_elf (kmem paged_st)"
  have k: "kmem_of demo_exec = ?m" "free_list (vkst (vm demo_exec)) = 4096"
      "ker_pml4_t (vm demo_exec) = VADDR (of_nat (4096 * 2))" "PID demo_exec = 4"
    by (simp_all add: demo_exec_def paged_free_list demo_def)
  have l: "loc (VADDR 0) = 0" "loc (VADDR 192) = 192" "loc (VADDR 0 + 64) = 64" "loc (VADDR 0 + 120) = 120"
      "seg_src (VADDR 0) demo_ph1 = 176" "seg_src (VADDR 0) demo_ph2 = 179"
    by (simp_all add: seg_src_def loc_def VADDR_def KERNEL_VADDR_def demo_ph1_def demo_ph2_def)
  have "pt_inv (vkst (vm demo_exec)) 2 3 170 171"
    unfolding demo_exec_def by (simp, rule pt_inv_below [OF paged_inv(1)]) (simp add: paged_free_list low_mem_def)
  moreover have "cstr ?m 192 [97]"
    by (simp add: cstr_def holds_def All_less_Suc low_mem_def demo_elf_def)
  moreover have pg: "seg_pages demo_ph1 = 1" "seg_pages demo_ph2 = 1"
    by (simp_all add: seg_pages_def region_pages_def demo_ph1_def demo_ph2_def)
  moreover have "loads [demo_ph1, demo_ph2] = [demo_ph1, demo_ph2]" by (simp add: demo_ph1_def demo_ph2_def)
  moreover have "tasks demo_exec (frame_ptr (3 + 1)) = None"
    by (simp add: demo_exec_def demo_def demo_tasks_def frame_ptr_def VADDR_def KERNEL_VADDR_def)
  moreover have "VADDR 0 + 64 + 56 = VADDR 0 + 120" by simp
  then have "hdrs ?m 4096 (VADDR 0 + 64) [demo_ph1, demo_ph2]"
    by (simp only: hdrs.simps l demo_elf_hdrs) simp
  moreover have "segs_ok 4096 (VADDR 0) [demo_ph1, demo_ph2]"
    unfolding segs_ok.simps seg_ok_def l second_ok_def seg_apart_def pg by (simp add: demo_ph1_def demo_ph2_def)
  ultimately show ?thesis
    unfolding program_at_def Let_def k l by (simp add: demo_elf_hdrs segs_room_def int_ok_def)
qed

section \<open>Properties\<close>

text \<open>
  C6. The loader runs a program: whatever the checks of the header say, \<^verbatim>\<open>elf_parse\<close> returns a
  new task in whose address space every loaded segment reads as the bytes of the file followed by
  zeros and the stack page reads as zeros; the address space of the caller is loaded again.
\<close>

theorem elf_parse_loads:
  assumes "program_at s kroot lo hi n addr fileptr nm phs" and "argc \<le> 492"
    and "get_running_task s = Some parent" and "tasks s parent = Some p"
  shows "\<exists>s' t. elf_parse isr32 s addr fileptr argc argv = Some (s', frame_ptr (lo + 1)) \<and>
    tasks s' = (tasks s)(frame_ptr (lo + 1) \<mapsto> t) \<and> pid t = of_int (PID s) \<and> ppid t = pid p \<and> cr3 (vm s') = t_cr3 p \<and>
    (\<forall>i<4096. vld8 (kmem_of s') (t_cr3 t) (ustack t + of_nat i) = Some 0) \<and>
    (\<forall>ph\<in>set (loads phs). \<forall>i<unat (p_memsz ph). vld8 (kmem_of s') (t_cr3 t) (p_vaddr ph + of_nat i) =
       Some (if i < unat (p_filesz ph) then kmem_of s (seg_src addr ph + i) else 0))"
proof -
  obtain l where l: "fst (elf_check_supported s addr) = s\<lparr>klog := l\<rparr>" using check_only_talks by blast
  let ?s = "s\<lparr>klog := l\<rparr>"
  have run: "elf_parse isr32 s addr fileptr argc argv = elf_run_bin isr32 ?s addr fileptr argc argv"
    using l by (simp add: elf_parse_def Let_def split_beta)
  have pr: "program_at ?s kroot lo hi n addr fileptr nm phs" using assms(1) by (simp add: program_at_log)
  have par: "get_running_task ?s = Some parent" "tasks ?s parent = Some p"
    using assms(3,4) by (simp_all add: get_running_task_def proc_of_def)
  let ?t = "started isr32 ?s lo (pid p) argc argv (e_entry (ehdr_at (kmem_of s) (loc addr))) nm"
  obtain s' k' lo' where r: "elf_run_bin isr32 ?s addr fileptr argc argv = Some (s', frame_ptr (lo + 1))"
      "tasks s' = (tasks s)(frame_ptr (lo + 1) \<mapsto> ?t)" "vm s' = (vm s)\<lparr>vkst := k', cr3 := t_cr3 p\<rparr>"
      "pt_inv k' lo lo' hi n" "uimage k' lo lo' hi (bumpPtr + of_nat (4096 * (lo + 10))) (replicate 4096 0)"
      "\<forall>ph\<in>set (loads phs). uimage k' lo lo' hi (p_vaddr ph) (seg_bytes (kmem_of s) addr ph)"
    using elf_run_bin_ok [OF pr assms(2) par, of isr32 argv] by auto
  have t: "pid ?t = of_int (PID s)" "ppid ?t = pid p" "t_cr3 ?t = of_nat (4096 * lo)" "ustack ?t = bumpPtr + of_nat (4096 * (lo + 10))"
    by (simp_all add: started_def Let_def task_of_def frame_ptr_def)
  have "vld8 (kmem k') (t_cr3 ?t) (ustack ?t + of_nat i) = Some 0" if "i < 4096" for i
    using uimage_read [OF r(4,5), of i] that unfolding t by simp
  moreover have "vld8 (kmem k') (t_cr3 ?t) (p_vaddr ph + of_nat i) =
      Some (if i < unat (p_filesz ph) then kmem_of s (seg_src addr ph + i) else 0)"
    if ph: "ph \<in> set (loads phs)" and i: "i < unat (p_memsz ph)" for ph i
  proof -
    have ok: "p_filesz ph \<le> p_memsz ph"
      using assms(1) segs_ok_all [OF _ ph] by (auto simp: program_at_def Let_def seg_ok_def)
    have "vld8 (kmem k') (of_nat (4096 * lo)) (p_vaddr ph + of_nat i) = Some (seg_bytes (kmem_of s) addr ph ! i)"
      using r(6) ph i ok by (intro uimage_read [OF r(4)]) auto
    then show ?thesis unfolding t using i by (auto simp: seg_bytes_def nth_append)
  qed
  ultimately show ?thesis using run r(1-3) t(1,2) by (intro exI [of _ s'] exI [of _ ?t]) simp
qed

theorem elf_parse_loads_witness:
  "\<exists>s' t. elf_parse 0 demo_exec (VADDR 0) (VADDR 192) 0 (\<lambda>_. 0) = Some (s', frame_ptr 4) \<and> tasks s' (frame_ptr 4) = Some t \<and>
    vld8 (kmem_of s') (t_cr3 t) 0x400001 = Some 12 \<and> vld8 (kmem_of s') (t_cr3 t) 0x400004 = Some 0 \<and>
    vld8 (kmem_of s') (t_cr3 t) 0x401041 = Some 15"
proof -
  have par: "get_running_task demo_exec = Some 0x1000" "\<exists>p. tasks demo_exec 0x1000 = Some p"
    by (simp_all add: demo_exec_def demo_def get_running_task_def proc_of_def demo_nodes_def demo_tasks_def)
  then obtain p where p: "tasks demo_exec 0x1000 = Some p" by blast
  have src: "seg_src (VADDR 0) demo_ph1 = 176" "seg_src (VADDR 0) demo_ph2 = 179"
    by (simp_all add: seg_src_def loc_def VADDR_def KERNEL_VADDR_def demo_ph1_def demo_ph2_def)
  have m: "kmem_of demo_exec 177 = 12" "kmem_of demo_exec 180 = 15" by (simp_all add: demo_exec_def low_mem_def demo_elf_def)
  have ls: "set (loads [demo_ph1, demo_ph2]) = {demo_ph1, demo_ph2}" by (simp add: demo_ph1_def demo_ph2_def)
  obtain s' t where r: "elf_parse 0 demo_exec (VADDR 0) (VADDR 192) 0 (\<lambda>_. 0) = Some (s', frame_ptr 4)" "tasks s' (frame_ptr 4) = Some t"
    "\<forall>ph\<in>{demo_ph1, demo_ph2}. \<forall>i<unat (p_memsz ph). vld8 (kmem_of s') (t_cr3 t) (p_vaddr ph + of_nat i) =
       Some (if i < unat (p_filesz ph) then kmem_of demo_exec (seg_src (VADDR 0) ph + i) else 0)"
    using elf_parse_loads [OF demo_program _ par(1) p, of 0 0 "\<lambda>_. 0"] unfolding ls by auto
  have v: "0x400000 + of_nat 1 = (0x400001 :: u64)" "0x400000 + of_nat 4 = (0x400004 :: u64)" "0x401040 + of_nat 1 = (0x401041 :: u64)" by simp_all
  have "vld8 (kmem_of s') (t_cr3 t) 0x400001 = Some 12"
    using r(3) [rule_format, of demo_ph1 1] src(1) m(1) by (simp add: demo_ph1_def)
  moreover have "vld8 (kmem_of s') (t_cr3 t) 0x400004 = Some 0"
    using r(3) [rule_format, of demo_ph1 4] by (simp add: demo_ph1_def)
  moreover have "vld8 (kmem_of s') (t_cr3 t) 0x401041 = Some 15"
    using r(3) [rule_format, of demo_ph2 1] src(2) m(2) by (simp add: demo_ph2_def)
  ultimately show ?thesis using r(1,2) by blast
qed

text \<open>The frame that the loader leaves on the kernel stack of the new task.\<close>

lemma start_frame:
  assumes "program_at s kroot lo hi n addr fileptr nm phs" and "argc \<le> 492"
    and "get_running_task s = Some parent" and "tasks s parent = Some p"
  shows "\<exists>s' t. elf_run_bin isr32 s addr fileptr argc argv = Some (s', frame_ptr (lo + 1)) \<and> tasks s' (frame_ptr (lo + 1)) = Some t \<and>
    t_rsp t = frame_ptr (lo + 1) + 8 + 8 * 491 \<and> kstack t 491 = isr32 + 29 \<and>
    kstack t 507 = e_entry (ehdr_at (kmem_of s) (loc addr)) \<and> kstack t 508 = 0x1b \<and> kstack t 509 = 0x200286 \<and>
    kstack t 510 = ustack t + 8 * 511 \<and> kstack t 511 = 0x23 \<and> kstack t 506 = of_nat argc \<and>
    (\<forall>i<14. i < argc \<longrightarrow> kstack t (505 - i) = argv i) \<and>
    is_sleeping t = 0 \<and> is_waiting t = 0 \<and> queue_head s' = queue_head s \<and> running_task s' = running_task s \<and> PID s' = PID s + 1"
proof -
  let ?t = "started isr32 s lo (pid p) argc argv (e_entry (ehdr_at (kmem_of s) (loc addr))) nm"
  obtain s' where r: "elf_run_bin isr32 s addr fileptr argc argv = Some (s', frame_ptr (lo + 1))"
      "tasks s' = (tasks s)(frame_ptr (lo + 1) \<mapsto> ?t)" "queue_head s' = queue_head s" "running_task s' = running_task s" "PID s' = PID s + 1"
    using elf_run_bin_ok [OF assms, of isr32 argv] by auto
  have "kstack ?t (505 - i) = argv i" if "i < 14" "i < argc" for i
  proof -
    have "505 - i \<noteq> 507" by simp
    then show ?thesis using start_stack_fields(7) [OF assms(2) that(2,1)] by (simp add: started_def Let_def)
  qed
  then show ?thesis
    using r by (intro exI [of _ s'] exI [of _ ?t])
      (simp add: started_def Let_def start_stack_fields [OF assms(2)] task_of_def zero_task_def)
qed

end
