(* ===== verification/Fork.thy ===== *)
theory Fork
  imports Elf64
begin

text \<open>
  \<^verbatim>\<open>sys_fork\<close> of \<^verbatim>\<open>sys/process.c\<close>: a new task with a copy of the kernel stack and of the
  user stack page of its parent, a page-table root with the entries of the parent's root, and
  memory areas that are filled from the program file.
\<close>

section \<open>Loads through the page tables\<close>

fun vld_bytes :: "mem \<Rightarrow> u64 \<Rightarrow> u64 \<Rightarrow> nat \<Rightarrow> u8 list option" where
  "vld_bytes m cr va 0 = Some []"
| "vld_bytes m cr va (Suc n) = do { b \<leftarrow> vld8 m cr va; bs \<leftarrow> vld_bytes m cr (va + 1) n; Some (b # bs) }"

fun word_of_bytes :: "u8 list \<Rightarrow> u64" where
  "word_of_bytes [] = 0"
| "word_of_bytes (b # bs) = ucast b + 256 * word_of_bytes bs"

definition vld64 :: "mem \<Rightarrow> u64 \<Rightarrow> u64 \<Rightarrow> u64 option" where
  "vld64 m cr va = do { bs \<leftarrow> vld_bytes m cr va 8; Some (word_of_bytes bs) }"

section \<open>sys_fork\<close>

text \<open>\<^verbatim>\<open>str_len(parent->tname)\<close>; a name without an end runs into the next field.\<close>

definition name_len :: "(nat \<Rightarrow> u8) \<Rightarrow> nat option" where
  "name_len nm = (let n = length (takeWhile (\<lambda>i. nm i \<noteq> 0) [0..<100]) in if n < 100 then Some n else None)"

text \<open>The first copying loop: the kernel stack, the user stack and the page-table root of the parent.\<close>

fun fork_copy :: "mem \<Rightarrow> u64 \<Rightarrow> task_struct \<Rightarrow> u64 \<Rightarrow> u64 \<Rightarrow> u64 \<Rightarrow> nat \<Rightarrow> nat \<Rightarrow> mem option" where
  "fork_copy m cr p tk tu pml4 j 0 = Some m"
| "fork_copy m cr p tk tu pml4 j (Suc n) =
     do { let m = st64 m (loc tk + 8 * j) (kstack p j);
          v \<leftarrow> vld64 m cr (ustack p + 8 * of_nat j);
          let m = st64 m (loc tu + 8 * j) v;
          let m = set_entry m pml4 (of_nat j) (entry_at m (t_pml4 p) (of_nat j));
          fork_copy m cr p tk tu pml4 (Suc j) n }"

text \<open>The second one: both stacks of the child.\<close>

fun fork_stacks :: "mem \<Rightarrow> u64 \<Rightarrow> u64 \<Rightarrow> u64 \<Rightarrow> u64 \<Rightarrow> (nat \<Rightarrow> u64) \<Rightarrow> nat \<Rightarrow> nat \<Rightarrow> (mem \<times> (nat \<Rightarrow> u64)) option" where
  "fork_stacks m cr us tk tu ks j 0 = Some (m, ks)"
| "fork_stacks m cr us tk tu ks j (Suc n) =
     do { m \<leftarrow> vst64 m cr (us + 8 * of_nat j) (ld64 m (loc tu + 8 * j));
          fork_stacks m cr us tk tu (ks(j := ld64 m (loc tk + 8 * j))) (Suc j) n }"

text \<open>The index of the first word of the stack that is not zero, or 512.\<close>

fun first_used :: "mem \<Rightarrow> u64 \<Rightarrow> nat \<Rightarrow> nat \<Rightarrow> nat" where
  "first_used m tu i 0 = i"
| "first_used m tu i (Suc n) = (if ld64 m (loc tu + 8 * i) \<noteq> 0 then i else first_used m tu (Suc i) n)"

text \<open>\<^verbatim>\<open>offset\<close> is \<open>511 - i - 1\<close> in 64 bits, \<open>rip\<close> is the word 506 of the parent's stack.\<close>

definition fork_frame :: "u64 \<Rightarrow> u64 \<Rightarrow> nat \<Rightarrow> u64 \<Rightarrow> (nat \<Rightarrow> u64) \<Rightarrow> (nat \<Rightarrow> u64)" where
  "fork_frame isr32 us i rip ks =
     (let offset = 511 - of_nat i - 1;
          ks = ks(511 := 0x23);
          ks = ks(510 := us + 8 * (511 - offset));
          ks = ks(509 := 0x200286);
          ks = ks(508 := 0x1b);
          ks = ks(507 := rip);
          ks = ks(506 := 0)
      in ks(491 := isr32 + 29))"

text \<open>\<^verbatim>\<open>*((uint64_t * )(vm_start + j)) = *((uint64_t * )(vm_file + vm_pgoff + j))\<close>: eight bytes at
  every address of the area.\<close>

fun fork_data :: "mem \<Rightarrow> u64 \<Rightarrow> u64 \<Rightarrow> u64 \<Rightarrow> nat \<Rightarrow> mem option" where
  "fork_data m cr dst src 0 = Some m"
| "fork_data m cr dst src (Suc n) =
     do { m \<leftarrow> vst64 m cr dst (ld64 m (loc src)); fork_data m cr (dst + 1) (src + 1) n }"

definition fork_vma :: "ksys \<Rightarrow> u64 \<Rightarrow> u64 \<Rightarrow> ksys option" where
  "fork_vma s child p_vma =
     do { t \<leftarrow> tasks s child;
          (s, child_vma) \<leftarrow> vma_malloc s (mm t);
          let v = vma_at (kmem_of s) p_vma;
          let s = set_kmem s (set_vma (kmem_of s) child_vma (v\<lparr>vm_next := 0\<rparr>));
          let v = vma_at (kmem_of s) p_vma;
          k \<leftarrow> region_alloc (vkst (vm s)) (t_pml4 t) (vm_start v) (vm_mmsz v);
          m \<leftarrow> fork_data (kmem k) (cr3 (vm s)) (vm_start v) (vm_file v + vm_pgoff v) (unat (vm_mmsz v));
          Some (s\<lparr>vm := (vm s)\<lparr>vkst := k\<lparr>kmem := m\<rparr>\<rparr>\<rparr>) }"

partial_function (option) fork_vmas :: "ksys \<Rightarrow> u64 \<Rightarrow> u64 \<Rightarrow> ksys option" where
  "fork_vmas s child p_vma =
     (if p_vma = 0 then Some s
      else do { s \<leftarrow> fork_vma s child p_vma;
                fork_vmas s child (vm_next (vma_at (kmem_of s) p_vma)) })"

text \<open>The task structure of the child, queued before its address space exists.\<close>

definition fork_task :: "ksys \<Rightarrow> task_struct \<Rightarrow> (ksys \<times> u64) option" where
  "fork_task s p =
     do { (s, child) \<leftarrow> ksys_kmalloc s 32976;
          n \<leftarrow> name_len (tname p);
          if child = 0 \<or> \<not> int_ok (PID s + 1) then None
          else do {
            let s = s\<lparr>mms := (mms s)(child + 32976 \<mapsto> \<lparr>mm_count = 0, mm_mmap = 0\<rparr>)\<rparr>;
            let t = zero_task\<lparr>mm := child + 32976, pid := of_int (PID s), ppid := pid p,
                      tname := (\<lambda>i. if i < n then tname p i else tname zero_task i)\<rparr>;
            let s = s\<lparr>PID := PID s + 1, tasks := (tasks s)(child \<mapsto> t)\<rparr>;
            s \<leftarrow> add_to_task_list s child;
            Some (s, child) } }"

text \<open>The page-table root and the two buffers, the first copying loop and the stack page.\<close>

definition fork_space :: "ksys \<Rightarrow> u64 \<Rightarrow> u64 \<Rightarrow> (ksys \<times> u64 \<times> u64) option" where
  "fork_space s parent child =
     do { (s, pml4a) \<leftarrow> ksys_kmalloc s 24;
          let s = new_space s pml4a;
          (s, tk) \<leftarrow> ksys_kmalloc s 1;
          (s, tu) \<leftarrow> ksys_kmalloc s 1;
          s \<leftarrow> upd_task s child (\<lambda>t. t\<lparr>t_pml4 := pml4a, t_cr3 := PADDR pml4a, is_waiting := 0, sleep_time := 0, is_sleeping := 0\<rparr>);
          p \<leftarrow> tasks s parent;
          m \<leftarrow> fork_copy (kmem_of s) (cr3 (vm s)) p tk tu pml4a 0 512;
          (k, us) \<leftarrow> kmalloc_stack (vkst (vm (set_kmem s m))) 1 pml4a;
          let s = s\<lparr>vm := LOAD_CR3 ((vm s)\<lparr>vkst := k\<rparr>) (PADDR pml4a)\<rparr>;
          s \<leftarrow> upd_task s child (\<lambda>t. t\<lparr>ustack := us\<rparr>);
          Some (s, tk, tu) }"

definition sys_fork :: "u64 \<Rightarrow> ksys \<Rightarrow> (ksys \<times> u64) option" where
  "sys_fork isr32 s =
     do { parent \<leftarrow> get_running_task s;
          p \<leftarrow> tasks s parent;
          (s, child) \<leftarrow> fork_task s p;
          (s, tk, tu) \<leftarrow> fork_space s parent child;
          t \<leftarrow> tasks s child;
          (m, ks) \<leftarrow> fork_stacks (kmem_of s) (cr3 (vm s)) (ustack t) tk tu (kstack t) 0 512;
          let s = set_kmem s m;
          let i = first_used m tu 0 512;
          s \<leftarrow> upd_task s child (\<lambda>t. t\<lparr>kstack := fork_frame isr32 (ustack t) i (ld64 m (loc tk + 8 * 506)) ks,
                 t_rsp := child + 8 + 8 * 491\<rparr>);
          p \<leftarrow> tasks s parent;
          a \<leftarrow> mms s (mm p);
          s \<leftarrow> fork_vmas s child (mm_mmap a);
          p \<leftarrow> tasks s parent;
          t \<leftarrow> tasks s child;
          Some (s\<lparr>vm := LOAD_CR3 (vm s) (t_cr3 p)\<rparr>, pid t) }"

section \<open>Words through the page tables\<close>

lemma word_of_bytes_ldn: "word_of_bytes (map m [p..<p + n]) = of_nat (ldn n m p)"
proof (induction n arbitrary: p)
  case (Suc n)
  have "[p..<p + Suc n] = p # [Suc p..<Suc p + n]" by (simp add: upt_conv_Cons)
  then show ?case using Suc [of "Suc p"] by simp
qed simp

lemma vld_bytes_upage:
  assumes "pt_inv k root lo hi n" and "\<forall>i<w. upage k root lo hi (va + of_nat i) g \<and> upos (va + of_nat i) g = a + i"
  shows "vld_bytes (kmem k) (of_nat (4096 * root)) va w = Some (map (kmem k) [a..<a + w])"
  using assms(2)
proof (induction w arbitrary: va a)
  case (Suc w)
  have u: "upage k root lo hi va g" "upos va g = a" using Suc.prems [rule_format, of 0] by auto
  have "\<forall>i<w. upage k root lo hi (va + 1 + of_nat i) g \<and> upos (va + 1 + of_nat i) g = Suc a + i"
    using Suc.prems [rule_format, of "Suc _"] by (simp add: add.assoc)
  note IH = Suc.IH [OF this]
  have "[a..<a + Suc w] = a # [Suc a..<Suc a + w]" by (simp add: upt_conv_Cons)
  then show ?case using IH vloc_upage [OF assms(1) u(1)] u(2) by (simp add: vld8_def ld8_def del: of_nat_mult)
qed simp

lemma vld64_upage:
  assumes "pt_inv k root lo hi n" and "\<forall>i<8. upage k root lo hi (va + of_nat i) g \<and> upos (va + of_nat i) g = a + i"
  shows "vld64 (kmem k) (of_nat (4096 * root)) va = Some (ld64 (kmem k) a)"
  using vld_bytes_upage [OF assms] word_of_bytes_ldn [of "kmem k" a 8] by (simp add: vld64_def ld64_def del: of_nat_mult)

lemma length_bytes_of [simp]: "length (bytes_of v) = 8"
  by (simp add: bytes_of_def)

text \<open>A word of an aligned page.\<close>

lemma page_word:
  assumes "unat us mod 4096 = 0" and "unat us + 4096 \<le> 2 ^ 64" and "j < 512" and "i < 8"
  shows "upos (us + 8 * of_nat j + of_nat i) g = 4096 * g + 8 * j + i" and "us + 8 * of_nat j + of_nat i = us + of_nat (8 * j + i)"
proof -
  show e: "us + 8 * of_nat j + of_nat i = us + of_nat (8 * j + i)" by (simp add: add.assoc)
  have "8 * j + i < 4096" using assms(3,4) by simp
  moreover have "unat (us + of_nat (8 * j + i)) = unat us + (8 * j + i)" using assms(2) calculation by (intro unat_add_index) simp
  moreover have "(unat us + (8 * j + i)) mod 4096 = 8 * j + i"
    using assms(1) calculation(1) by (metis add_0 mod_add_left_eq mod_less)
  ultimately show "upos (us + 8 * of_nat j + of_nat i) g = 4096 * g + 8 * j + i" unfolding e upos_def by simp
qed

text \<open>A store of a word in a data page.\<close>

lemma st64_bytes: "st64 m a v = (\<lambda>x. if a \<le> x \<and> x < a + 8 then bytes_of v ! (x - a) else m x)"
proof -
  have "stn w m a x y = (if a \<le> y \<and> y < a + w then of_nat (x div 256 ^ (y - a)) else m y)" for w m a x y
  proof (induction w arbitrary: m a x)
    case (Suc w)
    show ?case
    proof (cases "y = a")
      case False
      then show ?thesis using Suc [of m "Suc a" "x div 256"]
        by (cases "a < y") (auto simp: div_mult2_eq [symmetric] Suc_diff_Suc power_Suc [symmetric] simp del: power_Suc)
    qed simp
  qed auto
  moreover have "(of_nat (unat v div 256 ^ i) :: u8) = bytes_of v ! i" if "i < 8" for i
  proof -
    have "(256 :: nat) ^ i = 2 ^ (8 * i)" by (simp add: power_mult)
    then have "unat v div 256 ^ i = unat (drop_bit (8 * i) v)" unfolding unat_drop_bit_eq by (simp add: drop_bit_eq_div)
    then show ?thesis using that by (simp add: bytes_of_def)
  qed
  ultimately show ?thesis by (auto simp: fun_eq_iff st64_def)
qed

lemma vst64_upage:
  assumes inv: "pt_inv k root lo hi n" and u: "\<forall>i<8. upage k root lo hi (va + of_nat i) g \<and> upos (va + of_nat i) g = a + i"
  shows "vst64 (kmem k) (of_nat (4096 * root)) va v = Some (st64 (kmem k) a v)" and "data_only k root lo hi (st64 (kmem k) a v)"
proof -
  have inj: "inj_on (\<lambda>i. upos (va + of_nat i) g) {..<length (bytes_of v)}" using u by (auto simp: inj_on_def)
  have im: "(\<lambda>i. upos (va + of_nat i) g) ` {..<8} = {a..<a + 8}"
  proof -
    have "(\<lambda>i. upos (va + of_nat i) g) ` {..<8} = (\<lambda>i. a + i) ` {..<8}" using u by (intro image_cong) auto
    then show ?thesis by (simp add: atLeast0LessThan [symmetric] add.commute)
  qed
  have u8: "\<forall>i<length (bytes_of v). upage k root lo hi (va + of_nat i) g" using u by simp
  obtain m' where m': "vst_bytes (kmem k) (of_nat (4096 * root)) va (bytes_of v) = Some m'" "data_only k root lo hi m'"
      "\<forall>i<8. m' (upos (va + of_nat i) g) = bytes_of v ! i" "\<forall>x. x \<notin> {a..<a + 8} \<longrightarrow> m' x = kmem k x"
    using vst_bytes_ok [OF inv u8 inj] unfolding length_bytes_of im by blast
  have "m' = st64 (kmem k) a v"
  proof
    fix x
    show "m' x = st64 (kmem k) a v x"
    proof (cases "a \<le> x \<and> x < a + 8")
      case True
      then have "x - a < 8" "x = a + (x - a)" by auto
      then show ?thesis using m'(3) u True by (metis st64_bytes)
    qed (use m'(4) in \<open>auto simp: st64_bytes\<close>)
  qed
  then show "vst64 (kmem k) (of_nat (4096 * root)) va v = Some (st64 (kmem k) a v)" "data_only k root lo hi (st64 (kmem k) a v)"
    using m'(1,2) by (simp_all add: vst64_def del: of_nat_mult)
qed

section \<open>The copying loops\<close>

text \<open>Two memories that differ only in the given pages.\<close>

definition pages_only :: "mem \<Rightarrow> mem \<Rightarrow> nat set \<Rightarrow> bool" where
  "pages_only m' m P \<longleftrightarrow> (\<forall>a. m' a \<noteq> m a \<longrightarrow> a div 4096 \<in> P)"

lemma pages_only_refl [simp]: "pages_only m m P"
  by (simp add: pages_only_def)

lemma pages_only_trans: "pages_only m2 m1 P \<Longrightarrow> pages_only m1 m P \<Longrightarrow> pages_only m2 m P"
  unfolding pages_only_def by metis

lemma pages_only_mono: "pages_only m' m P \<Longrightarrow> P \<subseteq> Q \<Longrightarrow> pages_only m' m Q"
  by (auto simp: pages_only_def)

lemma pages_only_page:
  assumes "pages_only m' m P" and "f \<notin> P"
  shows "same_on (4096 * f) 4096 m' m"
proof -
  have "a div 4096 = f" if "4096 * f \<le> a" "a < 4096 * f + 4096" for a using that by (intro div_nat_eqI) auto
  then show ?thesis using assms by (auto simp: pages_only_def same_on_def)
qed

lemma tabs_same_page: "same_on (4096 * f) 4096 m' m \<Longrightarrow> j < 512 \<Longrightarrow> tabs m' f j = tabs m f j"
  unfolding tabs_def by (intro ld64_same) (rule same_on_sub, auto)

lemma pages_only_data:
  assumes "pages_only m' (kmem k) P" and "\<forall>f\<in>P. f \<in> table_frames k lo hi \<and> off_tree k root f"
  shows "data_only k root lo hi m'"
  using assms by (auto simp: pages_only_def data_only_def)

lemma st64_word:
  assumes "i < 512"
  shows "pages_only (st64 m (4096 * f + 8 * i) v) m {f}"
    and "j < 512 \<Longrightarrow> tabs (st64 m (4096 * f + 8 * i) v) h j = (if h = f \<and> j = i then v else tabs m h j)"
proof -
  have "a div 4096 = f" if "st64 m (4096 * f + 8 * i) v a \<noteq> m a" for a
  proof -
    have "\<not> (a < 4096 * f + 8 * i \<or> 4096 * f + 8 * i + 8 \<le> a)" using that cell64.st_frame by blast
    then have "4096 * f \<le> a" "a < 4096 * f + 4096" using assms by auto
    then show ?thesis by (intro div_nat_eqI) auto
  qed
  then show "pages_only (st64 m (4096 * f + 8 * i) v) m {f}" by (auto simp: pages_only_def)
  assume j: "j < 512"
  show "tabs (st64 m (4096 * f + 8 * i) v) h j = (if h = f \<and> j = i then v else tabs m h j)"
  proof (cases "h = f \<and> j = i")
    case False
    have "4096 * h + 8 * j + 8 \<le> 4096 * f + 8 * i \<or> 4096 * f + 8 * i + 8 \<le> 4096 * h + 8 * j"
      using False assms j by (cases h f rule: linorder_cases) auto
    then show ?thesis using False by (auto simp: tabs_def cell64.ld_st_other)
  qed (simp add: tabs_def)
qed

text \<open>The user stack of a process: one page.\<close>

definition stack_page :: "kst \<Rightarrow> nat \<Rightarrow> nat \<Rightarrow> nat \<Rightarrow> u64 \<Rightarrow> nat \<Rightarrow> bool" where
  "stack_page k root lo hi us g \<longleftrightarrow>
     unat us mod 4096 = 0 \<and> unat us + 4096 \<le> 2 ^ 64 \<and> (\<forall>i<4096. upage k root lo hi (us + of_nat i) g)"

lemma stack_word:
  assumes inv: "pt_inv k root lo hi n" and s: "stack_page k root lo hi us g" and j: "j < 512"
  shows "vld64 (kmem k) (of_nat (4096 * root)) (us + 8 * of_nat j) = Some (tabs (kmem k) g j)"
    and "vst64 (kmem k) (of_nat (4096 * root)) (us + 8 * of_nat j) v = Some (st64 (kmem k) (4096 * g + 8 * j) v)"
proof -
  have u: "\<forall>i<8. upage k root lo hi (us + 8 * of_nat j + of_nat i) g \<and> upos (us + 8 * of_nat j + of_nat i) g = 4096 * g + 8 * j + i"
  proof (intro allI impI)
    fix i :: nat assume i: "i < 8"
    have us: "unat us mod 4096 = 0" "unat us + 4096 \<le> 2 ^ 64" using s by (simp_all add: stack_page_def)
    have "8 * j + i < 4096" using i j by simp
    then have "upage k root lo hi (us + 8 * of_nat j + of_nat i) g"
      unfolding page_word(2) [OF us j i] using s unfolding stack_page_def by blast
    then show "upage k root lo hi (us + 8 * of_nat j + of_nat i) g \<and> upos (us + 8 * of_nat j + of_nat i) g = 4096 * g + 8 * j + i"
      using page_word(1) [OF us j i] by simp
  qed
  show "vld64 (kmem k) (of_nat (4096 * root)) (us + 8 * of_nat j) = Some (tabs (kmem k) g j)"
    using vld64_upage [OF inv u] by (simp add: tabs_def)
  show "vst64 (kmem k) (of_nat (4096 * root)) (us + 8 * of_nat j) v = Some (st64 (kmem k) (4096 * g + 8 * j) v)"
    by (rule vst64_upage(1) [OF inv u])
qed

lemma stack_page_write:
  assumes "pt_inv k root lo hi n" and "data_only k root lo hi m'"
  shows "stack_page (k\<lparr>kmem := m'\<rparr>) root lo hi us g = stack_page k root lo hi us g"
  by (simp add: stack_page_def upage_write(1) [OF assms])

text \<open>What the first loop has done after \<open>j\<close> words: \<open>c\<close> is the new root, \<open>tk\<close> and \<open>tu\<close> the buffers.\<close>

definition copied :: "mem \<Rightarrow> task_struct \<Rightarrow> nat \<Rightarrow> nat \<Rightarrow> nat \<Rightarrow> nat \<Rightarrow> nat \<Rightarrow> nat \<Rightarrow> mem \<Rightarrow> bool" where
  "copied m0 p r g c tk tu j m \<longleftrightarrow> pages_only m m0 {c, tk, tu} \<and>
     (\<forall>i<j. tabs m tk i = kstack p i \<and> tabs m tu i = tabs m0 g i \<and> tabs m c i = tabs m0 r i)"

lemma fork_copy_ok:
  assumes inv: "pt_inv k r lo hi n" and stk: "stack_page k r lo hi (ustack p) g"
    and new: "\<forall>f\<in>{c, tk, tu}. f \<in> table_frames k lo hi \<and> off_tree k r f" "distinct [c, tk, tu]" "g \<notin> {c, tk, tu}"
    and ptr: "loc tkp = 4096 * tk" "loc tup = 4096 * tu" "is_table pml4 c" "is_table (t_pml4 p) r"
  shows "j + w = 512 \<Longrightarrow> copied (kmem k) p r g c tk tu j m \<Longrightarrow>
    \<exists>m'. fork_copy m (of_nat (4096 * r)) p tkp tup pml4 j w = Some m' \<and> copied (kmem k) p r g c tk tu 512 m'"
proof (induction w arbitrary: j m)
  case (Suc w)
  have j: "j < 512" using Suc.prems(1) by simp
  have u: "unat (of_nat j :: u64) = j" using j by (simp add: unat_of_nat take_bit_eq_mod)
  have r: "r \<notin> {c, tk, tu}" using new(1) by (auto simp: off_tree_def walk.simps valid_path_def dest!: spec [of _ "[]"])
  let ?m1 = "st64 m (4096 * tk + 8 * j) (kstack p j)"
  let ?m2 = "st64 ?m1 (4096 * tu + 8 * j) (tabs (kmem k) g j)"
  let ?m3 = "st64 ?m2 (4096 * c + 8 * j) (tabs (kmem k) r j)"
  have P: "pages_only m (kmem k) {c, tk, tu}" using Suc.prems(2) by (simp add: copied_def)
  have P1: "pages_only ?m1 (kmem k) {c, tk, tu}"
    by (rule pages_only_trans [OF _ P], rule pages_only_mono [OF st64_word(1) [OF j]]) simp
  have P2: "pages_only ?m2 (kmem k) {c, tk, tu}"
    by (rule pages_only_trans [OF _ P1], rule pages_only_mono [OF st64_word(1) [OF j]]) simp
  have P3: "pages_only ?m3 (kmem k) {c, tk, tu}"
    by (rule pages_only_trans [OF _ P2], rule pages_only_mono [OF st64_word(1) [OF j]]) simp
  have d: "data_only k r lo hi ?m1" by (rule pages_only_data [OF P1 new(1)])
  have "tabs ?m1 g j = tabs (kmem k) g j" by (rule tabs_same_page [OF pages_only_page [OF P1 new(3)] j])
  then have rd: "vld64 ?m1 (of_nat (4096 * r)) (ustack p + 8 * of_nat j) = Some (tabs (kmem k) g j)"
    using stack_word(1) [OF data_write(1) [OF inv d] _ j, of "ustack p" g] stk by (simp add: stack_page_write [OF inv d] del: of_nat_mult)
  have "tabs ?m2 r j = tabs (kmem k) r j" by (rule tabs_same_page [OF pages_only_page [OF P2 r] j])
  then have e: "entry_at ?m2 (t_pml4 p) (of_nat j) = tabs (kmem k) r j" using entry_at_tabs [OF ptr(4)] u j by simp
  have set: "set_entry ?m2 pml4 (of_nat j) v = st64 ?m2 (4096 * c + 8 * j) v" for v
    using ptr(3) j by (simp add: set_entry_def is_table_def)
  have "copied (kmem k) p r g c tk tu (Suc j) ?m3"
    using Suc.prems(2) P3 j new(2) by (auto simp: copied_def less_Suc_eq st64_word(2))
  from Suc.IH [OF _ this] obtain m' where "fork_copy ?m3 (of_nat (4096 * r)) p tkp tup pml4 (Suc j) w = Some m'"
      "copied (kmem k) p r g c tk tu 512 m'" using Suc.prems(1) by auto
  then show ?case using rd e by (simp add: ptr(1,2) set del: of_nat_mult)
qed simp

text \<open>The second loop fills the stack page \<open>f\<close> of the child through the child's tables.\<close>

lemma fork_stacks_ok:
  assumes inv: "pt_inv k c lo hi n" and stk: "stack_page k c lo hi us f"
    and f: "f \<in> table_frames k lo hi" "off_tree k c f" "f \<noteq> tk" "f \<noteq> tu"
    and ptr: "loc tkp = 4096 * tk" "loc tup = 4096 * tu"
  shows "j + w = 512 \<Longrightarrow> pages_only m (kmem k) {f} \<and> (\<forall>i<j. tabs m f i = tabs (kmem k) tu i \<and> ks i = tabs (kmem k) tk i) \<Longrightarrow>
    \<exists>m' ks'. fork_stacks m (of_nat (4096 * c)) us tkp tup ks j w = Some (m', ks') \<and> pages_only m' (kmem k) {f} \<and>
      (\<forall>i<512. tabs m' f i = tabs (kmem k) tu i \<and> ks' i = tabs (kmem k) tk i)"
proof (induction w arbitrary: j m ks)
  case (Suc w)
  have j: "j < 512" using Suc.prems(1) by simp
  let ?m1 = "st64 m (4096 * f + 8 * j) (tabs (kmem k) tu j)"
  have P: "pages_only m (kmem k) {f}" using Suc.prems(2) by simp
  have P1: "pages_only ?m1 (kmem k) {f}" by (rule pages_only_trans [OF st64_word(1) [OF j] P])
  have d: "data_only k c lo hi m" by (rule pages_only_data [OF P]) (use f(1,2) in simp)
  have rd: "ld64 m (4096 * tu + 8 * j) = tabs (kmem k) tu j" "ld64 ?m1 (4096 * tk + 8 * j) = tabs (kmem k) tk j"
    using tabs_same_page [OF pages_only_page [OF P] j, of tu] tabs_same_page [OF pages_only_page [OF P1] j, of tk] f(3,4)
    by (auto simp: tabs_def)
  have wr: "vst64 m (of_nat (4096 * c)) (us + 8 * of_nat j) v = Some (st64 m (4096 * f + 8 * j) v)" for v
    using stack_word(2) [OF data_write(1) [OF inv d] _ j, of us f] stk by (simp add: stack_page_write [OF inv d] del: of_nat_mult)
  have "pages_only ?m1 (kmem k) {f} \<and> (\<forall>i<Suc j. tabs ?m1 f i = tabs (kmem k) tu i \<and> (ks(j := tabs (kmem k) tk j)) i = tabs (kmem k) tk i)"
    using Suc.prems(2) P1 j by (auto simp: less_Suc_eq st64_word(2))
  moreover have "Suc j + w = 512" using Suc.prems(1) by simp
  ultimately obtain m' ks' where "fork_stacks ?m1 (of_nat (4096 * c)) us tkp tup (ks(j := tabs (kmem k) tk j)) (Suc j) w = Some (m', ks')"
      "pages_only m' (kmem k) {f}" "\<forall>i<512. tabs m' f i = tabs (kmem k) tu i \<and> ks' i = tabs (kmem k) tk i"
    using Suc.IH by blast
  then show ?case using rd wr by (simp add: ptr del: of_nat_mult)
qed auto

section \<open>The root of the child\<close>

text \<open>A page \<open>c\<close> with all the entries of the root \<open>r\<close> is the root of an address space with the same pages.\<close>

lemma copied_root:
  assumes inv: "pt_inv k r lo hi n" and c: "c \<in> table_frames k lo hi" "off_tree k r c"
    and eq: "\<forall>i<512. tabs (kmem k) c i = tabs (kmem k) r i"
  shows "pt_inv k c lo hi n" and "\<And>w. pmap k c w = pmap k r w"
    and "\<And>f. f \<noteq> c \<Longrightarrow> off_tree k r f \<Longrightarrow> off_tree k c f" and "off_tree k c r"
proof -
  let ?E = "tabs (kmem k)" and ?T = "table_frames k lo hi"
  have w: "walk ?E c (i # q) = walk ?E r (i # q)" if "i < 512" for i q using eq that by (simp add: walk.simps)
  have t: "tree ?E r ?T" using inv by (simp add: pt_inv_def)
  have no: "walk ?E r p \<noteq> Some c" if "valid_path p" for p using c(2) that by (auto simp: off_tree_def)
  have hd: "i < 512" if "valid_path (i # q)" for i q using that by (simp add: valid_path_def)
  have "tree ?E c ?T"
    unfolding tree_def
  proof (intro conjI allI impI; elim conjE)
    fix p f assume p: "valid_path p" "walk ?E c p = Some f"
    then show "f \<in> ?T" using w c(1) tree_in [OF t p(1)] hd by (cases p) (auto simp: walk.simps(1))
  next
    fix p q f assume a: "valid_path p" "valid_path q" "walk ?E c p = Some f" "walk ?E c q = Some f"
    show "p = q"
      using a(3,4) w hd a(1,2) no [OF a(1)] no [OF a(2)] tree_inj [OF t a(1,2)]
      by (cases p; cases q) (auto simp: walk.simps(1))
  qed
  then show "pt_inv k c lo hi n" using inv by (simp add: pt_inv_def)
  show "off_tree k c f" if "f \<noteq> c" "off_tree k r f" for f
    unfolding off_tree_def
  proof (intro allI impI)
    fix p assume "valid_path p"
    then show "walk ?E c p \<noteq> Some f" using that w hd by (cases p) (auto simp: off_tree_def walk.simps(1))
  qed
  show "off_tree k c r"
    unfolding off_tree_def
  proof (intro allI impI)
    fix p assume p: "valid_path p"
    have "walk ?E r [] = Some r" "valid_path []" by (simp_all add: walk.simps valid_path_def)
    then show "walk ?E c p \<noteq> Some r" using p w hd tree_inj [OF t p, of "[]" r] no [of "[]"] by (cases p) (auto simp: walk.simps(1))
  qed
  show "pmap k c v = pmap k r v" for v
    using w [of "unat (pml4_index v)"] by (simp add: pmap_def lookup_def path_of_def)
qed

text \<open>While the child's tables grow, the parent's address space follows wherever the entry of the root was present.\<close>

lemma shared_walks:
  assumes eq: "\<forall>i<512. tabs (kmem k) c i = tabs (kmem k) r i" and kept: "walks_kept k k' c"
    and root: "same_on (4096 * r) 4096 (kmem k') (kmem k)" and pres: "IS_PRESENT_PAGE (tabs (kmem k) r (unat (pml4_index w)))"
  shows "pmap k' r w = pmap k' c w"
proof -
  let ?i = "unat (pml4_index w)" and ?E = "tabs (kmem k)" and ?E' = "tabs (kmem k')"
  have i: "?i < 512" by simp
  have "walk ?E c [?i] = Some (frame_of (?E r ?i))" using eq pres i by (simp add: walk.simps)
  then have "walk ?E' c [?i] = Some (frame_of (?E r ?i))" using kept i by (simp add: walks_kept_def valid_path_def)
  moreover have "?E' r ?i = ?E r ?i" by (rule tabs_same_page [OF root i])
  ultimately have "walk ?E' c (?i # q) = walk ?E' r (?i # q)" for q using pres by (auto simp: walk.simps split: if_splits)
  then show ?thesis by (simp add: pmap_def lookup_def path_of_def)
qed

section \<open>The data of a memory area\<close>

lemma ldn_digit: "i < n \<Longrightarrow> (of_nat (ldn n m p div 256 ^ i) :: u8) = m (p + i)"
proof (induction n arbitrary: p i)
  case (Suc n)
  have b: "unat (m p) < 256" using unsigned_less [of "m p"] by simp
  show ?case
  proof (cases i)
    case 0
    have "(of_nat (256 * ldn n m (Suc p)) :: u8) = 0" by (simp only: word_of_nat_eq_0_iff) simp
    then show ?thesis using 0 by (simp only: ldn.simps of_nat_add power_0 div_by_1) simp
  next
    case (Suc j)
    have "ldn (Suc n) m p div 256 ^ i = ldn n m (Suc p) div 256 ^ j" using b by (simp add: Suc div_mult2_eq)
    then show ?thesis using Suc.IH [of j "Suc p"] Suc Suc.prems by simp
  qed
qed simp

lemma bytes_of_ld64:
  assumes "i < 8"
  shows "bytes_of (ld64 m a) ! i = m (a + i)"
proof -
  have "ldn n m p < 256 ^ n" for n p
  proof (induction n arbitrary: p)
    case (Suc n)
    have "unat (m p) < 2 ^ LENGTH(8)" by (rule unsigned_less)
    moreover have "ldn n m (Suc p) < 256 ^ n" by (rule Suc)
    ultimately show ?case by simp
  qed simp
  from this [of 8 a] have "unat (ld64 m a) = ldn 8 m a" by (simp add: ld64_def unat_of_nat take_bit_eq_mod)
  then have "unat (drop_bit (8 * i) (ld64 m a)) = ldn 8 m a div 256 ^ i"
    unfolding unat_drop_bit_eq by (simp add: drop_bit_eq_div power_mult)
  then have "ucast (drop_bit (8 * i) (ld64 m a)) = (of_nat (ldn 8 m a div 256 ^ i) :: u8)" by (metis of_nat_unat)
  then show ?thesis using assms ldn_digit [OF assms, of m a] by (simp add: bytes_of_def)
qed

text \<open>
  Eight bytes are written at every address; the later writes repeat the bytes of the earlier ones, so
  the area and the seven bytes behind it hold the bytes of the file.
\<close>

lemma fork_data_ok:
  assumes inv: "pt_inv k c lo hi n" and u: "\<forall>i<N + 7. upage k c lo hi (va + of_nat i) (g i)"
    and inj: "inj_on (\<lambda>i. upos (va + of_nat i) (g i)) {..<N + 7}"
    and src: "\<forall>j<N. loc (src + of_nat j) = A + j" "A + N + 7 \<le> unat (free_list k)"
  defines "P \<equiv> \<lambda>i. upos (va + of_nat i) (g i)"
  shows "j + w = N \<Longrightarrow> data_only k c lo hi m \<Longrightarrow> (\<forall>i<j + 7. 0 < j \<longrightarrow> m (P i) = kmem k (A + i)) \<Longrightarrow>
      (\<forall>a. a \<notin> P ` {..<N + 7} \<longrightarrow> m a = kmem k a) \<Longrightarrow>
    \<exists>m'. fork_data m (of_nat (4096 * c)) (va + of_nat j) (src + of_nat j) w = Some m' \<and> data_only k c lo hi m' \<and>
      (\<forall>i<N + 7. 0 < N \<longrightarrow> m' (P i) = kmem k (A + i)) \<and> (\<forall>a. a \<notin> P ` {..<N + 7} \<longrightarrow> m' a = kmem k a)"
proof (induction w arbitrary: j m)
  case (Suc w)
  have j: "j < N" using Suc.prems(1) by simp
  let ?k = "k\<lparr>kmem := m\<rparr>"
  have inv': "pt_inv ?k c lo hi n" by (rule data_write(1) [OF inv Suc.prems(2)])
  have low: "m a = kmem k a" if "a < unat (free_list k)" for a
  proof (rule ccontr)
    assume "m a \<noteq> kmem k a"
    then have "unat (free_list k) \<le> 4096 * (a div 4096)" using Suc.prems(2) by (auto simp: data_only_def table_frames_def)
    also have "\<dots> \<le> a" by simp
    finally show False using that by simp
  qed
  let ?v = "ld64 m (loc (src + of_nat j))"
  have pos: "va + of_nat j + of_nat i = va + of_nat (j + i)" for i by (simp add: add.assoc)
  have PI: "P a = P b \<Longrightarrow> a < N + 7 \<Longrightarrow> b < N + 7 \<Longrightarrow> a = b" for a b using inj by (auto simp: inj_on_def P_def)
  have PE: "upos (va + of_nat j + of_nat i) (g (j + i)) = P (j + i)" for i unfolding pos P_def by (rule refl)
  have b: "bytes_of ?v ! i = kmem k (A + j + i)" if "i < 8" for i
    using bytes_of_ld64 [OF that] src(1) j src(2) that by (simp add: low)
  have u': "\<forall>i<length (bytes_of ?v). upage ?k c lo hi (va + of_nat j + of_nat i) (g (j + i))"
    using u j unfolding pos upage_write(1) [OF inv Suc.prems(2)] by (simp del: of_nat_add)
  have inj': "inj_on (\<lambda>i. upos (va + of_nat j + of_nat i) (g (j + i))) {..<length (bytes_of ?v)}"
    unfolding PE using PI [of "j + _" "j + _"] j by (auto simp: inj_on_def)
  obtain m1 where m1: "vst_bytes m (of_nat (4096 * c)) (va + of_nat j) (bytes_of ?v) = Some m1" "data_only ?k c lo hi m1"
      "\<forall>i<8. m1 (P (j + i)) = bytes_of ?v ! i" "\<forall>a. a \<notin> (\<lambda>i. P (j + i)) ` {..<8} \<longrightarrow> m1 a = m a"
    using vst_bytes_ok [OF inv' u' inj'] unfolding PE by auto
  have d1: "data_only k c lo hi m1" by (rule upage_write(2) [OF inv Suc.prems(2) m1(2)])
  have w1: "\<forall>i<Suc j + 7. 0 < Suc j \<longrightarrow> m1 (P i) = kmem k (A + i)"
  proof (intro allI impI)
    fix i assume i: "i < Suc j + 7"
    show "m1 (P i) = kmem k (A + i)"
    proof (cases "j \<le> i")
      case True
      then show ?thesis using m1(3) [rule_format, of "i - j"] b [of "i - j"] i by simp
    next
      case False
      have "P i \<notin> (\<lambda>i. P (j + i)) ` {..<8}" using PI [of i "j + _"] False j by fastforce
      then show ?thesis using m1(4) Suc.prems(3) False by simp
    qed
  qed
  have f1: "\<forall>a. a \<notin> P ` {..<N + 7} \<longrightarrow> m1 a = kmem k a"
  proof (intro allI impI)
    fix a assume a: "a \<notin> P ` {..<N + 7}"
    then have "a \<notin> (\<lambda>i. P (j + i)) ` {..<8}" using j by auto
    then show "m1 a = kmem k a" using m1(4) Suc.prems(4) a by simp
  qed
  have "Suc j + w = N" using Suc.prems(1) by simp
  from Suc.IH [OF this d1 w1 f1] obtain m' where "fork_data m1 (of_nat (4096 * c)) (va + of_nat (Suc j)) (src + of_nat (Suc j)) w = Some m'"
      "data_only k c lo hi m'" "\<forall>i<N + 7. 0 < N \<longrightarrow> m' (P i) = kmem k (A + i)" "\<forall>a. a \<notin> P ` {..<N + 7} \<longrightarrow> m' a = kmem k a" by blast
  moreover have "va + of_nat (Suc j) = va + of_nat j + 1" "src + of_nat (Suc j) = src + of_nat j + 1" by simp_all
  ultimately show ?case using m1(1) by (simp only: fork_data.simps vst64_def bind.bind_lunit) blast
next
  case 0
  then show ?case by auto
qed

lemma region_upages:
  assumes inv: "pt_inv st root lo hi n" and fit: "unat va + unat sz + 4096 < 2 ^ 48" and room: "lo + 4 * region_pages va sz \<le> hi"
    and L: "unat va + L < 2 ^ 48" "\<forall>i<L. (unat va + i) div 4096 < unat va div 4096 + region_pages va sz"
  shows "\<exists>st1 lo' g. region_alloc st (frame_ptr root) va sz = Some st1 \<and> lo' \<le> lo + 4 * region_pages va sz \<and>
    pt_step st st1 root lo lo' hi n \<and> (\<forall>i<L. upage st1 root lo' hi (va + of_nat i) (g i) \<and> lo \<le> g i) \<and>
    inj_on (\<lambda>i. upos (va + of_nat i) (g i)) {..<L} \<and>
    (\<forall>w. \<not> (unat va div 4096 \<le> pgno w \<and> pgno w < unat va div 4096 + region_pages va sz) \<longrightarrow> pmap st1 root w = pmap st root w)"
proof -
  let ?b = "unat va div 4096"
  obtain st1 lo' gs where r: "region_alloc st (frame_ptr root) va sz = Some st1" "pt_step st st1 root lo lo' hi n"
    "lo' \<le> lo + 4 * region_pages va sz" "length gs = region_pages va sz" "backed st st1 root lo lo' hi (get_starting_page va) gs"
    using region_alloc_ok [OF inv fit room, folded frame_ptr_def] by (elim exE conjE) (rule that)
  note B = r(5) [unfolded backed_def region_bounds(3) [OF fit]]
  define g where "g i = gs ! ((unat va + i) div 4096 - ?b)" for i
  have free: "free_list st1 = free_list st" and fl: "fl_inv st lo hi n" using r(2) inv by (auto simp: pt_step_def pt_inv_def)
  have up: "upage st1 root lo' hi (va + of_nat i) (g i) \<and> lo \<le> g i" if i: "i < L" for i
  proof -
    have "unat (va + of_nat i) = unat va + i" using i L(1) by (intro unat_add_index) simp
    then have p: "pgno (va + of_nat i) = (unat va + i) div 4096" using i L(1) by (simp add: pgno_def)
    have q: "?b \<le> (unat va + i) div 4096" "(unat va + i) div 4096 < ?b + length gs" using L(2) i r(4) by (auto intro: div_le_mono)
    have "g i \<in> set gs" using q by (auto simp: g_def)
    then have "lo \<le> g i" "g i < lo'" "off_tree st1 root (g i)" using B by auto
    moreover have "pmap st1 root (va + of_nat i) = Some (of_nat (4096 * g i) OR RW_USER_FLAGS)" using B p q by (simp add: g_def)
    ultimately show ?thesis using fl_invD(2) [OF fl] free by (auto simp: upage_def table_frames_def)
  qed
  have "inj_on (\<lambda>i. upos (va + of_nat i) (g i)) {..<L}"
    unfolding g_def using B L r(4) by (intro upos_inj) (auto intro: div_le_mono)
  moreover have "\<forall>w. \<not> (?b \<le> pgno w \<and> pgno w < ?b + region_pages va sz) \<longrightarrow> pmap st1 root w = pmap st root w"
    using B r(4) by auto
  ultimately show ?thesis using r(1-3) up by blast
qed

text \<open>
  A memory area that \<^verbatim>\<open>sys_fork\<close> can copy: it is in a page of its own, its data in the file lies
  below the page descriptors, and the eight-byte copies stay in the pages of the area.
\<close>

definition area_bytes :: "mem \<Rightarrow> vm_area_struct \<Rightarrow> u8 list" where
  "area_bytes m v = map m [loc (vm_file v + vm_pgoff v)..<loc (vm_file v + vm_pgoff v) + unat (vm_mmsz v)]"

definition in_area :: "vm_area_struct \<Rightarrow> u64 \<Rightarrow> bool" where
  "in_area v w \<longleftrightarrow> unat (vm_start v) div 4096 \<le> pgno w \<and>
     pgno w < unat (vm_start v) div 4096 + region_pages (vm_start v) (vm_mmsz v)"

definition area_ok :: "nat \<Rightarrow> vm_area_struct \<Rightarrow> bool" where
  "area_ok F v \<longleftrightarrow> (let N = unat (vm_mmsz v); a = unat (vm_start v); src = vm_file v + vm_pgoff v in
     0 < N \<and> a + N + 4096 < 2 ^ 47 \<and> (a + N + 6) div 4096 < a div 4096 + region_pages (vm_start v) (vm_mmsz v) \<and>
     loc src + N + 7 \<le> F \<and> (\<forall>j<N. loc (src + of_nat j) = loc src + j))"

lemma keeps_vma:
  assumes "keeps k k' c lo hi" and "v \<in> table_frames k lo hi" and "off_tree k c v" and "loc p = 4096 * v"
  shows "vma_at (kmem k') p = vma_at (kmem k) p"
proof -
  have "same_on (4096 * v) 4096 (kmem k') (kmem k)" using assms(1-3) by (simp add: keeps_def)
  then have "ld64 (kmem k') (4096 * v + i) = ld64 (kmem k) (4096 * v + i)" if "i + 8 \<le> 4096" for i
    by (intro ld64_same) (rule same_on_sub, use that in auto)
  from this [of 0] this [of 8] this [of 16] this [of 24] this [of 32] this [of 40] this [of 48] this [of 56]
  show ?thesis by (simp add: vma_at_def Let_def assms(4))
qed

lemma fork_vma_ok:
  assumes inv: "pt_inv (vkst (vm s)) c lo hi n" and cr: "cr3 (vm s) = of_nat (4096 * c)"
    and t: "tasks s child = Some t" "t_pml4 t = frame_ptr c" "mms s (mm t) = Some r" "mm_mmap r = 0"
    and v: "v \<in> table_frames (vkst (vm s)) lo hi" "off_tree (vkst (vm s)) c v"
    and ok: "area_ok (unat (free_list (vkst (vm s)))) (vma_at (kmem_of s) (frame_ptr v))"
    and room: "lo + 1 + 4 * region_pages (vm_start (vma_at (kmem_of s) (frame_ptr v))) (vm_mmsz (vma_at (kmem_of s) (frame_ptr v))) \<le> hi"
  shows "\<exists>k' lo'. fork_vma s child (frame_ptr v) = Some (s\<lparr>vm := (vm s)\<lparr>vkst := k'\<rparr>,
      mms := (mms s)(mm t \<mapsto> r\<lparr>mm_mmap := frame_ptr lo, mm_count := mm_count r + 1\<rparr>)\<rparr>) \<and>
    pt_inv k' c lo' hi n \<and> lo \<le> lo' \<and> keeps (vkst (vm s)) k' c lo hi \<and>
    uimage k' c lo' hi (vm_start (vma_at (kmem_of s) (frame_ptr v))) (area_bytes (kmem_of s) (vma_at (kmem_of s) (frame_ptr v))) \<and>
    vma_at (kmem k') (frame_ptr lo) = (vma_at (kmem_of s) (frame_ptr v))\<lparr>vm_mm := 0, vm_next := 0\<rparr> \<and>
    (\<forall>w. \<not> in_area (vma_at (kmem_of s) (frame_ptr v)) w \<longrightarrow> pmap k' c w = pmap (vkst (vm s)) c w)"
proof -
  let ?k = "vkst (vm s)"
  define V where "V = vma_at (kmem_of s) (frame_ptr v)"
  have fl: "fl_inv ?k lo hi n" using inv by (simp add: pt_inv_def)
  have lo: "lo < hi" using room by simp
  have vlt: "v < hi" using v(1) lo by (simp add: table_frames_def)
  note lv = frame_ptr_loc [OF fl vlt] and ll = frame_ptr_loc [OF fl lo]
  obtain k1 where k1: "vma_malloc s (mm t) = Some (s\<lparr>vm := (vm s)\<lparr>vkst := k1\<rparr>,
      mms := (mms s)(mm t \<mapsto> r\<lparr>mm_mmap := frame_ptr lo, mm_count := mm_count r + 1\<rparr>)\<rparr>, frame_ptr lo)"
      "fl_inv k1 (lo + 1) hi n" "alloc_post ?k k1 lo 1 hi"
    using vma_malloc_first [OF fl lo t(3,4)] by auto
  note a = pt_step_alloc [OF inv k1(2,3)]
  have inv1: "pt_inv k1 c (lo + 1) hi n" and keep1: "keeps ?k k1 c lo hi" using a(1) by (auto simp: pt_step_keeps)
  have T: "lo \<in> table_frames k1 (lo + 1) hi" "off_tree k1 c lo"
    using fl_invD(2) [OF fl] k1(3) a(3) [of lo] by (auto simp: table_frames_def alloc_post_def)
  have V1: "vma_at (kmem k1) (frame_ptr v) = V" unfolding V_def by (rule keeps_vma [OF keep1 v lv])
  let ?m2 = "set_vma (kmem k1) (frame_ptr lo) (V\<lparr>vm_next := 0\<rparr>)"
  let ?k2 = "k1\<lparr>kmem := ?m2\<rparr>"
  note d2 = set_vma_data [OF T ll, where v = "V\<lparr>vm_next := 0\<rparr>"]
  note w2 = data_write [OF inv1 d2(1)]
  have F: "unat (free_list k1) \<le> 4096 * lo" using T(1) by (simp add: table_frames_def)
  have keep2: "keeps ?k ?k2 c lo hi" using keeps_trans [OF keep1 keeps_write [OF inv1 d2(1) _ F]] d2(2) by blast
  have V2: "vma_at ?m2 (frame_ptr v) = V" using keeps_vma [OF keep2 v lv] by (simp add: V_def)
  have C2: "vma_at ?m2 (frame_ptr lo) = V\<lparr>vm_mm := 0, vm_next := 0\<rparr>"
  proof -
    have "same_on (4096 * lo) 8 (kmem k1) (\<lambda>_. 0)" using a(4) [of lo] by (auto simp: same_on_def)
    then show ?thesis by (simp add: vma_at_set ll ld64_same [where m = "kmem k1"] ld64_zero)
  qed
  have free: "free_list k1 = free_list ?k" using k1(3) by (simp add: alloc_post_def)
  define N where "N = unat (vm_mmsz V)"
  define A where "A = loc (vm_file V + vm_pgoff V)"
  note ok' = ok [folded V_def, unfolded area_ok_def Let_def, folded N_def A_def]
  have fit: "unat (vm_start V) + unat (vm_mmsz V) + 4096 < 2 ^ 48" "unat (vm_start V) + (N + 7) < 2 ^ 48"
    using ok' unfolding N_def by simp_all
  have cov: "\<forall>i<N + 7. (unat (vm_start V) + i) div 4096 < unat (vm_start V) div 4096 + region_pages (vm_start V) (vm_mmsz V)"
  proof (intro allI impI)
    fix i assume "i < N + 7"
    then have "(unat (vm_start V) + i) div 4096 \<le> (unat (vm_start V) + N + 6) div 4096" by (intro div_le_mono) simp
    then show "(unat (vm_start V) + i) div 4096 < unat (vm_start V) div 4096 + region_pages (vm_start V) (vm_mmsz V)" using ok' by simp
  qed
  have room2: "lo + 1 + 4 * region_pages (vm_start V) (vm_mmsz V) \<le> hi" using room by (simp add: V_def)
  obtain k3 lo' g where g: "region_alloc ?k2 (frame_ptr c) (vm_start V) (vm_mmsz V) = Some k3" "pt_step ?k2 k3 c (lo + 1) lo' hi n"
      "\<forall>i<N + 7. upage k3 c lo' hi (vm_start V + of_nat i) (g i) \<and> lo + 1 \<le> g i"
      "inj_on (\<lambda>i. upos (vm_start V + of_nat i) (g i)) {..<N + 7}"
      "\<forall>w. \<not> in_area V w \<longrightarrow> pmap k3 c w = pmap ?k2 c w"
    using region_upages [OF w2(1) fit(1) room2 fit(2) cov, folded in_area_def] by (elim exE conjE) (rule that)
  have inv3: "pt_inv k3 c lo' hi n" "lo + 1 \<le> lo'" "keeps ?k2 k3 c (lo + 1) hi" using g(2) by (auto simp: pt_step_keeps)
  have free3: "free_list k3 = free_list ?k" using inv3(3) free by (simp add: keeps_def)
  have u3: "\<forall>i<N + 7. upage k3 c lo' hi (vm_start V + of_nat i) (g i)" using g(3) by blast
  have src: "\<forall>j<N. loc (vm_file V + vm_pgoff V + of_nat j) = A + j" "A + N + 7 \<le> unat (free_list k3)"
    using ok' free3 by auto
  obtain m' where m': "fork_data (kmem k3) (of_nat (4096 * c)) (vm_start V) (vm_file V + vm_pgoff V) N = Some m'"
      "data_only k3 c lo' hi m'" "\<forall>i<N + 7. 0 < N \<longrightarrow> m' (upos (vm_start V + of_nat i) (g i)) = kmem k3 (A + i)"
      "\<forall>a. a \<notin> (\<lambda>i. upos (vm_start V + of_nat i) (g i)) ` {..<N + 7} \<longrightarrow> m' a = kmem k3 a"
    using fork_data_ok [OF inv3(1) u3 g(4) src, where j = 0 and w = N and m = "kmem k3"] by (auto simp: data_only_def)
  let ?k' = "k3\<lparr>kmem := m'\<rparr>"
  note w' = data_write [OF inv3(1) m'(2)]
  have new: "m' a = kmem k3 a" if "a < 4096 * (lo + 1)" for a
  proof -
    have "a \<noteq> upos (vm_start V + of_nat i) (g i)" if i: "i < N + 7" for i
    proof -
      have "4096 * (lo + 1) \<le> upos (vm_start V + of_nat i) (g i)"
        using g(3) i upos_page(1) [where g = "g i" and va = "vm_start V + of_nat i"] by (meson le_trans mult_le_mono2)
      then show ?thesis using \<open>a < 4096 * (lo + 1)\<close> by simp
    qed
    then show ?thesis using m'(4) by blast
  qed
  have F3: "unat (free_list k3) \<le> 4096 * (lo + 1)" using F free free3 by simp
  have keep3: "keeps ?k2 ?k' c (lo + 1) hi" using keeps_trans [OF inv3(3) keeps_write [OF inv3(1) m'(2) _ F3]] new by blast
  have keep: "keeps ?k ?k' c lo hi" by (rule keeps_trans [OF keep2 keeps_mono [OF keep3]]) simp
  have T2: "lo \<in> table_frames ?k2 (lo + 1) hi" "off_tree ?k2 c lo" using T w2(4) by (simp_all add: table_frames_def)
  have "vma_at m' (frame_ptr lo) = V\<lparr>vm_mm := 0, vm_next := 0\<rparr>" using keeps_vma [OF keep3 T2 ll] C2 by simp
  moreover have "uimage ?k' c lo' hi (vm_start V) (area_bytes (kmem_of s) V)"
    unfolding uimage_def
  proof (intro allI impI)
    fix i assume "i < length (area_bytes (kmem_of s) V)"
    then have i: "i < N" by (simp add: area_bytes_def N_def)
    have "kmem k3 (A + i) = kmem_of s (A + i)"
    proof -
      have "same_on 0 (unat (free_list ?k)) (kmem ?k2) (kmem ?k)" "same_on 0 (unat (free_list ?k)) (kmem k3) (kmem ?k2)"
        using keep2 inv3(3) free by (auto simp: keeps_def)
      then show ?thesis using src(2) i free3 by (auto simp: same_on_def)
    qed
    then have "m' (upos (vm_start V + of_nat i) (g i)) = area_bytes (kmem_of s) V ! i"
      using m'(3) i by (simp add: area_bytes_def N_def A_def)
    moreover have "upage ?k' c lo' hi (vm_start V + of_nat i) (g i)" using u3 i by (simp add: upage_write(1) [OF inv3(1) m'(2)])
    ultimately show "\<exists>g. upage ?k' c lo' hi (vm_start V + of_nat i) g \<and> kmem ?k' (upos (vm_start V + of_nat i) g) = area_bytes (kmem_of s) V ! i"
      by auto
  qed
  moreover have "fork_vma s child (frame_ptr v) = Some (s\<lparr>vm := (vm s)\<lparr>vkst := ?k'\<rparr>,
      mms := (mms s)(mm t \<mapsto> r\<lparr>mm_mmap := frame_ptr lo, mm_count := mm_count r + 1\<rparr>)\<rparr>)"
    using t(1,2) k1(1) V1 V2 g(1) m'(1) cr by (simp add: fork_vma_def Let_def set_kmem_def N_def del: of_nat_mult)
  moreover have "\<forall>w. \<not> in_area V w \<longrightarrow> pmap ?k' c w = pmap ?k c w" using g(5) w'(3) w2(3) a(2) by simp
  ultimately show ?thesis
    using w'(1) inv3(2) keep unfolding V_def [symmetric] by (intro exI [of _ ?k'] exI [of _ lo']) simp
qed

lemma new_space_pages:
  assumes "fl_inv k lo hi n" and "c < hi" and "k = vkst (vm s)"
  shows "\<exists>m'. new_space s (frame_ptr c) = set_kmem s m' \<and> pages_only m' (kmem k) {c}"
proof -
  have tc: "is_table (frame_ptr c) c" unfolding frame_ptr_def by (rule table_pointers(1) [OF assms(1,2)])
  have one: "pages_only (set_entry m (frame_ptr c) (of_nat i) v) m {c}" if "i < 512" for m i v
    using tc that st64_word(1) [OF that] by (simp add: set_entry_def is_table_def)
  have "j \<le> 512 \<Longrightarrow> pages_only (fold (\<lambda>i m. set_entry m (frame_ptr c) (of_nat i) 0) [0..<j] m) m {c}" for j m
  proof (induction j)
    case (Suc j)
    then show ?case using pages_only_trans [OF one [of j]] by simp
  qed simp
  from this [of 512] have cl: "pages_only (clear_table m (frame_ptr c)) m {c}" for m by (simp add: clear_table_def)
  let ?m = "clear_table (kmem k) (frame_ptr c)"
  have "pages_only (set_entry ?m (frame_ptr c) 511 v) (kmem k) {c}" for v
    using pages_only_trans [OF one [of 511] cl] by simp
  then show ?thesis using assms(3) by (auto simp: new_space_def Let_def)
qed

section \<open>The steps of sys_fork\<close>

definition fork_pcb :: "task_struct \<Rightarrow> u64 \<Rightarrow> u64 \<Rightarrow> nat \<Rightarrow> task_struct" where
  "fork_pcb p child num l = zero_task\<lparr>mm := child + 32976, pid := num, ppid := pid p,
     tname := (\<lambda>i. if i < l then tname p i else 0)\<rparr>"

lemma fork_task_ok:
  assumes q: "queue_inv s xs lo hi n" "xs \<noteq> []" and inv: "pt_inv (vkst (vm s)) r lo hi n" and room: "lo + 10 \<le> hi"
    and new: "tasks s (frame_ptr lo) = None" and name: "name_len (tname p) = Some l"
    and num: "int_ok (PID s + 1)" "int_ok (int (length xs) + 1)"
  shows "\<exists>s1 k. fork_task s p = Some (s1, frame_ptr lo) \<and> queue_inv s1 (xs @ [frame_ptr (lo + 9)]) (lo + 10) hi n \<and>
    nproc s1 (frame_ptr (lo + 9)) = frame_ptr lo \<and> (\<forall>x\<in>set xs. nproc s1 x = nproc s x) \<and>
    tasks s1 = (tasks s)(frame_ptr lo \<mapsto> fork_pcb p (frame_ptr lo) (of_int (PID s)) l) \<and>
    mms s1 = (mms s)(frame_ptr lo + 32976 \<mapsto> \<lparr>mm_count = 0, mm_mmap = 0\<rparr>) \<and> PID s1 = PID s + 1 \<and>
    running_task s1 = running_task s \<and> vm s1 = (vm s)\<lparr>vkst := k\<rparr> \<and> pt_step (vkst (vm s)) k r lo (lo + 10) hi n \<and>
    (\<forall>w. pmap k r w = pmap (vkst (vm s)) r w)"
proof -
  let ?c = "frame_ptr lo"
  have fl: "fl_inv (vkst (vm s)) lo hi n" using inv by (simp add: pt_inv_def)
  have "pages_for 32976 = int 9" by (simp add: pages_for_def to_int_def)
  then obtain k1 where k1: "ksys_kmalloc s 32976 = Some (s\<lparr>vm := (vm s)\<lparr>vkst := k1\<rparr>\<rparr>, ?c)" "fl_inv k1 (lo + 9) hi n"
      "?c \<noteq> 0" "alloc_post (vkst (vm s)) k1 lo 9 hi"
    using ksys_kmalloc_ok [OF fl, of 32976 9] room by auto
  note a1 = pt_step_alloc [OF inv k1(2,4)]
  have inv1: "pt_inv k1 r (lo + 9) hi n" using a1(1) by (simp add: pt_step_def)
  let ?s1 = "s\<lparr>vm := (vm s)\<lparr>vkst := k1\<rparr>, mms := (mms s)(?c + 32976 \<mapsto> \<lparr>mm_count = 0, mm_mmap = 0\<rparr>),
      PID := PID s + 1, tasks := (tasks s)(?c \<mapsto> fork_pcb p ?c (of_int (PID s)) l)\<rparr>"
  have np: "nproc ?s1 = nproc s" by (simp add: nproc_def fun_eq_iff)
  have notin: "?c \<notin> nproc s ` set xs" using q(1) new by (auto simp: queue_inv_def ready_queue_def)
  have q1: "queue_inv ?s1 xs (lo + 9) hi n"
  proof -
    have "nodes_below ?s1 (lo + 9)" using q(1) unfolding queue_inv_def nodes_below_def by simp (meson trans_less_add1)
    then show ?thesis using q(1) k1(2) np by (simp add: queue_inv_def ready_queue_def)
  qed
  obtain s2 k where s2: "add_to_task_list ?s1 ?c = Some s2" "queue_inv s2 (xs @ [frame_ptr (lo + 9)]) (Suc (lo + 9)) hi n"
      "nproc s2 (frame_ptr (lo + 9)) = ?c" "tasks s2 = tasks ?s1" "running_task s2 = running_task s" "vm s2 = (vm ?s1)\<lparr>vkst := k\<rparr>"
      "alloc_post k1 k (lo + 9) 1 hi" "mms s2 = mms ?s1" "PID s2 = PID ?s1" "\<forall>x\<in>set xs. nproc s2 x = nproc ?s1 x"
    using add_to_task_list_ok [OF q1, of ?c] room notin np num(2) q(2) by auto
  have fl2: "fl_inv k (lo + 9 + 1) hi n" using s2(2,6) by (simp add: queue_inv_def)
  note a2 = pt_step_alloc [OF inv1 fl2 s2(7)]
  have "pt_step (vkst (vm s)) k r lo (lo + 10) hi n" using pt_step_trans [OF a1(1) a2(1)] by (simp add: add.commute)
  moreover have "fork_task s p = Some (s2, ?c)"
    using k1(1,3) name num(1) s2(1) by (simp add: fork_task_def fork_pcb_def zero_task_def Let_def cong: if_cong)
  moreover have "queue_inv s2 (xs @ [frame_ptr (lo + 9)]) (lo + 10) hi n" using s2(2) by (simp add: add.commute)
  ultimately show ?thesis using s2 a1(2) a2(2) np by (intro exI [of _ s2] exI [of _ k]) simp
qed

text \<open>The address space of the child: \<open>c\<close> is its root, \<open>c + 1\<close> and \<open>c + 2\<close> are the buffers, \<open>c + 3\<close> the stack page.\<close>

lemma fork_space_ok:
  assumes inv: "pt_inv (vkst (vm s)) r c hi n" and room: "c + 7 \<le> hi" and cr: "cr3 (vm s) = of_nat (4096 * r)"
    and t: "tasks s child = Some t" "tasks s parent = Some p" "parent \<noteq> child" "is_table (t_pml4 p) r"
    and stk: "stack_page (vkst (vm s)) r c hi (ustack p) g"
  defines "us \<equiv> bumpPtr + of_nat (4096 * (c + 3))"
  shows "\<exists>k0 k lo'. fork_space s parent child = Some (s\<lparr>vm := (vm s)\<lparr>vkst := k, cr3 := of_nat (4096 * c)\<rparr>,
        tasks := (tasks s)(child \<mapsto> t\<lparr>t_pml4 := frame_ptr c, t_cr3 := of_nat (4096 * c), is_waiting := 0, sleep_time := 0,
          is_sleeping := 0, ustack := us\<rparr>)\<rparr>, frame_ptr (c + 1), frame_ptr (c + 2)) \<and>
    pt_inv k0 r (c + 3) hi n \<and> keeps (vkst (vm s)) k0 r c hi \<and> (\<forall>w. pmap k0 r w = pmap (vkst (vm s)) r w) \<and>
    (\<forall>f\<in>{c, c + 1, c + 2}. f \<in> table_frames k0 (c + 3) hi \<and> off_tree k0 r f) \<and>
    (\<forall>i<512. tabs (kmem k0) (c + 1) i = kstack p i \<and> tabs (kmem k0) (c + 2) i = tabs (kmem_of s) g i \<and>
       tabs (kmem k0) c i = tabs (kmem k0) r i) \<and>
    pt_step k0 k c (c + 3) lo' hi n \<and> lo' \<le> c + 7 \<and> stack_page k c lo' hi us (c + 3) \<and>
    (\<forall>w. pgno w \<noteq> pgno us \<longrightarrow> pmap k c w = pmap k0 c w) \<and> loc (frame_ptr (c + 1)) = 4096 * (c + 1) \<and> loc (frame_ptr (c + 2)) = 4096 * (c + 2)"
proof -
  let ?k = "vkst (vm s)"
  have fl: "fl_inv ?k c hi n" using inv by (simp add: pt_inv_def)
  have pages: "pages_for 24 = int 1" "pages_for 1 = int 1" by (simp_all add: pages_for_def to_int_def)
  obtain k1 where k1: "ksys_kmalloc s 24 = Some (s\<lparr>vm := (vm s)\<lparr>vkst := k1\<rparr>\<rparr>, frame_ptr c)" "fl_inv k1 (c + 1) hi n" "alloc_post ?k k1 c 1 hi"
    using ksys_kmalloc_ok [OF fl pages(1)] room by auto
  note a1 = pt_step_alloc [OF inv k1(2,3)]
  have inv1: "pt_inv k1 r (c + 1) hi n" using a1(1) by (simp add: pt_step_def)
  have T1: "c \<in> table_frames k1 (c + 1) hi" "off_tree k1 r c"
    using fl_invD(2) [OF fl] k1(3) a1(3) [of c] by (auto simp: table_frames_def alloc_post_def)
  let ?s1 = "s\<lparr>vm := (vm s)\<lparr>vkst := k1\<rparr>\<rparr>"
  obtain m2 where m2: "new_space ?s1 (frame_ptr c) = set_kmem ?s1 m2" "pages_only m2 (kmem k1) {c}"
    using new_space_pages [of k1 "c + 1" hi n c ?s1] k1(2) room by auto
  let ?k2 = "k1\<lparr>kmem := m2\<rparr>" and ?s2 = "set_kmem ?s1 m2"
  have d2: "data_only k1 r (c + 1) hi m2" using pages_only_data [OF m2(2)] T1 by simp
  note w2 = data_write [OF inv1 d2]
  have fl2: "fl_inv (vkst (vm ?s2)) (c + 1) hi n" using w2(1) by (simp add: pt_inv_def)
  obtain k3 where k3: "ksys_kmalloc ?s2 1 = Some (?s2\<lparr>vm := (vm ?s2)\<lparr>vkst := k3\<rparr>\<rparr>, frame_ptr (c + 1))" "fl_inv k3 (c + 1 + 1) hi n"
      "alloc_post ?k2 k3 (c + 1) 1 hi"
    using ksys_kmalloc_ok [OF fl2 pages(2)] room by auto
  note a3 = pt_step_alloc [OF w2(1) k3(2,3)]
  have inv3: "pt_inv k3 r (c + 1 + 1) hi n" using a3(1) by (simp add: pt_step_def)
  let ?s3 = "?s2\<lparr>vm := (vm ?s2)\<lparr>vkst := k3\<rparr>\<rparr>"
  have fl3: "fl_inv (vkst (vm ?s3)) (c + 2) hi n" using inv3 by (simp add: pt_inv_def)
  obtain k4 where k4: "ksys_kmalloc ?s3 1 = Some (?s3\<lparr>vm := (vm ?s3)\<lparr>vkst := k4\<rparr>\<rparr>, frame_ptr (c + 2))" "fl_inv k4 (c + 2 + 1) hi n"
      "alloc_post k3 k4 (c + 2) 1 hi"
    using ksys_kmalloc_ok [OF fl3 pages(2)] room by auto
  have inv3': "pt_inv k3 r (c + 2) hi n" using inv3 by simp
  note a4 = pt_step_alloc [OF inv3' k4(2,3)]
  have step: "pt_step ?k2 k4 r (c + 1) (c + 3) hi n" using pt_step_trans [OF a3(1)] a4(1) by (simp add: numeral_3_eq_3)
  have inv4: "pt_inv k4 r (c + 3) hi n" using step by (simp add: pt_step_def)
  have F: "unat (free_list ?k) + 24 * hi \<le> 4096 * c" using fl_invD(2) [OF fl] by simp
  have free: "free_list k1 = free_list ?k" "free_list k3 = free_list ?k" "free_list k4 = free_list ?k"
    using k1(3) k3(3) k4(3) by (auto simp: alloc_post_def)
  have keep4: "keeps ?k k4 r c hi"
  proof -
    have "m2 a = kmem k1 a" if "a < 4096 * c" for a
    proof -
      have "a div 4096 \<noteq> c" using that by (metis less_mult_imp_div_less mult.commute nat_neq_iff)
      then show ?thesis using m2(2) by (auto simp: pages_only_def)
    qed
    then have "keeps k1 ?k2 r c hi" using keeps_write [OF inv1 d2, of c] F free by simp
    moreover have "keeps ?k k1 r c hi" using a1(1) by (simp add: pt_step_keeps)
    moreover have "keeps ?k2 k4 r c hi" using step keeps_mono [of ?k2 k4 r "c + 1" hi c] by (simp add: pt_step_keeps)
    ultimately show ?thesis by (blast intro: keeps_trans)
  qed
  have T4: "\<forall>f\<in>{c, c + 1, c + 2}. f \<in> table_frames k4 (c + 3) hi \<and> off_tree k4 r f"
  proof -
    have "off_tree ?k2 r c" "c \<in> table_frames ?k2 (c + 1) hi" using T1 w2(4) by (auto simp: table_frames_def)
    then have "off_tree k4 r c" using step by (auto simp: pt_step_def)
    moreover have "off_tree k4 r (c + 1)"
      using a4(1) a3(3) [of "c + 1"] F free by (auto simp: pt_step_def table_frames_def)
    moreover have "off_tree k4 r (c + 2)" using a4(3) [of "c + 2"] by simp
    ultimately show ?thesis using F free(3) by (auto simp: table_frames_def)
  qed
  have pm4: "pmap k4 r w = pmap ?k r w" for w using a1(2) w2(3) a3(2) a4(2) by simp
  have "keeps ?k k4 r c hi \<Longrightarrow> g \<in> table_frames ?k c hi \<Longrightarrow> off_tree ?k r g \<Longrightarrow> off_tree k4 r g \<and> same_on (4096 * g) 4096 (kmem k4) (kmem ?k)"
    by (auto simp: keeps_def)
  then have g4: "off_tree k4 r g" "same_on (4096 * g) 4096 (kmem k4) (kmem ?k)" "g < c"
    using keep4 stk by (auto simp: stack_page_def upage_def table_frames_def dest!: spec [of _ 0])
  have stk4: "stack_page k4 r (c + 3) hi (ustack p) g"
    using stk g4 pm4 free(3) by (auto simp: stack_page_def upage_def table_frames_def)
  have lp: "loc (frame_ptr f) = 4096 * f" "is_table (frame_ptr f) f" if "f < hi" for f
    using frame_ptr_loc [OF fl that] table_pointers(1) [OF fl that] by (simp_all add: frame_ptr_def)
  have lps: "loc (frame_ptr (c + 1)) = 4096 * (c + 1)" "loc (frame_ptr (c + 2)) = 4096 * (c + 2)" "is_table (frame_ptr c) c"
    using lp room by auto
  have g5: "g \<notin> {c, c + 1, c + 2}" using g4(3) by auto
  obtain m5 where m5: "fork_copy (kmem k4) (of_nat (4096 * r)) p (frame_ptr (c + 1)) (frame_ptr (c + 2)) (frame_ptr c) 0 512 = Some m5"
      "copied (kmem k4) p r g c (c + 1) (c + 2) 512 m5"
    using fork_copy_ok [OF inv4 stk4 T4 _ g5 lps t(4), of 0 512 "kmem k4"] by (auto simp: copied_def)
  let ?kz = "k4\<lparr>kmem := m5\<rparr>"
  have P5: "pages_only m5 (kmem k4) {c, c + 1, c + 2}" using m5(2) by (simp add: copied_def)
  have d5: "data_only k4 r (c + 3) hi m5" by (rule pages_only_data [OF P5 T4])
  note w5 = data_write [OF inv4 d5]
  have T5: "\<forall>f\<in>{c, c + 1, c + 2}. f \<in> table_frames ?kz (c + 3) hi \<and> off_tree ?kz r f" using T4 w5(4) by (simp add: table_frames_def)
  have "r \<notin> {c, c + 1, c + 2}" using T4 by (auto simp: off_tree_def walk.simps valid_path_def dest!: spec [of _ "[]"])
  from tabs_same_page [OF pages_only_page [OF P5 this]] have "tabs m5 r i = tabs (kmem k4) r i" if "i < 512" for i using that by blast
  then have W: "\<forall>i<512. tabs m5 (c + 1) i = kstack p i \<and> tabs m5 (c + 2) i = tabs (kmem_of s) g i \<and> tabs m5 c i = tabs m5 r i"
    using m5(2) tabs_same_page [OF g4(2)] by (simp add: copied_def)
  have inv5: "pt_inv ?kz c (c + 3) hi n" using copied_root(1) [OF w5(1)] T5 W by simp
  obtain k lo' where k: "kmalloc_stack ?kz 1 (frame_ptr c) = Some (k, us)" "lo' \<le> c + 3 + 4" "pt_step ?kz k c (c + 3) lo' hi n"
      "\<forall>i<4096. upage k c lo' hi (us + of_nat i) (c + 3)" "\<forall>w. pgno w \<noteq> pgno us \<longrightarrow> pmap k c w = pmap ?kz c w"
    using kmalloc_stack_ok [OF inv5, folded frame_ptr_def us_def] room by auto
  have low: "low (4096 * (c + 3))" using table_low [OF fl, of "c + 3"] room by (auto simp: low_def)
  have "unat us mod 4096 = 0" "unat us + 4096 \<le> 2 ^ 64"
    unfolding us_def stack_addr(1) [OF low] using low by (simp_all add: bumpPtr_def low_def)
  then have stk': "stack_page k c lo' hi us (c + 3)" using k(4) by (simp add: stack_page_def)
  have keep5: "keeps ?k ?kz r c hi"
  proof -
    have "m5 a = kmem k4 a" if "a < 4096 * c" for a
    proof -
      have "a div 4096 < c" using that by (metis less_mult_imp_div_less mult.commute)
      then have "a div 4096 \<notin> {c, c + 1, c + 2}" by auto
      then show ?thesis using P5 by (auto simp: pages_only_def)
    qed
    then have "keeps k4 ?kz r c hi" using keeps_write [OF inv4 d5, of c] F free by simp
    then show ?thesis using keep4 by (blast intro: keeps_trans)
  qed
  have "PADDR (frame_ptr c) = of_nat (4096 * c)" by (simp add: frame_ptr_def)
  then have "fork_space s parent child = Some (s\<lparr>vm := (vm s)\<lparr>vkst := k, cr3 := of_nat (4096 * c)\<rparr>,
        tasks := (tasks s)(child \<mapsto> t\<lparr>t_pml4 := frame_ptr c, t_cr3 := of_nat (4096 * c), is_waiting := 0, sleep_time := 0,
          is_sleeping := 0, ustack := us\<rparr>)\<rparr>, frame_ptr (c + 1), frame_ptr (c + 2))"
    using k1(1) m2(1) k3(1) k4(1) t(1-3) cr m5(1) k(1)
    by (simp add: fork_space_def Let_def upd_task_def set_kmem_def LOAD_CR3_def del: of_nat_mult)
  then show ?thesis
    using w5(1,3) pm4 keep5 T5 W k(2,3,5) stk' lps by (intro exI [of _ ?kz] exI [of _ k] exI [of _ lo']) simp
qed

text \<open>The first word of a page that is not zero.\<close>

definition first_word :: "(nat \<Rightarrow> u64) \<Rightarrow> nat" where
  "first_word f = length (takeWhile (\<lambda>i. f i = 0) [0..<512])"

lemma first_used_word:
  assumes "loc tup = 4096 * tu" and "\<forall>i<512. tabs m tu i = f i"
  shows "first_used m tup 0 512 = first_word f"
proof -
  have "i + w = 512 \<Longrightarrow> first_used m tup i w = i + length (takeWhile (\<lambda>i. f i = 0) [i..<512])" for i w
  proof (induction w arbitrary: i)
    case (Suc w)
    then have "i < 512" by simp
    then have "[i..<512] = i # [Suc i..<512]" "ld64 m (loc tup + 8 * i) = f i"
      using assms by (auto simp: upt_conv_Cons tabs_def)
    then show ?case using Suc by simp
  qed simp
  from this [of 0 512] show ?thesis by (simp add: first_word_def)
qed

section \<open>sys_fork as a whole\<close>

text \<open>
  A state in which the running process can fork: it is in the queue, its root and its stack page are
  where the structure says, it has one memory area, and there are enough free frames.
\<close>

definition forkable :: "ksys \<Rightarrow> u64 list \<Rightarrow> nat \<Rightarrow> nat \<Rightarrow> nat \<Rightarrow> nat \<Rightarrow> task_struct \<Rightarrow> nat \<Rightarrow> nat \<Rightarrow> bool" where
  "forkable s xs r lo hi n p g v \<longleftrightarrow>
     queue_inv s xs lo hi n \<and> running_task s \<in> set xs \<and> tasks s (nproc s (running_task s)) = Some p \<and>
     tasks s (frame_ptr lo) = None \<and> name_len (tname p) \<noteq> None \<and> int_ok (PID s + 1) \<and> int_ok (int (length xs) + 1) \<and>
     pt_inv (vkst (vm s)) r lo hi n \<and> cr3 (vm s) = of_nat (4096 * r) \<and> t_pml4 p = frame_ptr r \<and>
     stack_page (vkst (vm s)) r lo hi (ustack p) g \<and>
     mm p \<noteq> frame_ptr lo + 32976 \<and> (\<exists>a. mms s (mm p) = Some a \<and> mm_mmap a = frame_ptr v) \<and> frame_ptr v \<noteq> 0 \<and>
     v \<in> table_frames (vkst (vm s)) lo hi \<and> off_tree (vkst (vm s)) r v \<and>
     (let V = vma_at (kmem_of s) (frame_ptr v) in area_ok (unat (free_list (vkst (vm s)))) V \<and> vm_next V = 0 \<and>
        \<not> in_area V (bumpPtr + of_nat (4096 * (lo + 13))) \<and> lo + 18 + 4 * region_pages (vm_start V) (vm_mmsz V) \<le> hi)"

definition child_of :: "u64 \<Rightarrow> task_struct \<Rightarrow> u64 \<Rightarrow> u64 \<Rightarrow> u64 \<Rightarrow> nat \<Rightarrow> task_struct \<Rightarrow> bool" where
  "child_of isr32 p addr num us i t \<longleftrightarrow> pid t = num \<and> ppid t = pid p \<and> ustack t = us \<and> mm t = addr + 32976 \<and>
     is_waiting t = 0 \<and> is_sleeping t = 0 \<and> is_bg t = 0 \<and> t_rsp t = addr + 8 + 8 * 491 \<and>
     kstack t 511 = 0x23 \<and> kstack t 510 = us + 8 * (of_nat i + 1) \<and> kstack t 509 = 0x200286 \<and> kstack t 508 = 0x1b \<and>
     kstack t 507 = kstack p 506 \<and> kstack t 506 = 0 \<and> kstack t 491 = isr32 + 29 \<and>
     (\<forall>j<506. j \<noteq> 491 \<longrightarrow> kstack t j = kstack p j)"

lemma sys_fork_ok:
  assumes ready: "forkable s xs r lo hi n p g v"
  defines "us \<equiv> bumpPtr + of_nat (4096 * (lo + 13))" and "V \<equiv> vma_at (kmem_of s) (frame_ptr v)" and "c \<equiv> lo + 10"
  shows "\<exists>s' k' lo' t. sys_fork isr32 s = Some (s', of_int (PID s)) \<and> vm s' = (vm s)\<lparr>vkst := k', cr3 := t_cr3 p\<rparr> \<and>
    queue_inv s' (xs @ [frame_ptr (lo + 9)]) lo' hi n \<and> nproc s' (frame_ptr (lo + 9)) = frame_ptr lo \<and>
    running_task s' = running_task s \<and> PID s' = PID s + 1 \<and> tasks s' = (tasks s)(frame_ptr lo \<mapsto> t) \<and>
    t_pml4 t = frame_ptr c \<and> t_cr3 t = of_nat (4096 * c) \<and> child_of isr32 p (frame_ptr lo) (of_int (PID s)) us (first_word (tabs (kmem_of s) g)) t \<and>
    pt_inv k' c lo' hi n \<and> stack_page k' c lo' hi us (lo + 13) \<and> (\<forall>i<512. tabs (kmem k') (lo + 13) i = tabs (kmem_of s) g i) \<and>
    uimage k' c lo' hi (vm_start V) (area_bytes (kmem_of s) V) \<and> r < lo \<and>
    (\<forall>w. IS_PRESENT_PAGE (tabs (kmem_of s) r (unat (pml4_index w))) \<longrightarrow> pmap k' r w = pmap k' c w)"
proof -
  let ?K = "vkst (vm s)" and ?child = "frame_ptr lo"
  define parent where "parent = nproc s (running_task s)"
  note R = ready [unfolded forkable_def Let_def, folded V_def us_def parent_def]
  have q: "queue_inv s xs lo hi n" and run: "running_task s \<in> set xs" and par: "tasks s parent = Some p" "tasks s ?child = None"
    and inv: "pt_inv ?K r lo hi n" and cr: "cr3 (vm s) = of_nat (4096 * r)" "t_pml4 p = frame_ptr r"
    and stk: "stack_page ?K r lo hi (ustack p) g" and v: "frame_ptr v \<noteq> 0" "v \<in> table_frames ?K lo hi" "off_tree ?K r v"
    and ar: "area_ok (unat (free_list ?K)) V" "vm_next V = 0" "\<not> in_area V us"
    and room: "lo + 18 + 4 * region_pages (vm_start V) (vm_mmsz V) \<le> hi" and num: "int_ok (PID s + 1)" "int_ok (int (length xs) + 1)"
    and mmp: "mm p \<noteq> ?child + 32976"
    using R by blast+
  obtain l where l: "name_len (tname p) = Some l" using R by auto
  obtain a where a: "mms s (mm p) = Some a" "mm_mmap a = frame_ptr v" using R by blast
  have ne: "parent \<noteq> ?child" "xs \<noteq> []" "lo + 10 \<le> hi" using par run room by auto
  have rq: "ready_queue s xs" using q by (simp add: queue_inv_def)
  have fl: "fl_inv ?K lo hi n" using inv by (simp add: pt_inv_def)
  have vlo: "v < lo" "v < hi" using v(2) room by (simp_all add: table_frames_def)
  note lv = frame_ptr_loc [OF fl vlo(2)]
  obtain s1 k1 where s1: "fork_task s p = Some (s1, ?child)" "queue_inv s1 (xs @ [frame_ptr (lo + 9)]) c hi n"
      "nproc s1 (frame_ptr (lo + 9)) = ?child" "tasks s1 = (tasks s)(?child \<mapsto> fork_pcb p ?child (of_int (PID s)) l)"
      "mms s1 = (mms s)(?child + 32976 \<mapsto> \<lparr>mm_count = 0, mm_mmap = 0\<rparr>)" "PID s1 = PID s + 1" "running_task s1 = running_task s"
      "vm s1 = (vm s)\<lparr>vkst := k1\<rparr>" "pt_step ?K k1 r lo c hi n" "\<forall>w. pmap k1 r w = pmap ?K r w"
    using fork_task_ok [OF q ne(2) inv ne(3) par(2) l num, folded c_def] by (elim exE conjE) (rule that)
  have inv1: "pt_inv k1 r c hi n" and keep1: "keeps ?K k1 r lo hi" using s1(9) by (auto simp: pt_step_keeps)
  have root: "r \<in> table_frames ?K lo hi" "walk (tabs (kmem ?K)) r [] = Some r" "valid_path []"
    using inv tree_in [of "tabs (kmem ?K)" r "table_frames ?K lo hi" "[]" r] by (auto simp: pt_inv_def walk.simps valid_path_def)
  have rlo: "r < lo" "r < hi" using root(1) room by (auto simp: table_frames_def)
  have g: "g \<in> table_frames ?K lo hi" "off_tree ?K r g" using stk by (auto simp: stack_page_def upage_def dest!: spec [of _ 0])
  have g1: "off_tree k1 r g" "same_on (4096 * g) 4096 (kmem k1) (kmem ?K)" using keep1 g by (auto simp: keeps_def)
  have free1: "free_list k1 = free_list ?K" using keep1 by (simp add: keeps_def)
  have stk1: "stack_page k1 r c hi (ustack p) g"
    using stk g1 s1(10) free1 by (auto simp: stack_page_def upage_def table_frames_def c_def)
  have tr: "is_table (t_pml4 p) r" unfolding cr(2) frame_ptr_def by (rule table_pointers(1) [OF fl rlo(2)])
  have cr1: "cr3 (vm s1) = of_nat (4096 * r)" "vkst (vm s1) = k1" using cr(1) s1(8) by simp_all
  let ?t1 = "fork_pcb p ?child (of_int (PID s)) l"
  have t1: "tasks s1 ?child = Some ?t1" "tasks s1 parent = Some p" using s1(4) par(1) ne(1) by simp_all
  have c7: "c + 7 \<le> hi" "c + 3 = lo + 13" using room by (simp_all add: c_def)
  obtain k0 k lo1 where sp: "fork_space s1 parent ?child = Some (s1\<lparr>vm := (vm s1)\<lparr>vkst := k, cr3 := of_nat (4096 * c)\<rparr>,
        tasks := (tasks s1)(?child \<mapsto> ?t1\<lparr>t_pml4 := frame_ptr c, t_cr3 := of_nat (4096 * c), is_waiting := 0, sleep_time := 0,
          is_sleeping := 0, ustack := us\<rparr>)\<rparr>, frame_ptr (c + 1), frame_ptr (c + 2))"
      "pt_inv k0 r (c + 3) hi n" "keeps k1 k0 r c hi"
      "\<forall>f\<in>{c, c + 1, c + 2}. f \<in> table_frames k0 (c + 3) hi \<and> off_tree k0 r f"
      "\<forall>i<512. tabs (kmem k0) (c + 1) i = kstack p i \<and> tabs (kmem k0) (c + 2) i = tabs (kmem k1) g i \<and>
         tabs (kmem k0) c i = tabs (kmem k0) r i"
      "pt_step k0 k c (c + 3) lo1 hi n" "lo1 \<le> c + 7" "stack_page k c lo1 hi us (c + 3)"
      "loc (frame_ptr (c + 1)) = 4096 * (c + 1)" "loc (frame_ptr (c + 2)) = 4096 * (c + 2)"
    using fork_space_ok [of s1 r c hi n ?child ?t1 parent p g, unfolded cr1(2), OF inv1 c7(1) cr1(1) t1 ne(1) tr stk1, unfolded c7(2), folded us_def c7(2)]
    by (elim exE conjE) (rule that)
  have Tc: "c \<in> table_frames k0 (c + 3) hi" "off_tree k0 r c" using sp(4) by auto
  have eqc: "\<forall>i<512. tabs (kmem k0) c i = tabs (kmem k0) r i" using sp(5) by blast
  note cp = copied_root [OF sp(2) Tc eqc]
  have inv3: "pt_inv k c lo1 hi n" "c + 3 \<le> lo1" "keeps k0 k c (c + 3) hi" using sp(6) by (auto simp: pt_step_keeps)
  have free: "free_list k0 = free_list ?K" "free_list k = free_list ?K"
    using sp(3) inv3(3) free1 by (auto simp: keeps_def)
  have buf: "off_tree k0 c (c + 1)" "off_tree k0 c (c + 2)" using sp(4) cp(3) by auto
  have words: "tabs (kmem k) (c + 1) i = kstack p i" "tabs (kmem k) (c + 2) i = tabs (kmem_of s) g i" if "i < 512" for i
  proof -
    have "same_on (4096 * f) 4096 (kmem k) (kmem k0)" if "f \<in> {c + 1, c + 2}" for f
      using inv3(3) sp(4) buf that by (auto simp: keeps_def)
    from tabs_same_page [OF this that] show "tabs (kmem k) (c + 1) i = kstack p i" "tabs (kmem k) (c + 2) i = tabs (kmem_of s) g i"
      using sp(5) that tabs_same_page [OF g1(2) that] by auto
  qed
  have st: "c + 3 \<in> table_frames k lo1 hi" "off_tree k c (c + 3)"
    using sp(8) by (auto simp: stack_page_def upage_def dest!: spec [of _ 0])
  let ?t2 = "?t1\<lparr>t_pml4 := frame_ptr c, t_cr3 := of_nat (4096 * c), is_waiting := 0, sleep_time := 0, is_sleeping := 0, ustack := us\<rparr>"
  obtain m4 ks where m4: "fork_stacks (kmem k) (of_nat (4096 * c)) us (frame_ptr (c + 1)) (frame_ptr (c + 2)) (kstack ?t2) 0 512 = Some (m4, ks)"
      "pages_only m4 (kmem k) {c + 3}" "\<forall>i<512. tabs m4 (c + 3) i = tabs (kmem k) (c + 2) i \<and> ks i = tabs (kmem k) (c + 1) i"
    using fork_stacks_ok [OF inv3(1) sp(8) st _ _ sp(9,10), of 0 512 "kmem k" "kstack ?t2"] by auto
  let ?k4 = "k\<lparr>kmem := m4\<rparr>"
  have d4: "data_only k c lo1 hi m4" using pages_only_data [OF m4(2)] st by simp
  note w4 = data_write [OF inv3(1) d4]
  have buf4: "tabs m4 f i = tabs (kmem k) f i" if "f \<in> {c + 1, c + 2}" "i < 512" for f i
    using tabs_same_page [OF pages_only_page [OF m4(2)]] that by auto
  have keep4: "keeps k0 ?k4 c (c + 3) hi"
  proof -
    have "m4 a = kmem k a" if "a < 4096 * (c + 3)" for a
    proof -
      have "a div 4096 < c + 3" using that by (metis less_mult_imp_div_less mult.commute)
      then show ?thesis using m4(2) by (auto simp: pages_only_def)
    qed
    moreover have "unat (free_list k) \<le> 4096 * (c + 3)" using st(1) by (simp add: table_frames_def)
    ultimately show ?thesis using keeps_trans [OF inv3(3) keeps_write [OF inv3(1) d4]] by blast
  qed
  have v0: "v \<in> table_frames k0 (c + 3) hi" "off_tree k0 c v" "vma_at (kmem k0) (frame_ptr v) = V"
  proof -
    have v1: "v \<in> table_frames k1 c hi" "off_tree k1 r v" using v keep1 free1 by (auto simp: keeps_def table_frames_def c_def)
    then show "v \<in> table_frames k0 (c + 3) hi" using free(1) free1 by (auto simp: table_frames_def)
    have "off_tree k0 r v" using sp(3) v1 by (auto simp: keeps_def)
    then show "off_tree k0 c v" using cp(3) vlo(1) by (simp add: c_def)
    show "vma_at (kmem k0) (frame_ptr v) = V"
      using keeps_vma [OF keep1 v(2,3) lv] keeps_vma [OF sp(3) v1 lv] by (simp add: V_def)
  qed
  have v4: "v \<in> table_frames ?k4 lo1 hi" "off_tree ?k4 c v" "vma_at m4 (frame_ptr v) = V"
    using v0 keep4 keeps_vma [OF keep4 v0(1,2) lv] inv3(2) free by (auto simp: keeps_def table_frames_def)
  let ?t3 = "?t2\<lparr>kstack := fork_frame isr32 us (first_word (tabs (kmem_of s) g)) (kstack p 506) ks, t_rsp := ?child + 8 + 8 * 491\<rparr>"
  let ?s4 = "s1\<lparr>vm := (vm s1)\<lparr>vkst := ?k4, cr3 := of_nat (4096 * c)\<rparr>, tasks := (tasks s1)(?child \<mapsto> ?t3)\<rparr>"
  have t3: "tasks ?s4 ?child = Some ?t3" "t_pml4 ?t3 = frame_ptr c" "mms ?s4 (mm ?t3) = Some \<lparr>mm_count = 0, mm_mmap = 0\<rparr>"
      "cr3 (vm ?s4) = of_nat (4096 * c)" "vkst (vm ?s4) = ?k4" "mm ?t3 = ?child + 32976" by (simp_all add: s1(5) fork_pcb_def)
  have ar4: "area_ok (unat (free_list (vkst (vm ?s4)))) (vma_at (kmem_of ?s4) (frame_ptr v))" using ar(1) v4(3) free by simp
  have room4: "lo1 + 1 + 4 * region_pages (vm_start (vma_at (kmem_of ?s4) (frame_ptr v))) (vm_mmsz (vma_at (kmem_of ?s4) (frame_ptr v))) \<le> hi"
    using room v4(3) sp(7) by (simp add: c_def)
  have V4: "vma_at (kmem ?k4) (frame_ptr v) = V" "kmem ?k4 = m4" using v4(3) by simp_all
  have i4: "pt_inv (vkst (vm ?s4)) c lo1 hi n" "v \<in> table_frames (vkst (vm ?s4)) lo1 hi" "off_tree (vkst (vm ?s4)) c v"
      "mm_mmap \<lparr>mm_count = 0, mm_mmap = 0\<rparr> = 0" using w4(1) v4(1,2) by simp_all
  obtain k' lo' where f: "fork_vma ?s4 ?child (frame_ptr v) = Some (?s4\<lparr>vm := (vm ?s4)\<lparr>vkst := k'\<rparr>,
        mms := (mms ?s4)(mm ?t3 \<mapsto> \<lparr>mm_count = 0, mm_mmap = 0\<rparr>\<lparr>mm_mmap := frame_ptr lo1, mm_count := mm_count \<lparr>mm_count = 0, mm_mmap = 0\<rparr> + 1\<rparr>)\<rparr>)"
      "pt_inv k' c lo' hi n" "lo1 \<le> lo'" "keeps ?k4 k' c lo1 hi" "uimage k' c lo' hi (vm_start V) (area_bytes m4 V)"
      "\<forall>w. \<not> in_area V w \<longrightarrow> pmap k' c w = pmap ?k4 c w"
    using fork_vma_ok [of ?s4 c lo1 hi n ?child ?t3, OF i4(1) t3(4) t3(1-3) i4(4) i4(2,3) ar4 room4, unfolded t3(5) V4(2), unfolded v4(3)]
    by (elim exE conjE) (rule that)
  have Vk: "vma_at (kmem k') (frame_ptr v) = V" using keeps_vma [OF f(4) v4(1,2) lv] v4(3) by simp
  have keep': "keeps k0 k' c (c + 3) hi" by (rule keeps_trans [OF keep4 keeps_mono [OF f(4) inv3(2)]])
  define s5 where "s5 = ?s4\<lparr>vm := (vm ?s4)\<lparr>vkst := k'\<rparr>,
        mms := (mms ?s4)(mm ?t3 \<mapsto> \<lparr>mm_count = 0, mm_mmap = 0\<rparr>\<lparr>mm_mmap := frame_ptr lo1, mm_count := mm_count \<lparr>mm_count = 0, mm_mmap = 0\<rparr> + 1\<rparr>)\<rparr>"
  have s5: "vm s5 = (vm s)\<lparr>vkst := k', cr3 := of_nat (4096 * c)\<rparr>" "tasks s5 = (tasks s)(?child \<mapsto> ?t3)" "rtasks s5 = rtasks s1"
      "queue_head s5 = queue_head s1" "task_count s5 = task_count s1" "running_task s5 = running_task s" "PID s5 = PID s + 1"
    by (simp_all add: s5_def s1(4,6,7,8))
  have vmas: "fork_vmas ?s4 ?child (frame_ptr v) = Some s5"
    using f(1) [folded s5_def] v(1) ar(2) Vk s5(1) by (simp add: fork_vmas.simps)
  let ?s' = "s5\<lparr>vm := LOAD_CR3 (vm s5) (t_cr3 p)\<rparr>"
  have fw: "first_used m4 (frame_ptr (c + 2)) 0 512 = first_word (tabs (kmem_of s) g)"
    by (rule first_used_word [OF sp(10)]) (use buf4 words(2) in auto)
  have rip: "ld64 m4 (loc (frame_ptr (c + 1)) + 8 * 506) = kstack p 506"
    using buf4 [of "c + 1" 506] words(1) [of 506] unfolding tabs_def sp(9) by simp
  have run': "sys_fork isr32 s = Some (?s', of_int (PID s))"
  proof -
    have rn: "get_running_task s = Some parent" using rq_node(1) [OF rq run] by (simp add: get_running_task_def parent_def)
    let ?s2 = "s1\<lparr>vm := (vm s1)\<lparr>vkst := k, cr3 := of_nat (4096 * c)\<rparr>, tasks := (tasks s1)(?child \<mapsto> ?t2)\<rparr>"
    have s2: "tasks ?s2 ?child = Some ?t2" "kmem_of ?s2 = kmem k" "cr3 (vm ?s2) = of_nat (4096 * c)" "ustack ?t2 = us" by simp_all
    have up: "upd_task (set_kmem ?s2 m4) ?child (\<lambda>t. t\<lparr>kstack := fork_frame isr32 (ustack t) (first_word (tabs (kmem_of s) g)) (kstack p 506) ks,
        t_rsp := ?child + 8 + 8 * 491\<rparr>) = Some ?s4"
      by (simp add: upd_task_def set_kmem_def)
    have p4: "tasks ?s4 parent = Some p" "mms ?s4 (mm p) = Some a" using s1(4,5) par(1) ne(1) a(1) mmp by simp_all
    have p5: "tasks s5 parent = Some p" "tasks s5 ?child = Some ?t3" "pid ?t3 = of_int (PID s)"
      using s5(2) par(1) ne(1) by (simp_all add: fork_pcb_def)
    show ?thesis
      unfolding sys_fork_def Let_def
      by (simp only: rn par(1) s1(1) sp(1) s2 m4(1) fw rip up p4 p5 a(2) vmas bind.bind_lunit prod.case)
  qed
  have q': "queue_inv ?s' (xs @ [frame_ptr (lo + 9)]) lo' hi n"
  proof -
    have np: "nproc ?s' = nproc s1" using s5(3) by (simp add: nproc_def fun_eq_iff)
    have "nodes_below ?s' lo'"
      using s1(2) s5(3) f(3) inv3(2) unfolding queue_inv_def nodes_below_def by simp (meson le_add1 less_le_trans order_trans)
    moreover have "fl_inv k' lo' hi n" using f(2) by (simp add: pt_inv_def)
    moreover have "ready_queue ?s' (xs @ [frame_ptr (lo + 9)])"
      using s1(2,4) s5(2-4) np unfolding queue_inv_def ready_queue_def by (auto split: if_splits)
    ultimately show ?thesis using s1(2) s5(1,5) by (simp add: queue_inv_def LOAD_CR3_def)
  qed
  have pg: "pgno (us + of_nat i) = pgno us" if "i < 4096" for i
  proof -
    have "unat us mod 4096 = 0" "unat us + 4096 \<le> 2 ^ 64" using sp(8) by (auto simp: stack_page_def)
    then have "unat (us + of_nat i) div 4096 = unat us div 4096"
      using that by (subst unat_add_index) (auto simp: mod_eq_0_iff_dvd elim!: dvdE)
    then show ?thesis by (simp add: pgno_def)
  qed
  have st4: "c + 3 \<in> table_frames ?k4 lo1 hi" "off_tree ?k4 c (c + 3)" using st w4(4) by (simp_all add: table_frames_def)
  then have st5: "off_tree k' c (c + 3)" "same_on (4096 * (c + 3)) 4096 (kmem k') m4" using f(4) by (auto simp: keeps_def)
  have free': "free_list k' = free_list k" using f(4) by (simp add: keeps_def)
  have stk': "stack_page k' c lo' hi us (c + 3)"
  proof -
    have "upage k' c lo' hi (us + of_nat i) (c + 3)" if i: "i < 4096" for i
    proof -
      have "\<not> in_area V (us + of_nat i)" using ar(3) pg [OF i] by (simp add: in_area_def)
      then have "pmap k' c (us + of_nat i) = pmap k c (us + of_nat i)" using f(6) w4(3) by simp
      then show ?thesis using sp(8) i st5(1) f(3) free' by (auto simp: stack_page_def upage_def table_frames_def)
    qed
    then show ?thesis using sp(8) by (simp add: stack_page_def)
  qed
  have tb: "tabs (kmem k') (lo + 13) i = tabs (kmem_of s) g i" if "i < 512" for i
    using tabs_same_page [OF st5(2) that] m4(3) words(2) [OF that] that unfolding c7(2) by simp
  have img: "uimage k' c lo' hi (vm_start V) (area_bytes (kmem_of s) V)"
  proof -
    have "same_on 0 (unat (free_list ?K)) m4 (kmem_of s)"
      using keep1 sp(3) keep4 free free1 by (auto simp: keeps_def same_on_def)
    then have "area_bytes m4 V = area_bytes (kmem_of s) V"
      using ar(1) by (auto simp: area_bytes_def area_ok_def Let_def same_on_def)
    then show ?thesis using f(5) by simp
  qed
  have share: "pmap k' r w = pmap k' c w" if pres: "IS_PRESENT_PAGE (tabs (kmem_of s) r (unat (pml4_index w)))" for w
  proof (rule shared_walks [OF eqc])
    show "walks_kept k0 k' c" using keep' by (simp add: keeps_def)
    have "r \<in> table_frames k0 (c + 3) hi" using root(1) free(1) by (auto simp: table_frames_def c_def)
    then show "same_on (4096 * r) 4096 (kmem k') (kmem k0)" using keep' cp(4) by (auto simp: keeps_def)
    have "valid_path [unat (pml4_index w)]" by (simp add: valid_path_def)
    moreover have "walk (tabs (kmem ?K)) r [unat (pml4_index w)] \<noteq> None" using pres by (simp add: walk.simps)
    ultimately have "walk (tabs (kmem k0)) r [unat (pml4_index w)] \<noteq> None"
      using keep1 sp(3) unfolding keeps_def walks_kept_def by fastforce
    then show "IS_PRESENT_PAGE (tabs (kmem k0) r (unat (pml4_index w)))" by (simp add: walk.simps split: if_splits)
  qed
  have child: "child_of isr32 p ?child (of_int (PID s)) us (first_word (tabs (kmem_of s) g)) ?t3"
    using m4(3) words(1) by (simp add: child_of_def fork_frame_def fork_pcb_def zero_task_def Let_def algebra_simps)
  show ?thesis
    using run' q' s1(3) s5 f(2) stk' tb img rlo(1) share child t3(2)
    unfolding c7(2) by (intro exI [of _ ?s'] exI [of _ k'] exI [of _ lo'] exI [of _ ?t3]) (simp add: nproc_def LOAD_CR3_def)
qed


lemma mapped_root:
  assumes "pmap k r w \<noteq> None"
  shows "IS_PRESENT_PAGE (tabs (kmem k) r (unat (pml4_index w)))"
  using assms by (simp add: pmap_def lookup_def path_of_def walk.simps split: if_splits)

lemma vld8_pmap:
  assumes "frame_of cr = r" and "frame_of cr' = c" and "pmap k r w = pmap k c w"
  shows "vld8 (kmem k) cr w = vld8 (kmem k) cr' w"
  using assms by (simp add: vld8_def vloc_def pmap_def)

section \<open>A process that can fork\<close>

definition demo_area :: vm_area_struct where
  "demo_area = \<lparr>vm_mm = 0, vm_start = 0x401040, vm_end = 0x401042, vm_file = VADDR 0, vm_pgoff = 179, vm_flags = 6, vm_mmsz = 2, vm_next = 0\<rparr>"

text \<open>Frame 3 holds the memory area, frame 4 is the stack page; then the pages of the area are mapped.\<close>

definition demo_fork_mem :: kst where
  "demo_fork_mem =
     (let k = fst (the (kmalloc (paged_st\<lparr>kmem := low_mem demo_elf (kmem paged_st)\<rparr>) 64));
          k = k\<lparr>kmem := set_vma (kmem k) (frame_ptr 3) demo_area\<rparr>;
          k = fst (the (kmalloc_stack k 1 (frame_ptr 2)))
      in the (region_alloc k (frame_ptr 2) 0x401040 2))"

definition demo_fork_task :: task_struct where
  "demo_fork_task = zero_task\<lparr>pid := 1, t_cr3 := 0x2000, t_pml4 := frame_ptr 2, ustack := bumpPtr + 0x4000, mm := 0x5000,
     kstack := (\<lambda>i. if i = 506 then 0x400123 else 0)\<rparr>"

definition demo_fork :: ksys where
  "demo_fork = (demo node0 node1 1)\<lparr>vm := \<lparr>vkst = demo_fork_mem, topVAddr = 0, ker_cr3 = 0x2000, ker_pml4_t = frame_ptr 2, cr3 = 0x2000\<rparr>,
     tasks := (demo_tasks 1)(0x1000 \<mapsto> demo_fork_task), mms := [0x5000 \<mapsto> \<lparr>mm_count = 1, mm_mmap = frame_ptr 3\<rparr>]\<rparr>"

lemma demo_fork_mem_ok:
  "\<exists>lo\<le>12. 5 \<le> lo \<and> pt_inv demo_fork_mem 2 lo 170 171 \<and> stack_page demo_fork_mem 2 lo 170 (bumpPtr + 0x4000) 4 \<and>
     3 \<in> table_frames demo_fork_mem lo 170 \<and> off_tree demo_fork_mem 2 3 \<and> free_list demo_fork_mem = 4096 \<and>
     vma_at (kmem demo_fork_mem) (frame_ptr 3) = demo_area \<and> (\<forall>i<2. pmap demo_fork_mem 2 (0x401040 + of_nat i) \<noteq> None)"
proof -
  let ?s0 = "paged_st\<lparr>kmem := low_mem demo_elf (kmem paged_st)\<rparr>"
  have inv0: "pt_inv ?s0 2 3 170 171" by (rule pt_inv_below [OF paged_inv(1)]) (simp add: paged_free_list low_mem_def)
  have fl: "fl_inv ?s0 3 170 171" using inv0 by (simp add: pt_inv_def)
  have "pages_for 64 = int 1" by (simp add: pages_for_def to_int_def)
  then obtain k1 where k1: "kmalloc ?s0 64 = Some (k1, frame_ptr 3)" "fl_inv k1 (3 + 1) 170 171" "alloc_post ?s0 k1 3 1 170"
    using kmalloc_frame [OF fl] by force
  note a = pt_step_alloc [OF inv0 k1(2,3)]
  have inv1: "pt_inv k1 2 4 170 171" using a(1) by (simp add: pt_step_def)
  have free1: "free_list k1 = 4096" using k1(3) paged_free_list by (simp add: alloc_post_def)
  have T1: "3 \<in> table_frames k1 4 170" "off_tree k1 2 3" using a(3) [of 3] by (simp_all add: table_frames_def free1)
  have l3: "loc (frame_ptr 3) = 4096 * 3" by (rule frame_ptr_loc [OF fl]) simp
  let ?k2 = "k1\<lparr>kmem := set_vma (kmem k1) (frame_ptr 3) demo_area\<rparr>"
  note d2 = set_vma_data [OF T1 l3, where v = demo_area]
  note w2 = data_write [OF inv1 d2(1)]
  have T2: "3 \<in> table_frames ?k2 4 170" "off_tree ?k2 2 3" using T1 w2(4) by (simp_all add: table_frames_def)
  have V2: "vma_at (kmem ?k2) (frame_ptr 3) = demo_area"
  proof -
    have "same_on (4096 * 3) 8 (kmem k1) (\<lambda>_. 0)" using a(4) [of 3] by (auto simp: same_on_def)
    then show ?thesis by (simp add: vma_at_set l3 ld64_same [where m = "kmem k1"] ld64_zero demo_area_def)
  qed
  have us: "bumpPtr + of_nat (4096 * 4) = bumpPtr + 0x4000" by simp
  obtain k3 lo3 where k3: "kmalloc_stack ?k2 1 (frame_ptr 2) = Some (k3, bumpPtr + 0x4000)" "lo3 \<le> 4 + 4" "pt_step ?k2 k3 2 4 lo3 170 171"
      "\<forall>i<4096. upage k3 2 lo3 170 (bumpPtr + 0x4000 + of_nat i) 4"
    using kmalloc_stack_ok [OF w2(1), folded frame_ptr_def, unfolded us] by force
  have inv3: "pt_inv k3 2 lo3 170 171" "4 \<le> lo3" "keeps ?k2 k3 2 4 170" using k3(3) by (auto simp: pt_step_keeps)
  have free3: "free_list k3 = 4096" using inv3(3) free1 by (simp add: keeps_def)
  have rp: "region_pages 0x401040 2 = 1" by (simp add: region_pages_def)
  have fit: "unat (0x401040 :: u64) + unat (2 :: u64) + 4096 < 2 ^ 48" "lo3 + 4 * region_pages 0x401040 2 \<le> 170"
    "unat (0x401040 :: u64) + 2 < 2 ^ 48" using k3(2) by (simp_all add: rp)
  have cov: "\<forall>i<2. (unat (0x401040 :: u64) + i) div 4096 < unat (0x401040 :: u64) div 4096 + region_pages 0x401040 2"
    by (auto simp: rp dest: less_2_cases)
  obtain k4 lo g where k4: "region_alloc k3 (frame_ptr 2) 0x401040 2 = Some k4" "lo \<le> lo3 + 4 * region_pages 0x401040 2" "pt_step k3 k4 2 lo3 lo 170 171"
      "\<forall>i<2. upage k4 2 lo 170 (0x401040 + of_nat i) (g i) \<and> lo3 \<le> g i"
      "\<forall>w. \<not> (unat (0x401040 :: u64) div 4096 \<le> pgno w \<and> pgno w < unat (0x401040 :: u64) div 4096 + region_pages 0x401040 2) \<longrightarrow> pmap k4 2 w = pmap k3 2 w"
    using region_upages [OF inv3(1) fit cov] by (elim exE conjE) (rule that)
  have inv4: "pt_inv k4 2 lo 170 171" "lo3 \<le> lo" "keeps k3 k4 2 lo3 170" using k4(3) by (auto simp: pt_step_keeps)
  have eq: "demo_fork_mem = k4" using k1(1) k3(1) k4(1) by (simp add: demo_fork_mem_def Let_def)
  have st3: "4 \<in> table_frames k3 lo3 170" "off_tree k3 2 4" using k3(4) by (auto simp: upage_def dest!: spec [of _ 0])
  have keep: "keeps ?k2 k4 2 4 170" by (rule keeps_trans [OF inv3(3) keeps_mono [OF inv4(3) inv3(2)]])
  have pg: "pgno (bumpPtr + 0x4000 + of_nat i) = 0xF0F080704" if "i < 4096" for i
  proof -
    have "unat (bumpPtr + 0x4000 + of_nat i) = unat (bumpPtr + 0x4000) + i" using that by (intro unat_add_index) (simp add: bumpPtr_def)
    also have "\<dots> = 4096 * 0xFFFFF0F080704 + i" by (simp add: bumpPtr_def)
    finally have u: "unat (bumpPtr + 0x4000 + of_nat i) = 4096 * 0xFFFFF0F080704 + i" .
    have "(4096 * 0xFFFFF0F080704 + i) div 4096 = 0xFFFFF0F080704" using that by (intro div_nat_eqI) simp_all
    then show ?thesis unfolding pgno_def u by simp
  qed
  have "stack_page k4 2 lo 170 (bumpPtr + 0x4000) 4"
  proof -
    have "upage k4 2 lo 170 (bumpPtr + 0x4000 + of_nat i) 4" if i: "i < 4096" for i
    proof -
      have "pmap k4 2 (bumpPtr + 0x4000 + of_nat i) = pmap k3 2 (bumpPtr + 0x4000 + of_nat i)" using k4(5) pg [OF i] by (simp add: rp)
      moreover have "off_tree k4 2 4" using inv4(3) st3 by (auto simp: keeps_def)
      ultimately show ?thesis using k3(4) i inv4(2,3) by (auto simp: upage_def table_frames_def keeps_def)
    qed
    then show ?thesis by (simp add: stack_page_def bumpPtr_def)
  qed
  moreover have "vma_at (kmem k4) (frame_ptr 3) = demo_area" using keeps_vma [OF keep T2 l3] V2 by simp
  moreover have "off_tree k4 2 3" "free_list k4 = 4096" using keep T2 free1 by (auto simp: keeps_def)
  moreover have "lo \<le> 12" "5 \<le> lo" using k4(2) k3(2) st3 inv4(2) by (auto simp: rp table_frames_def)
  moreover have "3 \<in> table_frames k4 lo 170" using calculation by (simp add: table_frames_def)
  moreover have "\<forall>i<2. pmap k4 2 (0x401040 + of_nat i) \<noteq> None" using k4(4) by (auto simp: upage_def)
  ultimately show ?thesis using inv4(1) unfolding eq by blast
qed

lemma demo_fork_ready:
  "\<exists>lo\<le>12. 5 \<le> lo \<and> forkable demo_fork [node0, node1] 2 lo 170 171 demo_fork_task 4 3 \<and>
     (\<forall>i<2. pmap (vkst (vm demo_fork)) 2 (0x401040 + of_nat i) \<noteq> None)"
proof -
  obtain lo where lo: "lo \<le> 12" "5 \<le> lo" "pt_inv demo_fork_mem 2 lo 170 171" "stack_page demo_fork_mem 2 lo 170 (bumpPtr + 0x4000) 4"
     "3 \<in> table_frames demo_fork_mem lo 170" "off_tree demo_fork_mem 2 3" "free_list demo_fork_mem = 4096"
     "vma_at (kmem demo_fork_mem) (frame_ptr 3) = demo_area" "\<forall>i<2. pmap demo_fork_mem 2 (0x401040 + of_nat i) \<noteq> None"
    using demo_fork_mem_ok by blast
  have fields: "vkst (vm demo_fork) = demo_fork_mem" "cr3 (vm demo_fork) = of_nat (4096 * 2)" "tasks demo_fork = (demo_tasks 1)(0x1000 \<mapsto> demo_fork_task)"
      "rtasks demo_fork = demo_nodes" "queue_head demo_fork = node0" "running_task demo_fork = node0" "task_count demo_fork = 2" "PID demo_fork = 4"
      "mms demo_fork = [0x5000 \<mapsto> \<lparr>mm_count = 1, mm_mmap = frame_ptr 3\<rparr>]"
    by (simp_all add: demo_fork_def demo_def)
  have np: "nproc demo_fork node0 = 0x1000" "nproc demo_fork node1 = 0x20000" by (simp_all add: nproc_def fields demo_nodes_def)
  have "ready_queue demo_fork [node0, node1]"
    unfolding ready_queue_def using np by (simp add: fields chain_Cons demo_nodes_def demo_tasks_def)
  moreover have "nodes_below demo_fork lo"
  proof -
    have "\<exists>f<lo. x = frame_ptr f" if "rtasks demo_fork x \<noteq> None" for x
    proof -
      have "x = frame_ptr 0 \<or> x = frame_ptr (Suc 0)" using that by (auto simp: fields demo_nodes_def demo_frames split: if_splits)
      then show ?thesis using lo(2) by (elim disjE) (auto intro: exI [of _ 0] exI [of _ "Suc 0"])
    qed
    then show ?thesis by (simp add: nodes_below_def)
  qed
  ultimately have "queue_inv demo_fork [node0, node1] lo 170 171" using lo(3) by (simp add: queue_inv_def fields pt_inv_def)
  moreover have "frame_ptr lo \<notin> {0x1000, 0x20000, 0x30000}" "frame_ptr lo + 32976 \<noteq> 0x5000" "frame_ptr 3 \<noteq> 0"
  proof -
    have "lo \<in> {5, 6, 7, 8, 9, 10, 11, 12}" using lo(1,2) by auto
    then show "frame_ptr lo \<notin> {0x1000, 0x20000, 0x30000}" "frame_ptr lo + 32976 \<noteq> 0x5000"
      by (auto simp: frame_ptr_def VADDR_def KERNEL_VADDR_def)
  qed (simp add: frame_ptr_def VADDR_def KERNEL_VADDR_def)
  moreover have "name_len (tname demo_fork_task) = Some 0" by (simp add: demo_fork_task_def zero_task_def name_len_def upt_rec)
  moreover have "area_ok 4096 demo_area"
    by (auto simp: area_ok_def demo_area_def region_pages_def Let_def VADDR_def KERNEL_VADDR_def loc_def PADDR_def dest!: less_2_cases)
  moreover have "tasks demo_fork (frame_ptr lo) = None" using calculation(2) by (auto simp: fields demo_tasks_def)
  moreover have "mm demo_fork_task = 0x5000" "t_pml4 demo_fork_task = frame_ptr 2" "ustack demo_fork_task = bumpPtr + 0x4000"
    by (simp_all add: demo_fork_task_def)
  moreover have "int_ok 5" "int_ok 3" by (simp_all add: int_ok_def)
  moreover have "\<not> in_area demo_area (bumpPtr + of_nat (4096 * (lo + 13)))"
  proof -
    have "lo \<in> {5, 6, 7, 8, 9, 10, 11, 12}" using lo(1,2) by auto
    then show ?thesis by (auto simp: in_area_def demo_area_def region_pages_def pgno_def bumpPtr_def)
  qed
  moreover have "vm_next demo_area = 0" "region_pages (vm_start demo_area) (vm_mmsz demo_area) = 1"
    by (simp_all add: demo_area_def region_pages_def)
  ultimately have "forkable demo_fork [node0, node1] 2 lo 170 171 demo_fork_task 4 3"
    using lo unfolding forkable_def fields Let_def by (simp add: np del: of_nat_mult of_nat_add)
  then show ?thesis using lo(1,2,9) fields(1) by auto
qed

section \<open>Properties of fork\<close>

text \<open>
  C7. \<^verbatim>\<open>sys_fork\<close> creates one process: the call returns the number of the child, the child
  is the last in the queue and has the parent's number as its parent. Its interrupt frame returns to
  the address that the parent's stack holds at 506 with 0 as the result of the call, the rest of its
  kernel stack is the parent's, its stack pointer is one word behind the first used word of the stack
  page, and that page, read through the child's tables, is the parent's word for word.
\<close>

theorem fork_child:
  assumes "forkable s xs r lo hi n p g v"
  defines "us \<equiv> bumpPtr + of_nat (4096 * (lo + 13))"
  shows "\<exists>s' lo' t. sys_fork isr32 s = Some (s', of_int (PID s)) \<and> PID s' = PID s + 1 \<and> running_task s' = running_task s \<and>
    queue_inv s' (xs @ [frame_ptr (lo + 9)]) lo' hi n \<and> nproc s' (frame_ptr (lo + 9)) = frame_ptr lo \<and>
    tasks s' = (tasks s)(frame_ptr lo \<mapsto> t) \<and> cr3 (vm s') = t_cr3 p \<and>
    child_of isr32 p (frame_ptr lo) (of_int (PID s)) us (first_word (tabs (kmem_of s) g)) t \<and>
    (\<forall>j<512. vld64 (kmem_of s') (t_cr3 t) (us + 8 * of_nat j) = vld64 (kmem_of s) (cr3 (vm s)) (ustack p + 8 * of_nat j))"
proof -
  obtain s' k' lo' t where f: "sys_fork isr32 s = Some (s', of_int (PID s))" "vm s' = (vm s)\<lparr>vkst := k', cr3 := t_cr3 p\<rparr>"
    "queue_inv s' (xs @ [frame_ptr (lo + 9)]) lo' hi n" "nproc s' (frame_ptr (lo + 9)) = frame_ptr lo"
    "running_task s' = running_task s" "PID s' = PID s + 1" "tasks s' = (tasks s)(frame_ptr lo \<mapsto> t)"
    "t_cr3 t = of_nat (4096 * (lo + 10))" "child_of isr32 p (frame_ptr lo) (of_int (PID s)) us (first_word (tabs (kmem_of s) g)) t"
    "pt_inv k' (lo + 10) lo' hi n" "stack_page k' (lo + 10) lo' hi us (lo + 13)" "\<forall>i<512. tabs (kmem k') (lo + 13) i = tabs (kmem_of s) g i"
    using sys_fork_ok [OF assms(1), of isr32, folded us_def] by (elim exE conjE) (rule that)
  have P: "pt_inv (vkst (vm s)) r lo hi n" "stack_page (vkst (vm s)) r lo hi (ustack p) g" "cr3 (vm s) = of_nat (4096 * r)"
    using assms(1) by (simp_all add: forkable_def)
  have "vld64 (kmem_of s') (t_cr3 t) (us + 8 * of_nat j) = vld64 (kmem_of s) (cr3 (vm s)) (ustack p + 8 * of_nat j)" if "j < 512" for j
    using stack_word(1) [OF f(10,11) that] stack_word(1) [OF P(1,2) that] f(2,8,12) P(3) that by (simp del: of_nat_mult)
  then show ?thesis using f by (intro exI [of _ s'] exI [of _ lo'] exI [of _ t]) simp
qed

theorem fork_child_witness:
  "\<exists>lo\<le>12. forkable demo_fork [node0, node1] 2 lo 170 171 demo_fork_task 4 3 \<and>
     (\<exists>s' t. sys_fork 0 demo_fork = Some (s', 4) \<and> tasks s' (frame_ptr lo) = Some t \<and> ppid t = 1 \<and>
        kstack t 507 = 0x400123 \<and> kstack t 506 = 0)"
proof -
  obtain lo where lo: "lo \<le> 12" "forkable demo_fork [node0, node1] 2 lo 170 171 demo_fork_task 4 3" using demo_fork_ready by blast
  have p: "PID demo_fork = 4" "pid demo_fork_task = 1" "kstack demo_fork_task 506 = 0x400123"
    by (simp_all add: demo_fork_def demo_def demo_fork_task_def)
  show ?thesis using fork_child [OF lo(2), of 0] lo p by (auto simp: child_of_def)
qed

text \<open>
  C22. The child shares the page tables of its parent: \<^verbatim>\<open>sys_fork\<close> copies the entries of the
  root only, and then maps new pages for the child through these tables. For every address that the
  parent had mapped, parent and child have the same page afterwards, and in the memory area it is a
  new page with the bytes of the program file, so what the parent had stored there is lost.
\<close>

theorem fork_shares_pages:
  assumes "forkable s xs r lo hi n p g v"
  defines "V \<equiv> vma_at (kmem_of s) (frame_ptr v)"
  shows "\<exists>s' t. sys_fork isr32 s = Some (s', of_int (PID s)) \<and> tasks s' (frame_ptr lo) = Some t \<and>
    (\<forall>w. pmap (vkst (vm s)) r w \<noteq> None \<longrightarrow> vloc (kmem_of s') (t_cr3 t) w = vloc (kmem_of s') (cr3 (vm s)) w) \<and>
    (\<forall>i<unat (vm_mmsz V). pmap (vkst (vm s)) r (vm_start V + of_nat i) \<noteq> None \<longrightarrow>
       vld8 (kmem_of s') (cr3 (vm s)) (vm_start V + of_nat i) = Some (kmem_of s (loc (vm_file V + vm_pgoff V) + i)))"
proof -
  obtain s' k' lo' t where f: "sys_fork isr32 s = Some (s', of_int (PID s))" "vm s' = (vm s)\<lparr>vkst := k', cr3 := t_cr3 p\<rparr>"
    "tasks s' = (tasks s)(frame_ptr lo \<mapsto> t)" "t_cr3 t = of_nat (4096 * (lo + 10))"
    "pt_inv k' (lo + 10) lo' hi n" "uimage k' (lo + 10) lo' hi (vm_start V) (area_bytes (kmem_of s) V)"
    "\<forall>w. IS_PRESENT_PAGE (tabs (kmem_of s) r (unat (pml4_index w))) \<longrightarrow> pmap k' r w = pmap k' (lo + 10) w"
    using sys_fork_ok [OF assms(1), of isr32, folded V_def] by (elim exE conjE) (rule that)
  have P: "pt_inv (vkst (vm s)) r lo hi n" "cr3 (vm s) = of_nat (4096 * r)" using assms(1) by (simp_all add: forkable_def)
  note fr = root_low [OF P(1)] root_low [OF f(5)]
  have loc: "vloc (kmem_of s') (t_cr3 t) w = vloc (kmem_of s') (cr3 (vm s)) w" if "pmap (vkst (vm s)) r w \<noteq> None" for w
    using f(7) mapped_root [OF that] fr f(2) unfolding f(4) P(2) by (simp add: vloc_def pmap_def del: of_nat_mult)
  have "vld8 (kmem_of s') (cr3 (vm s)) (vm_start V + of_nat i) = Some (kmem_of s (loc (vm_file V + vm_pgoff V) + i))"
    if i: "i < unat (vm_mmsz V)" and m: "pmap (vkst (vm s)) r (vm_start V + of_nat i) \<noteq> None" for i
  proof -
    have "vld8 (kmem_of s') (t_cr3 t) (vm_start V + of_nat i) = Some (kmem_of s (loc (vm_file V + vm_pgoff V) + i))"
      using uimage_read [OF f(5,6), of i] i f(2) unfolding f(4) by (simp add: area_bytes_def del: of_nat_mult)
    then show ?thesis using loc [OF m] by (simp add: vld8_def)
  qed
  then show ?thesis using f(1,3) loc by (intro exI [of _ s'] exI [of _ t]) simp
qed

theorem fork_shares_pages_witness:
  "\<exists>lo\<le>12. forkable demo_fork [node0, node1] 2 lo 170 171 demo_fork_task 4 3 \<and>
     (\<exists>s'. sys_fork 0 demo_fork = Some (s', 4) \<and> vld8 (kmem_of s') 0x2000 0x401040 = Some (kmem_of demo_fork 179))"
proof -
  obtain lo where lo: "lo \<le> 12" "forkable demo_fork [node0, node1] 2 lo 170 171 demo_fork_task 4 3"
      "\<forall>i<2. pmap (vkst (vm demo_fork)) 2 (0x401040 + of_nat i) \<noteq> None" using demo_fork_ready by blast
  have m: "pmap (vkst (vm demo_fork)) 2 0x401040 \<noteq> None" using lo(3) [rule_format, of 0] by simp
  have p: "PID demo_fork = 4" "cr3 (vm demo_fork) = 0x2000" by (simp_all add: demo_fork_def demo_def)
  have V: "vma_at (kmem_of demo_fork) (frame_ptr 3) = demo_area" using demo_fork_mem_ok by (auto simp: demo_fork_def)
  have d: "unat (vm_mmsz demo_area) = 2" "vm_start demo_area = 0x401040" "loc (vm_file demo_area + vm_pgoff demo_area) = 179"
    by (simp_all add: demo_area_def VADDR_def KERNEL_VADDR_def loc_def)
  show ?thesis
    using fork_shares_pages [OF lo(2), of 0, unfolded V d p] lo(1,2) m by (fastforce dest!: spec [of _ 0])
qed

end
