(* ===== verification/Stubs.thy ===== *)
theory Stubs
  imports Fork
begin

text \<open>
  The interrupt entries of \<^verbatim>\<open>sys/isr.s\<close> and \<^verbatim>\<open>sys/gisr.s\<close> as lists of instructions with the
  lengths of their encodings, on a processor with the general registers, the interrupt frame and the
  stack as words. The stack of a task that was never run is made up by \<^verbatim>\<open>elf_run_bin\<close> and
  \<^verbatim>\<open>sys_fork\<close> so that the switch returns into the middle of \<^verbatim>\<open>isr32\<close>, behind the call; the
  lemmas say with which registers such a task starts.
\<close>

section \<open>The processor\<close>

datatype reg = RAX | RBX | RCX | RDX | RSI | RDI | RBP | R8 | R9 | R10 | R11 | R12 | R13 | R14 | R15

datatype instr = Cli | Sti | Push reg | Pop reg | Call string | Load nat reg | Add_rsp nat | Iretq

record cpu =
  gpr :: "reg \<Rightarrow> u64"
  rip :: u64
  seg_cs :: u64
  rflags :: u64
  rsp :: u64
  seg_ss :: u64
  words :: "u64 \<Rightarrow> u64"

text \<open>The length of an instruction: registers from \<^verbatim>\<open>r8\<close> on need a prefix.\<close>

fun long_reg :: "reg \<Rightarrow> bool" where
  "long_reg r \<longleftrightarrow> r \<in> {R8, R9, R10, R11, R12, R13, R14, R15}"

fun ilen :: "instr \<Rightarrow> nat" where
  "ilen (Push r) = (if long_reg r then 2 else 1)"
| "ilen (Pop r) = (if long_reg r then 2 else 1)"
| "ilen (Call f) = 5"
| "ilen (Load d r) = (if d < 128 then 5 else 8)"
| "ilen (Add_rsp d) = 4"
| "ilen Iretq = 2"
| "ilen i = 1"

text \<open>One instruction; \<open>call\<close> is the effect of a call of a C function with its return.\<close>

definition push :: "u64 \<Rightarrow> cpu \<Rightarrow> cpu" where
  "push v c = c\<lparr>rsp := rsp c - 8, words := (words c)(rsp c - 8 := v)\<rparr>"

definition set_gpr :: "reg \<Rightarrow> u64 \<Rightarrow> cpu \<Rightarrow> cpu" where
  "set_gpr r v c = c\<lparr>gpr := (gpr c)(r := v)\<rparr>"

definition iretq :: "cpu \<Rightarrow> cpu" where
  "iretq c = c\<lparr>rip := words c (rsp c), seg_cs := words c (rsp c + 8), rflags := words c (rsp c + 16),
     seg_ss := words c (rsp c + 32), rsp := words c (rsp c + 24)\<rparr>"

fun iexec :: "(string \<Rightarrow> cpu \<Rightarrow> cpu option) \<Rightarrow> instr \<Rightarrow> cpu \<Rightarrow> cpu option" where
  "iexec call (Push r) c = Some (push (gpr c r) c)"
| "iexec call (Pop r) c = Some ((set_gpr r (words c (rsp c)) c)\<lparr>rsp := rsp c + 8\<rparr>)"
| "iexec call (Call f) c = call f c"
| "iexec call (Load d r) c = Some (set_gpr r (words c (rsp c + of_nat d)) c)"
| "iexec call (Add_rsp d) c = Some (c\<lparr>rsp := rsp c + of_nat d\<rparr>)"
| "iexec call Iretq c = Some (iretq c)"
| "iexec call Cli c = Some (c\<lparr>rflags := rflags c AND NOT 0x200\<rparr>)"
| "iexec call Sti c = Some (c\<lparr>rflags := rflags c OR 0x200\<rparr>)"

fun run :: "(string \<Rightarrow> cpu \<Rightarrow> cpu option) \<Rightarrow> instr list \<Rightarrow> cpu \<Rightarrow> cpu option" where
  "run call [] c = Some c"
| "run call (i # is) c = do { c \<leftarrow> iexec call i c; run call is c }"

text \<open>The instructions of a piece of code from an offset in bytes on.\<close>

fun from_offset :: "instr list \<Rightarrow> nat \<Rightarrow> instr list option" where
  "from_offset [] off = (if off = 0 then Some [] else None)"
| "from_offset (i # is) off =
     (if off = 0 then Some (i # is) else if ilen i \<le> off then from_offset is (off - ilen i) else None)"

section \<open>The entries\<close>

definition saved_regs :: "reg list" where
  "saved_regs = [RAX, RBX, RCX, RDX, RSI, RDI, RBP, R8, R9, R10, R11, R12, R13, R14, R15]"

definition isr_plain :: "string \<Rightarrow> instr list" where
  "isr_plain handler = Cli # map Push saved_regs @ [Call handler] @ map Pop (rev saved_regs) @ [Sti, Iretq]"

definition isr_error :: "string \<Rightarrow> instr list" where
  "isr_error handler = Cli # map Push saved_regs @ [Load 120 RDI, Load 128 RSI, Call handler] @ map Pop (rev saved_regs) @ [Add_rsp 8, Sti, Iretq]"

definition isr128 :: "instr list" where
  "isr128 = map Push (tl saved_regs) @ [Call ''syscall_handler''] @ map Pop (rev (tl saved_regs)) @ [Iretq]"

definition isr32 :: "instr list" where
  "isr32 = isr_plain ''irq_timer_handler''"

definition isr33 :: "instr list" where
  "isr33 = isr_plain ''irq_kb_handler''"

definition isr13 :: "instr list" where
  "isr13 = isr_error ''general_protection_fault_handler''"

definition isr14 :: "instr list" where
  "isr14 = isr_error ''page_fault_handler''"

definition exception_stubs :: "(nat \<times> instr list) list" where
  "exception_stubs =
    [(0, isr_plain ''irq_0_handler''), (1, isr_plain ''irq_1_handler''), (3, isr_plain ''irq_3_handler''),
     (4, isr_plain ''irq_4_handler''), (5, isr_plain ''irq_5_handler''), (6, isr_plain ''irq_6_handler''),
     (7, isr_plain ''irq_7_handler''), (8, isr_plain ''irq_8_handler''), (9, isr_plain ''irq_9_handler''),
     (10, isr_plain ''irq_10_handler''), (11, isr_plain ''irq_11_handler''), (12, isr_plain ''irq_12_handler''),
     (16, isr_plain ''irq_16_handler''), (17, isr_plain ''irq_17_handler''), (18, isr_plain ''irq_18_handler''),
     (19, isr_plain ''irq_19_handler''), (20, isr_plain ''irq_20_handler'')]"

definition stubs :: "(nat \<times> instr list) list" where
  "stubs = exception_stubs @ [(13, isr13), (14, isr14), (32, isr32), (33, isr33), (128, isr128)]"

text \<open>The processor enters vector \<open>v\<close> from user mode: it takes the stack of the task segment, pushes the
  frame, and an error code for some of the exceptions.\<close>

definition has_error :: "nat \<Rightarrow> bool" where
  "has_error v \<longleftrightarrow> v \<in> {8, 10, 11, 12, 13, 14, 17}"

definition enter :: "u64 \<Rightarrow> nat \<Rightarrow> u64 \<Rightarrow> cpu \<Rightarrow> cpu" where
  "enter rsp0 v code c =
     (let c1 = push (rip c) (push (seg_cs c) (push (rflags c) (push (rsp c) (push (seg_ss c) (c\<lparr>rsp := rsp0\<rparr>)))))
      in if has_error v then push code c1 else c1)"

definition interrupt :: "(string \<Rightarrow> cpu \<Rightarrow> cpu option) \<Rightarrow> u64 \<Rightarrow> nat \<Rightarrow> u64 \<Rightarrow> cpu \<Rightarrow> cpu option" where
  "interrupt call rsp0 v code c = do { is \<leftarrow> map_of stubs v; run call is (enter rsp0 v code c) }"

text \<open>The end of \<^verbatim>\<open>switch_to\<close>: a return on the stack of the new task; \<open>base\<close> is the address of
  \<^verbatim>\<open>isr32\<close>.\<close>

definition resume :: "(string \<Rightarrow> cpu \<Rightarrow> cpu option) \<Rightarrow> u64 \<Rightarrow> cpu \<Rightarrow> cpu option" where
  "resume call base c =
     do { is \<leftarrow> from_offset isr32 (unat (words c (rsp c) - base)); run call is (c\<lparr>rsp := rsp c + 8\<rparr>) }"

section \<open>The stack as a list\<close>

definition stacked :: "cpu \<Rightarrow> u64 list \<Rightarrow> bool" where
  "stacked c vs \<longleftrightarrow> length vs < 512 \<and> (\<forall>k<length vs. words c (rsp c + 8 * of_nat k) = vs ! k)"

definition same_frame :: "cpu \<Rightarrow> cpu \<Rightarrow> bool" where
  "same_frame c c' \<longleftrightarrow> rip c' = rip c \<and> seg_cs c' = seg_cs c \<and> seg_ss c' = seg_ss c"

lemma stacked_Nil [simp]: "stacked c []"
  by (simp add: stacked_def)

lemma stacked_push:
  assumes "stacked c vs" and "length vs < 511"
  shows "stacked (push v c) (v # vs)"
proof -
  have "8 * (1 + of_nat k) \<noteq> (0 :: u64)" if "k < 512" for k
  proof
    assume "8 * (1 + of_nat k) = (0 :: u64)"
    then have "of_nat (8 * (1 + k)) = (0 :: u64)" by simp
    then have "(2 :: nat) ^ 64 dvd 8 * (1 + k)" by (simp only: word_of_nat_eq_0_iff) simp
    then have "(2 :: nat) ^ 64 \<le> 8 * (1 + k)" by (rule dvd_imp_le) simp
    then show False using that by simp
  qed
  moreover have "rsp c - 8 + 8 * (1 + of_nat k) = rsp c + 8 * of_nat k" for k by (simp add: algebra_simps)
  ultimately show ?thesis
    using assms by (auto simp: stacked_def push_def less_Suc_eq_0_disj)
qed

lemma stacked_pop:
  assumes "stacked c (v # vs)"
  shows "words c (rsp c) = v" and "stacked ((set_gpr r x c)\<lparr>rsp := rsp c + 8\<rparr>) vs" and "stacked (c\<lparr>rsp := rsp c + 8\<rparr>) vs"
proof -
  have k: "words c (rsp c + 8 * of_nat k) = (v # vs) ! k" if "k < Suc (length vs)" for k using assms that by (simp add: stacked_def)
  show "words c (rsp c) = v" using k [of 0] by simp
  have "words c (rsp c + 8 + 8 * of_nat k) = vs ! k" if "k < length vs" for k
    using k [of "Suc k"] that by (simp add: algebra_simps)
  then show "stacked ((set_gpr r x c)\<lparr>rsp := rsp c + 8\<rparr>) vs" "stacked (c\<lparr>rsp := rsp c + 8\<rparr>) vs"
    using assms by (auto simp: stacked_def set_gpr_def)
qed

lemma run_append: "run call (is @ js) c = do { c \<leftarrow> run call is c; run call js c }"
  by (induction "is" arbitrary: c) (simp_all add: Option.bind_assoc cong: Option.bind_cong)

lemma run_pushes:
  assumes "stacked c vs" and "length vs + length rs < 512"
  shows "\<exists>c'. run call (map Push rs) c = Some c' \<and> stacked c' (rev (map (gpr c) rs) @ vs) \<and> gpr c' = gpr c \<and>
    same_frame c c' \<and> rflags c' = rflags c \<and> rsp c' = rsp c - 8 * of_nat (length rs)"
  using assms
proof (induction rs arbitrary: c vs)
  case (Cons r rs)
  let ?c = "push (gpr c r) c"
  have "stacked ?c (gpr c r # vs)" using Cons.prems by (intro stacked_push) auto
  moreover have "gpr ?c = gpr c" "same_frame c ?c" "rflags ?c = rflags c" "rsp ?c = rsp c - 8" by (simp_all add: push_def same_frame_def)
  ultimately show ?case using Cons.IH [of ?c "gpr c r # vs"] Cons.prems(2) by (auto simp: same_frame_def diff_diff_eq distrib_left)
qed (simp add: same_frame_def)

lemma run_pops:
  assumes "stacked c (map f rs @ vs)" and "distinct rs"
  shows "\<exists>c'. run call (map Pop rs) c = Some c' \<and> stacked c' vs \<and> gpr c' = (\<lambda>r. if r \<in> set rs then f r else gpr c r) \<and>
    same_frame c c' \<and> rflags c' = rflags c"
  using assms
proof (induction rs arbitrary: c)
  case (Cons r rs)
  let ?c = "(set_gpr r (words c (rsp c)) c)\<lparr>rsp := rsp c + 8\<rparr>"
  have s: "stacked c (f r # (map f rs @ vs))" using Cons.prems(1) by simp
  note p = stacked_pop [OF s]
  have "gpr ?c = (gpr c)(r := f r)" "same_frame c ?c" "rflags ?c = rflags c" using p(1) by (simp_all add: set_gpr_def same_frame_def)
  moreover obtain c' where "run call (map Pop rs) ?c = Some c'" "stacked c' vs" "gpr c' = (\<lambda>r. if r \<in> set rs then f r else gpr ?c r)"
      "same_frame ?c c'" "rflags c' = rflags ?c"
    using Cons.IH [OF p(2)] Cons.prems(2) by auto
  ultimately show ?case using Cons.prems(2) by (auto simp: same_frame_def fun_eq_iff)
qed (simp add: same_frame_def)

lemma stacked_iretq:
  assumes "stacked c [a, b, d, e, f]"
  shows "rip (iretq c) = a" "seg_cs (iretq c) = b" "rflags (iretq c) = d" "rsp (iretq c) = e" "seg_ss (iretq c) = f" "gpr (iretq c) = gpr c"
proof -
  have k: "words c (rsp c + 8 * of_nat k) = [a, b, d, e, f] ! k" if "k < 5" for k using assms that by (simp add: stacked_def)
  show "rip (iretq c) = a" using k [of 0] by (simp add: iretq_def)
  show "seg_cs (iretq c) = b" using k [of 1] by (simp add: iretq_def)
  show "rflags (iretq c) = d" using k [of 2] by (simp add: iretq_def)
  show "rsp (iretq c) = e" using k [of 3] by (simp add: iretq_def)
  show "seg_ss (iretq c) = f" using k [of 4] by (simp add: iretq_def)
  show "gpr (iretq c) = gpr c" by (simp add: iretq_def)
qed

text \<open>The second half of an entry, from the registers on.\<close>

lemma run_leave:
  assumes "stacked c (map f (rev rs) @ [a, b, d, e, g])" and "distinct rs" and "\<forall>i\<in>set mid. i = Sti"
  shows "\<exists>c'. run call (map Pop (rev rs) @ mid @ [Iretq]) c = Some c' \<and> gpr c' = (\<lambda>r. if r \<in> set rs then f r else gpr c r) \<and>
    rip c' = a \<and> seg_cs c' = b \<and> rflags c' = d \<and> rsp c' = e \<and> seg_ss c' = g"
proof -
  obtain c1 where c1: "run call (map Pop (rev rs)) c = Some c1" "stacked c1 [a, b, d, e, g]" "gpr c1 = (\<lambda>r. if r \<in> set rs then f r else gpr c r)"
    using run_pops [OF assms(1)] assms(2) by auto
  have mid: "\<exists>c2. run call mid c1 = Some c2 \<and> stacked c2 [a, b, d, e, g] \<and> gpr c2 = gpr c1"
    using assms(3) c1(2)
  proof (induction mid arbitrary: c1)
    case (Cons i mid)
    let ?c = "c1\<lparr>rflags := rflags c1 OR 0x200\<rparr>"
    have "stacked ?c [a, b, d, e, g]" using Cons.prems(2) by (simp add: stacked_def)
    then show ?case using Cons.IH [of ?c] Cons.prems(1) by auto
  qed auto
  then obtain c2 where "run call mid c1 = Some c2" "stacked c2 [a, b, d, e, g]" "gpr c2 = gpr c1" by blast
  then show ?thesis using c1(1,3) stacked_iretq [of c2 a b d e g] by (simp add: run_append)
qed

section \<open>Interrupts are transparent\<close>

text \<open>What a call of a C function keeps when it returns: the stack pointer, the registers of the caller, and
  the words that are on the stack.\<close>

definition callee_saved :: "reg set" where
  "callee_saved = {RBX, RBP, R12, R13, R14, R15}"

definition c_abi :: "(string \<Rightarrow> cpu \<Rightarrow> cpu option) \<Rightarrow> bool" where
  "c_abi call \<longleftrightarrow> (\<forall>f c c'. call f c = Some c' \<longrightarrow> rsp c' = rsp c \<and> (\<forall>r\<in>callee_saved. gpr c' r = gpr c r) \<and>
     (\<forall>k<32. words c' (rsp c + 8 * of_nat k) = words c (rsp c + 8 * of_nat k)))"

lemma abi_stacked: "c_abi call \<Longrightarrow> call f c = Some c' \<Longrightarrow> stacked c vs \<Longrightarrow> length vs \<le> 32 \<Longrightarrow> stacked c' vs"
  unfolding c_abi_def stacked_def by fastforce

lemma saved_distinct: "distinct saved_regs" "set saved_regs = UNIV" "length saved_regs = 15"
proof -
  have "r \<in> set saved_regs" for r by (cases r) (simp_all add: saved_regs_def)
  then show "distinct saved_regs" "set saved_regs = UNIV" "length saved_regs = 15" by (auto simp: saved_regs_def)
qed

lemma stacked_rflags [simp]: "stacked (c\<lparr>rflags := x\<rparr>) vs = stacked c vs"
  by (simp add: stacked_def)

lemma enter_stacked:
  "stacked (enter rsp0 v code c) ((if has_error v then [code] else []) @ [rip c, seg_cs c, rflags c, rsp c, seg_ss c])"
  "gpr (enter rsp0 v code c) = gpr c"
proof -
  let ?c = "push (rip c) (push (seg_cs c) (push (rflags c) (push (rsp c) (push (seg_ss c) (c\<lparr>rsp := rsp0\<rparr>)))))"
  have "stacked ?c [rip c, seg_cs c, rflags c, rsp c, seg_ss c]" by (intro stacked_push) simp_all
  then show "stacked (enter rsp0 v code c) ((if has_error v then [code] else []) @ [rip c, seg_cs c, rflags c, rsp c, seg_ss c])"
    using stacked_push [of ?c _ code] by (simp add: enter_def Let_def)
  show "gpr (enter rsp0 v code c) = gpr c" by (simp add: enter_def push_def Let_def)
qed

lemma run_plain:
  assumes abi: "c_abi call" and ret: "\<forall>f c. call f c \<noteq> None" and fr: "stacked c [a, b, d, e, g]"
  shows "\<exists>c'. run call (isr_plain h) c = Some c' \<and> gpr c' = gpr c \<and> rip c' = a \<and> seg_cs c' = b \<and> rflags c' = d \<and> rsp c' = e \<and> seg_ss c' = g"
proof -
  let ?c = "c\<lparr>rflags := rflags c AND NOT 0x200\<rparr>"
  obtain c1 where c1: "run call (map Push saved_regs) ?c = Some c1" "stacked c1 (rev (map (gpr ?c) saved_regs) @ [a, b, d, e, g])" 
    using run_pushes [of ?c "[a, b, d, e, g]" saved_regs call] fr saved_distinct(3) by auto
  obtain c2 where c2: "call h c1 = Some c2" using ret by auto
  have "stacked c2 (map (gpr c) (rev saved_regs) @ [a, b, d, e, g])"
    using abi_stacked [OF abi c2 c1(2)] saved_distinct(3) by (simp add: rev_map)
  from run_leave [OF this saved_distinct(1), of "[Sti]"] obtain c' where "run call (map Pop (rev saved_regs) @ [Sti] @ [Iretq]) c2 = Some c'"
      "gpr c' = gpr c" "rip c' = a" "seg_cs c' = b" "rflags c' = d" "rsp c' = e" "seg_ss c' = g"
    using saved_distinct(2) by auto
  moreover have "run call (isr_plain h) c = run call (map Pop (rev saved_regs) @ [Sti] @ [Iretq]) c2"
    using c1(1) c2 by (simp add: isr_plain_def run_append)
  ultimately show ?thesis by auto
qed

text \<open>The entries for exceptions with an error code pass it to the handler and drop it.\<close>

lemma run_error:
  assumes abi: "c_abi call" and ret: "\<forall>f c. call f c \<noteq> None" and fr: "stacked c [code, a, b, d, e, g]"
  shows "\<exists>c'. run call (isr_error h) c = Some c' \<and> gpr c' = gpr c \<and> rip c' = a \<and> seg_cs c' = b \<and> rflags c' = d \<and> rsp c' = e \<and> seg_ss c' = g"
proof -
  let ?c = "c\<lparr>rflags := rflags c AND NOT 0x200\<rparr>"
  obtain c1 where c1: "run call (map Push saved_regs) ?c = Some c1" "stacked c1 (rev (map (gpr ?c) saved_regs) @ [code, a, b, d, e, g])" 
    using run_pushes [of ?c "[code, a, b, d, e, g]" saved_regs call] fr saved_distinct(3) by auto
  let ?c1 = "set_gpr RSI (words c1 (rsp c1 + 128)) (set_gpr RDI (words c1 (rsp c1 + 120)) c1)"
  obtain c2 where c2: "call h ?c1 = Some c2" using ret by auto
  have "stacked ?c1 (map (gpr c) (rev saved_regs) @ [code, a, b, d, e, g])" using c1(2) by (simp add: stacked_def set_gpr_def rev_map)
  then have "stacked c2 (map (gpr c) (rev saved_regs) @ [code, a, b, d, e, g])"
    using abi_stacked [OF abi c2] saved_distinct(3) by simp
  then obtain c3 where c3: "run call (map Pop (rev saved_regs)) c2 = Some c3" "stacked c3 [code, a, b, d, e, g]" "gpr c3 = gpr c"
    using run_pops [of c2 "gpr c" "rev saved_regs" "[code, a, b, d, e, g]" call] saved_distinct(1,2) by auto
  have "stacked ((c3\<lparr>rsp := rsp c3 + 8\<rparr>)\<lparr>rflags := rflags c3 OR 0x200\<rparr>) [a, b, d, e, g]" using stacked_pop(3) [OF c3(2)] by simp
  from stacked_iretq [OF this] show ?thesis using c1(1) c2 c3(1,3) by (simp add: isr_error_def run_append set_gpr_def)
qed

lemma run_syscall:
  assumes abi: "c_abi call" and ret: "\<forall>f c. call f c \<noteq> None" and fr: "stacked c [a, b, d, e, g]"
  shows "\<exists>c'. run call isr128 c = Some c' \<and> (\<forall>r. r \<noteq> RAX \<longrightarrow> gpr c' r = gpr c r) \<and> rip c' = a \<and> seg_cs c' = b \<and> rflags c' = d \<and> rsp c' = e \<and> seg_ss c' = g"
proof -
  have d: "distinct (tl saved_regs)" "r \<in> set (tl saved_regs) \<longleftrightarrow> r \<noteq> RAX" "length (tl saved_regs) = 14" for r
    by (cases r; simp add: saved_regs_def)+
  obtain c1 where c1: "run call (map Push (tl saved_regs)) c = Some c1" "stacked c1 (rev (map (gpr c) (tl saved_regs)) @ [a, b, d, e, g])" 
    using run_pushes [OF fr, of "tl saved_regs" call] d(3) by auto
  obtain c2 where c2: "call ''syscall_handler'' c1 = Some c2" using ret by auto
  have "stacked c2 (map (gpr c) (rev (tl saved_regs)) @ [a, b, d, e, g])"
    using abi_stacked [OF abi c2 c1(2)] d(3) by (simp add: rev_map)
  from run_leave [OF this d(1), of "[]" call] show ?thesis
    using c1(1) c2 d(2) by (auto simp: isr128_def run_append)
qed

lemma stub_shape:
  assumes "map_of stubs v = Some is"
  shows "v \<notin> {13, 14, 128} \<and> (\<exists>h. is = isr_plain h) \<or> (v = 13 \<or> v = 14) \<and> (\<exists>h. is = isr_error h) \<or> v = 128 \<and> is = isr128"
  using map_of_SomeD [OF assms]
  by (auto simp: stubs_def exception_stubs_def isr13_def isr14_def isr32_def isr33_def)

section \<open>The first run of a task\<close>

lemma isr32_offset: "from_offset isr32 29 = Some (map Pop (rev saved_regs) @ [Sti] @ [Iretq])"
  by (simp add: isr32_def isr_plain_def saved_regs_def)

text \<open>The words of the kernel stack of the task at \<open>p\<close>, from index 491 on, are what the switch finds.\<close>

definition on_kstack :: "cpu \<Rightarrow> u64 \<Rightarrow> task_struct \<Rightarrow> bool" where
  "on_kstack c p t \<longleftrightarrow> rsp c = t_rsp t \<and> (\<forall>i<512. words c (p + 8 + 8 * of_nat i) = kstack t i)"

definition slot :: "reg \<Rightarrow> nat" where
  "slot r = 506 - length (takeWhile (\<lambda>x. x \<noteq> r) saved_regs)"

lemma resume_frame:
  assumes k: "on_kstack c p t" and sp: "t_rsp t = p + 8 + 8 * 491" and ra: "kstack t 491 = base + 29"
  shows "\<exists>c'. resume call base c = Some c' \<and> gpr c' = (\<lambda>r. kstack t (slot r)) \<and> rip c' = kstack t 507 \<and> seg_cs c' = kstack t 508 \<and>
    rflags c' = kstack t 509 \<and> rsp c' = kstack t 510 \<and> seg_ss c' = kstack t 511"
proof -
  have w: "words c (rsp c + 8 * of_nat j) = kstack t (491 + j)" if "j < 21" for j
  proof -
    have "rsp c + 8 * of_nat j = p + 8 + 8 * of_nat (491 + j)" using k sp by (simp add: on_kstack_def algebra_simps)
    moreover have "words c (p + 8 + 8 * of_nat (491 + j)) = kstack t (491 + j)" 
      by (rule k [unfolded on_kstack_def, THEN conjunct2, rule_format]) (use that in simp)
    ultimately show ?thesis by (simp only:)
  qed
  have st: "stacked c (map (\<lambda>j. kstack t (491 + j)) [0..<21])" using w by (simp add: stacked_def)
  have l: "map (\<lambda>j. kstack t (491 + j)) [0..<21] =
      kstack t 491 # (map (\<lambda>r. kstack t (slot r)) (rev saved_regs) @ [kstack t 507, kstack t 508, kstack t 509, kstack t 510, kstack t 511])"
    by (simp add: saved_regs_def slot_def upt_rec)
  note pop = stacked_pop [OF st [unfolded l]]
  have "unat (words c (rsp c) - base) = 29" using pop(1) ra by simp
  then show ?thesis
    using run_leave [OF pop(3) saved_distinct(1), of "[Sti]" call] saved_distinct(2) isr32_offset by (auto simp: resume_def)
qed

text \<open>A user program enters the kernel with \<^verbatim>\<open>int 0x80\<close> on the kernel stack of the task at \<open>p\<close>: the
  words that \<^verbatim>\<open>isr128\<close> has on the stack when it calls the handler.\<close>

definition syscall_entry :: "u64 \<Rightarrow> cpu \<Rightarrow> cpu option" where
  "syscall_entry p c = run (\<lambda>f c. None) (takeWhile (\<lambda>i. i \<noteq> Call ''syscall_handler'') isr128) (enter (p + 8 + 8 * 511) 128 0 c)"

lemma takeWhile_pushes: "takeWhile (\<lambda>i. i \<noteq> Call h) (map Push rs @ Call h # is) = map Push rs"
  by (induction rs) auto

lemma syscall_entry_words:
  "\<exists>e. syscall_entry p c = Some e \<and> words e (p + 8 + 8 * of_nat 506) = rip c \<and>
     (\<forall>r. r \<noteq> RAX \<longrightarrow> words e (p + 8 + 8 * of_nat (slot r)) = gpr c r)"
proof -
  let ?c = "enter (p + 8 + 8 * 511) 128 0 c"
  have en: "stacked ?c [rip c, seg_cs c, rflags c, rsp c, seg_ss c]" "gpr ?c = gpr c"
    using enter_stacked [of "p + 8 + 8 * 511" 128 0 c] by (simp_all add: has_error_def)
  have sp: "rsp ?c = p + 8 + 8 * 506" by (simp add: enter_def has_error_def push_def Let_def)
  obtain e where e: "run (\<lambda>f c. None) (map Push (tl saved_regs)) ?c = Some e"
      "stacked e (rev (map (gpr c) (tl saved_regs)) @ [rip c, seg_cs c, rflags c, rsp c, seg_ss c])" "rsp e = rsp ?c - 8 * of_nat (length (tl saved_regs))"
    using run_pushes [OF en(1), of "tl saved_regs" "\<lambda>f c. None"] saved_distinct(3) unfolding en(2) by auto
  have run: "syscall_entry p c = Some e" using e(1) by (simp add: syscall_entry_def isr128_def takeWhile_pushes)
  have re: "rsp e = p + 8 + 8 * 492" using e(3) sp by (simp add: saved_regs_def)
  have w: "words e (p + 8 + 8 * of_nat (492 + k)) = (rev (map (gpr c) (tl saved_regs)) @ [rip c, seg_cs c, rflags c, rsp c, seg_ss c]) ! k" if "k < 19" for k
  proof -
    have "p + 8 + 8 * of_nat (492 + k) = rsp e + 8 * of_nat k" unfolding re by (simp add: algebra_simps)
    then show ?thesis using e(2) that by (simp add: stacked_def saved_regs_def del: of_nat_add)
  qed
  have "words e (p + 8 + 8 * of_nat (slot r)) = gpr c r" if "r \<noteq> RAX" for r
    using w [of 0] w [of 1] w [of 2] w [of 3] w [of 4] w [of 5] w [of 6] w [of 7] w [of 8] w [of 9] w [of 10] w [of 11] w [of 12] w [of 13] that
    by (cases r) (simp_all add: slot_def saved_regs_def)
  moreover have "words e (p + 8 + 8 * of_nat 506) = rip c" using w [of 14] by (simp add: saved_regs_def)
  ultimately show ?thesis using run by blast
qed

text \<open>The processor as \<^verbatim>\<open>switch_to\<close> leaves it, with the stack of the task.\<close>

definition loaded :: "u64 \<Rightarrow> task_struct \<Rightarrow> cpu" where
  "loaded p t = \<lparr>gpr = (\<lambda>_. 0), rip = 0, seg_cs = 8, rflags = 0, rsp = t_rsp t, seg_ss = 0x10,
     words = (\<lambda>a. kstack t (unat (a - p - 8) div 8))\<rparr>"

lemma loaded_kstack: "on_kstack (loaded p t) p t"
proof -
  have "unat (8 * of_nat i :: u64) div 8 = i" if "i < 512" for i :: nat
  proof -
    have "unat (of_nat (8 * i) :: u64) = 8 * i" using that by (simp only: unat_of_nat take_bit_eq_mod) simp
    then show ?thesis by simp
  qed
  then show ?thesis by (simp add: on_kstack_def loaded_def)
qed

section \<open>Properties\<close>

text \<open>
  C21. An interrupt is transparent to the program it interrupts: whatever the handler does
  within the calling convention, the entry restores every register and returns to the same
  instruction, stack and flags; a system call may change \<^verbatim>\<open>rax\<close> only. The exceptions 8, 10, 11,
  12 and 17 push an error code that their entries do not drop, so these would return to the address
  that the error code happens to be.
\<close>

theorem interrupt_transparent:
  assumes "c_abi call" and "\<forall>f c. call f c \<noteq> None" and "map_of stubs v = Some is"
  shows "\<exists>c'. interrupt call rsp0 v code c = Some c' \<and> (\<forall>r. gpr c' r = gpr c r \<or> v = 128 \<and> r = RAX) \<and>
    (if v \<in> {8, 10, 11, 12, 17} then rip c' = code
     else rip c' = rip c \<and> seg_cs c' = seg_cs c \<and> rflags c' = rflags c \<and> rsp c' = rsp c \<and> seg_ss c' = seg_ss c)"
proof -
  let ?c = "enter rsp0 v code c"
  have i: "interrupt call rsp0 v code c = run call is ?c" using assms(3) by (simp add: interrupt_def)
  note en = enter_stacked [of rsp0 v code c]
  consider h where "v \<notin> {13, 14, 128}" "is = isr_plain h" | h where "v = 13 \<or> v = 14" "is = isr_error h" | "v = 128" "is = isr128"
    using stub_shape [OF assms(3)] by blast
  then show ?thesis
  proof cases
    case 1
    show ?thesis
    proof (cases "has_error v")
      case True
      then have "stacked ?c [code, rip c, seg_cs c, rflags c, rsp c]" using en(1) by (auto simp: stacked_def less_Suc_eq)
      then show ?thesis using run_plain [OF assms(1,2)] en(2) i 1 True by (fastforce simp: has_error_def)
    next
      case False
      then have "stacked ?c [rip c, seg_cs c, rflags c, rsp c, seg_ss c]" using en(1) by simp
      then show ?thesis using run_plain [OF assms(1,2)] en(2) i 1 False by (fastforce simp: has_error_def)
    qed
  next
    case 2
    then have "stacked ?c [code, rip c, seg_cs c, rflags c, rsp c, seg_ss c]" using en(1) by (auto simp: has_error_def)
    then show ?thesis using run_error [OF assms(1,2)] en(2) i 2 by fastforce
  next
    case 3
    then have "stacked ?c [rip c, seg_cs c, rflags c, rsp c, seg_ss c]" using en(1) by (simp add: has_error_def)
    then show ?thesis using run_syscall [OF assms(1,2)] en(2) i 3 by fastforce
  qed
qed

text \<open>A handler that clobbers what the convention lets it clobber.\<close>

definition clobber :: "string \<Rightarrow> cpu \<Rightarrow> cpu option" where
  "clobber f c = Some (c\<lparr>gpr := (\<lambda>r. if r \<in> {RBX, RBP, R12, R13, R14, R15} then gpr c r else 7), rip := 7, rflags := 0\<rparr>)"

theorem interrupt_transparent_witness:
  "(\<exists>c'. interrupt clobber 0x9000 32 0 (loaded 0x1000 demo_fork_task) = Some c' \<and> gpr c' RCX = 0 \<and> rip c' = 0) \<and>
   (\<exists>c'. interrupt clobber 0x9000 14 6 (loaded 0x1000 demo_fork_task) = Some c' \<and> rip c' = 0) \<and>
   (\<exists>c'. interrupt clobber 0x9000 12 99 (loaded 0x1000 demo_fork_task) = Some c' \<and> rip c' = 99)"
proof -
  have a: "c_abi clobber" "\<forall>f c. clobber f c \<noteq> None" by (auto simp: c_abi_def clobber_def callee_saved_def)
  have s: "map_of stubs 32 = Some isr32" "map_of stubs 14 = Some isr14" "map_of stubs 12 = Some (isr_plain ''irq_12_handler'')"
    by (simp_all add: stubs_def exception_stubs_def)
  show ?thesis
    using interrupt_transparent [OF a s(1), of "0x9000" 0 "loaded 0x1000 demo_fork_task"]
      interrupt_transparent [OF a s(2), of "0x9000" 6 "loaded 0x1000 demo_fork_task"]
      interrupt_transparent [OF a s(3), of "0x9000" 99 "loaded 0x1000 demo_fork_task"]
    by (fastforce simp: loaded_def)
qed


text \<open>
  C20. The first run of a child of \<^verbatim>\<open>sys_fork\<close>: when the parent made the system call in state
  \<open>c0\<close>, the child returns from the interrupt into user mode at the same instruction, with
  the same registers except \<^verbatim>\<open>rax\<close>, which is 0, and on its own stack page.
\<close>

theorem fork_child_resumes:
  assumes "forkable s xs r lo hi n p g v" and "syscall_entry parent c0 = Some e"
    and "\<forall>i\<in>{492..506}. kstack p i = words e (parent + 8 + 8 * of_nat i)"
  shows "\<exists>s' t. sys_fork base s = Some (s', of_int (PID s)) \<and> tasks s' (frame_ptr lo) = Some t \<and>
    (\<forall>c call. on_kstack c (frame_ptr lo) t \<longrightarrow> (\<exists>c'. resume call base c = Some c' \<and> gpr c' = (gpr c0)(RAX := 0) \<and>
       rip c' = rip c0 \<and> seg_cs c' = 0x1b \<and> seg_ss c' = 0x23 \<and> rflags c' = 0x200286 \<and>
       rsp c' = bumpPtr + of_nat (4096 * (lo + 13)) + 8 * (of_nat (first_word (tabs (kmem_of s) g)) + 1)))"
proof -
  obtain s' t where f: "sys_fork base s = Some (s', of_int (PID s))" "tasks s' = (tasks s)(frame_ptr lo \<mapsto> t)"
    "child_of base p (frame_ptr lo) (of_int (PID s)) (bumpPtr + of_nat (4096 * (lo + 13))) (first_word (tabs (kmem_of s) g)) t"
    using sys_fork_ok [OF assms(1), of base] by (elim exE conjE) (rule that)
  note C = f(3) [unfolded child_of_def]
  obtain e' where "syscall_entry parent c0 = Some e'" "words e' (parent + 8 + 8 * of_nat 506) = rip c0"
      "\<forall>r. r \<noteq> RAX \<longrightarrow> words e' (parent + 8 + 8 * of_nat (slot r)) = gpr c0 r"
    using syscall_entry_words by blast
  then have e: "words e (parent + 8 + 8 * of_nat 506) = rip c0" "\<And>r. r \<noteq> RAX \<Longrightarrow> words e (parent + 8 + 8 * of_nat (slot r)) = gpr c0 r"
    using assms(2) by auto
  have "kstack p 506 = words e (parent + 8 + 8 * of_nat 506)" using assms(3) by (rule bspec) simp
  then have rip: "kstack p 506 = rip c0" using e(1) by (simp only:)
  have reg: "kstack t (slot r) = ((gpr c0)(RAX := 0)) r" for r
  proof (cases "r = RAX")
    case True
    then show ?thesis using C by (simp add: slot_def saved_regs_def)
  next
    case False
    have s: "slot r \<in> {492..505}" using False by (cases r) (simp_all add: slot_def saved_regs_def)
    then have "kstack t (slot r) = kstack p (slot r)" using C by auto
    also have "\<dots> = words e (parent + 8 + 8 * of_nat (slot r))" using assms(3) by (rule bspec) (use s in auto)
    finally show ?thesis using e(2) [OF False] False by simp
  qed
  have "\<exists>c'. resume call base c = Some c' \<and> gpr c' = (gpr c0)(RAX := 0) \<and> rip c' = rip c0 \<and> seg_cs c' = 0x1b \<and> seg_ss c' = 0x23 \<and>
      rflags c' = 0x200286 \<and> rsp c' = bumpPtr + of_nat (4096 * (lo + 13)) + 8 * (of_nat (first_word (tabs (kmem_of s) g)) + 1)"
    if "on_kstack c (frame_ptr lo) t" for c call
    using resume_frame [OF that, of base call] C rip reg by (auto simp: fun_eq_iff)
  then show ?thesis using f(1,2) by auto
qed

definition demo_caller :: cpu where
  "demo_caller = \<lparr>gpr = (\<lambda>r. if r = RAX then 4 else 0), rip = 0x400123, seg_cs = 0x1b, rflags = 0x202, rsp = 0x500000, seg_ss = 0x23, words = (\<lambda>_. 0)\<rparr>"

theorem fork_child_resumes_witness:
  "\<exists>lo s' t c'. lo \<le> 12 \<and> sys_fork 0x200000 demo_fork = Some (s', 4) \<and> tasks s' (frame_ptr lo) = Some t \<and>
     resume (\<lambda>f c. None) 0x200000 (loaded (frame_ptr lo) t) = Some c' \<and> rip c' = 0x400123 \<and> gpr c' RAX = 0"
proof -
  obtain lo where lo: "lo \<le> 12" "forkable demo_fork [node0, node1] 2 lo 170 171 demo_fork_task 4 3" using demo_fork_ready by blast
  obtain e where e: "syscall_entry 0x1000 demo_caller = Some e" "words e (0x1000 + 8 + 8 * of_nat 506) = rip demo_caller"
      "\<forall>r. r \<noteq> RAX \<longrightarrow> words e (0x1000 + 8 + 8 * of_nat (slot r)) = gpr demo_caller r"
    using syscall_entry_words by blast
  have "words e (0x1000 + 8 + 8 * of_nat i) = kstack demo_fork_task i" if i: "i \<in> {492..506}" for i
  proof (cases "i = 506")
    case True
    then show ?thesis using e(2) by (simp add: demo_caller_def demo_fork_task_def)
  next
    case False
    then have "i \<in> slot ` (UNIV - {RAX})"
    proof -
      have "i = slot (saved_regs ! (506 - i))" "saved_regs ! (506 - i) \<noteq> RAX"
      proof -
        have "i \<in> {492, 493, 494, 495, 496, 497, 498, 499, 500, 501, 502, 503, 504, 505}" using i False by (simp, presburger)
        then show "i = slot (saved_regs ! (506 - i))" "saved_regs ! (506 - i) \<noteq> RAX" by (auto simp: slot_def saved_regs_def)
      qed
      then show ?thesis by blast
    qed
    then obtain r where "r \<noteq> RAX" "i = slot r" by auto
    then show ?thesis using e(3) False by (simp add: demo_caller_def demo_fork_task_def)
  qed
  then have k: "\<forall>i\<in>{492..506}. kstack demo_fork_task i = words e (0x1000 + 8 + 8 * of_nat i)" by simp
  have d: "PID demo_fork = 4" "rip demo_caller = 0x400123" by (simp_all add: demo_fork_def demo_def demo_caller_def)
  obtain s' t where f: "sys_fork 0x200000 demo_fork = Some (s', 4)" "tasks s' (frame_ptr lo) = Some t"
    "\<forall>c call. on_kstack c (frame_ptr lo) t \<longrightarrow> (\<exists>c'. resume call 0x200000 c = Some c' \<and> gpr c' = (gpr demo_caller)(RAX := 0) \<and> rip c' = 0x400123)"
    using fork_child_resumes [OF lo(2) e(1) k, of "0x200000", unfolded d] by fastforce
  then obtain c' where "resume (\<lambda>f c. None) 0x200000 (loaded (frame_ptr lo) t) = Some c'" "gpr c' = (gpr demo_caller)(RAX := 0)" "rip c' = 0x400123"
    using loaded_kstack by blast
  then show ?thesis using lo(1) f(1,2) by auto
qed

text \<open>
  C19. The first run of a program: the loader's stack makes the switch return through
  \<^verbatim>\<open>isr32\<close> into user mode at the entry point of the file, with the number of arguments in
  \<^verbatim>\<open>rax\<close> and the first argument in \<^verbatim>\<open>rbx\<close>, where \<^verbatim>\<open>_start\<close> reads them, and the stack
  pointer at the last word of the stack page.
\<close>

theorem program_starts:
  assumes "program_at s kroot lo hi n addr fileptr nm phs" and "argc \<le> 492"
    and "get_running_task s = Some parent" and "tasks s parent = Some p"
  shows "\<exists>s' t. elf_run_bin base s addr fileptr argc argv = Some (s', frame_ptr (lo + 1)) \<and> tasks s' (frame_ptr (lo + 1)) = Some t \<and>
    (\<forall>c call. on_kstack c (frame_ptr (lo + 1)) t \<longrightarrow> (\<exists>c'. resume call base c = Some c' \<and>
       rip c' = e_entry (ehdr_at (kmem_of s) (loc addr)) \<and> seg_cs c' = 0x1b \<and> seg_ss c' = 0x23 \<and> rflags c' = 0x200286 \<and>
       rsp c' = ustack t + 8 * 511 \<and> gpr c' RAX = of_nat argc \<and> (0 < argc \<longrightarrow> gpr c' RBX = argv 0)))"
proof -
  obtain s' t where f: "elf_run_bin base s addr fileptr argc argv = Some (s', frame_ptr (lo + 1))" "tasks s' (frame_ptr (lo + 1)) = Some t"
    "t_rsp t = frame_ptr (lo + 1) + 8 + 8 * 491" "kstack t 491 = base + 29" "kstack t 507 = e_entry (ehdr_at (kmem_of s) (loc addr))"
    "kstack t 508 = 0x1b" "kstack t 509 = 0x200286" "kstack t 510 = ustack t + 8 * 511" "kstack t 511 = 0x23" "kstack t 506 = of_nat argc"
    "\<forall>i<14. i < argc \<longrightarrow> kstack t (505 - i) = argv i"
    using start_frame [OF assms, of base argv] by (elim exE conjE) (rule that)
  have sl: "slot RAX = 506" "slot RBX = 505" by (simp_all add: slot_def saved_regs_def)
  have "0 < argc \<longrightarrow> kstack t 505 = argv 0" using f(11) [rule_format, of 0] by simp
  then have "\<exists>c'. resume call base c = Some c' \<and> rip c' = e_entry (ehdr_at (kmem_of s) (loc addr)) \<and> seg_cs c' = 0x1b \<and> seg_ss c' = 0x23 \<and>
      rflags c' = 0x200286 \<and> rsp c' = ustack t + 8 * 511 \<and> gpr c' RAX = of_nat argc \<and> (0 < argc \<longrightarrow> gpr c' RBX = argv 0)"
    if "on_kstack c (frame_ptr (lo + 1)) t" for c call
    using resume_frame [OF that f(3,4), of call] f(5-10) sl by auto
  then show ?thesis using f(1,2) by blast
qed

theorem program_starts_witness:
  "\<exists>s' t c'. elf_run_bin 0x200000 demo_exec (VADDR 0) (VADDR 192) 1 (\<lambda>_. 7) = Some (s', frame_ptr 4) \<and> tasks s' (frame_ptr 4) = Some t \<and>
     resume (\<lambda>f c. None) 0x200000 (loaded (frame_ptr 4) t) = Some c' \<and> rip c' = 0x400010 \<and> gpr c' RAX = 1 \<and> gpr c' RBX = 7"
proof -
  have d: "get_running_task demo_exec = Some 0x1000" "tasks demo_exec 0x1000 = demo_tasks 1 0x1000"
    by (simp_all add: demo_exec_def get_running_task_def proc_of_def demo_def demo_nodes_def)
  have p: "tasks demo_exec 0x1000 \<noteq> None" unfolding d(2) by (simp add: demo_tasks_def)
  then obtain q where q: "tasks demo_exec 0x1000 = Some q" by blast
  have e: "e_entry (ehdr_at (kmem_of demo_exec) (loc (VADDR 0))) = 0x400010"
    using demo_elf_hdrs(5) by (simp add: demo_exec_def loc_def VADDR_def KERNEL_VADDR_def)
  obtain s' t where f: "elf_run_bin 0x200000 demo_exec (VADDR 0) (VADDR 192) 1 (\<lambda>_. 7) = Some (s', frame_ptr 4)" "tasks s' (frame_ptr 4) = Some t"
    "\<forall>c call. on_kstack c (frame_ptr 4) t \<longrightarrow> (\<exists>c'. resume call 0x200000 c = Some c' \<and> rip c' = 0x400010 \<and> gpr c' RAX = 1 \<and> gpr c' RBX = 7)"
    using program_starts [OF demo_program _ d(1) q, of 1 "0x200000" "\<lambda>_. 7", unfolded e] by fastforce
  then show ?thesis using loaded_kstack by blast
qed

end
