(* ===== verification/Console.thy ===== *)
theory Console
  imports Utils
begin

text \<open>
  The console of \<^verbatim>\<open>sys/kprintf.c\<close>: the text screen at physical address 0xb8000 with two
  bytes per cell, the cursor globals \<^verbatim>\<open>X\<close> and \<^verbatim>\<open>Y\<close>, scrolling, the number
  printer \<^verbatim>\<open>itoap\<close> and the formatted output of \<^verbatim>\<open>kprintf\<close>. The formatter works on
  texts (lists of bytes without the end mark); its stack buffers appear as the bounds
  \<^const>\<open>FMT_LEN\<close> and 10 on the pieces, beyond which it has no defined result.
\<close>

section \<open>State\<close>

record con =
  cmem :: mem
  cX :: int
  cY :: int
  ports :: "(u16 \<times> u8) list"

definition vd_base :: nat where
  "vd_base = 0xb8000"

definition outb :: "con \<Rightarrow> u16 \<Rightarrow> u8 \<Rightarrow> con" where
  "outb c p v = c\<lparr>ports := ports c @ [(p, v)]\<rparr>"

text \<open>The byte that \<^verbatim>\<open>(char* )vd_addr + y*160 + x\<close> points to.\<close>

definition cell_at :: "int \<Rightarrow> int \<Rightarrow> nat option" where
  "cell_at y x =
     (if int_ok (y * 160) \<and> int_ok x \<and> 0 \<le> int vd_base + y * 160 + x
      then Some (nat (int vd_base + y * 160 + x)) else None)"

section \<open>Cursor and screen\<close>

definition c_half :: "int \<Rightarrow> int" where
  "c_half x = (if 0 \<le> x then x div 2 else - ((- x) div 2))"

definition move_csr :: "con \<Rightarrow> con" where
  "move_csr c =
     (let temp = word_of_int (cY c * 80 + c_half (cX c) + 1) :: u32;
          c = outb c 0x3D4 14;
          c = outb c 0x3D5 (ucast (drop_bit 8 temp));
          c = outb c 0x3D4 15
      in outb c 0x3D5 (ucast temp))"

definition update_cursor :: "con \<Rightarrow> int \<Rightarrow> int \<Rightarrow> con" where
  "update_cursor c x y =
     (let pos = word_of_int (y * 160 + c_half x) :: u16;
          c = outb c 0x3D4 0x0F;
          c = outb c 0x3D5 (ucast (pos AND 0xFF));
          c = outb c 0x3D4 0x0E
      in outb c 0x3D5 (ucast (drop_bit 8 pos AND 0xFF)))"

text \<open>The body of the loop over the lines: the line above is cleared, then takes the bytes of line
  \<open>i\<close> one by one, each of which is cleared.\<close>

definition clear_bytes :: "mem \<Rightarrow> nat \<Rightarrow> nat \<Rightarrow> mem" where
  "clear_bytes m p n = fold (\<lambda>k m. st8 m (p + k) 0) [0..<n] m"

definition move_bytes :: "mem \<Rightarrow> nat \<Rightarrow> nat \<Rightarrow> nat \<Rightarrow> mem" where
  "move_bytes m upr nxt n =
     fold (\<lambda>j m. let m = st8 m (upr + j) (ld8 m (nxt + j)) in st8 m (nxt + j) 0) [0..<n] m"

definition scroll_line :: "nat \<Rightarrow> mem \<Rightarrow> mem" where
  "scroll_line i m =
     (let nxt = vd_base + i * 160; upr = vd_base + (i - 1) * 160
      in move_bytes (clear_bytes m upr 160) upr nxt 160)"

definition scroll_up :: "con \<Rightarrow> con" where
  "scroll_up c = move_csr (c\<lparr>cmem := fold scroll_line [1..<24] (cmem c), cY := 23, cX := 0\<rparr>)"

definition clear_screen :: "con \<Rightarrow> con" where
  "clear_screen c =
     move_csr (c\<lparr>cmem := fold (\<lambda>y m. clear_bytes m (vd_base + y * 160) 160) [0..<25] (cmem c), cX := 0, cY := 0\<rparr>)"

section \<open>print_seq\<close>

definition next_line :: "con \<Rightarrow> int \<Rightarrow> con \<times> int" where
  "next_line c y = (let y = y + 1 in if y > 23 then (scroll_up c, 23) else (c, y))"

fun print_chars :: "con \<Rightarrow> int \<Rightarrow> int \<Rightarrow> u8 list \<Rightarrow> (con \<times> int \<times> int) option" where
  "print_chars c x y [] = Some (c, x, y)"
| "print_chars c x y (ch # t) =
     (if ch = 10 then
        let (c, y) = next_line c y in do { _ \<leftarrow> cell_at y 0; print_chars c 0 y t }
      else if ch = 13 then
        do { _ \<leftarrow> cell_at 0 x; print_chars c x 0 t }
      else
        let x = x + 2;
            (c, x, y) = (if x \<ge> 160 then let (c, y) = next_line c y in (c, 0, y) else (c, x, y))
        in do { temp2 \<leftarrow> cell_at y x;
                print_chars (c\<lparr>cmem := st8 (cmem c) temp2 ch\<rparr>) x y t })"

definition print_seq :: "con \<Rightarrow> u8 list \<Rightarrow> int \<Rightarrow> int \<Rightarrow> con option" where
  "print_seq c seq x y =
     (let overwrite_cood = (x = - 1 \<or> y = - 1);
          x = (if x = - 1 then cX c else x);
          y = (if y = - 1 then cY c else y)
      in do { _ \<leftarrow> cell_at y x;
              (c, x, y) \<leftarrow> print_chars c x y seq;
              Some (move_csr (if overwrite_cood then c\<lparr>cX := x, cY := y\<rparr> else c)) })"

section \<open>itoap\<close>

text \<open>The loop collects the digits from the lowest; a base other than 10 and 16 never changes the
  number, and the loop does not end.\<close>

partial_function (option) itoap_loop :: "u64 \<Rightarrow> int \<Rightarrow> u8 list \<Rightarrow> u8 list option" where
  "itoap_loop num base dest =
     (if num = 0 then Some dest
      else if base = 10 then itoap_loop (num div 10) base (dest @ [ucast (num mod 10) + 48])
      else if base = 16 then
        let r = num mod 16
        in itoap_loop (num div 16) base (dest @ [if 9 < r then ucast (r - 10) + 97 else ucast r + 48])
      else itoap_loop num base dest)"

text \<open>The text left in \<^verbatim>\<open>dest\<close> and the returned length; the copy and the reversal through
  \<^verbatim>\<open>tr\<close> need room for the text and its end mark.\<close>

definition itoap :: "u64 \<Rightarrow> int \<Rightarrow> (u8 list \<times> int) option" where
  "itoap num base =
     (if num = 0 then Some ([48], 2)
      else do { dest \<leftarrow> itoap_loop num base [];
                if length dest < FMT_LEN then Some (rev dest, int (length dest)) else None })"

section \<open>kprintf\<close>

datatype karg = ANum u64 | AStr "u8 list"

text \<open>One piece of the format with the arguments it consumes. The first two characters select the
  conversion; \<^verbatim>\<open>%c\<close> passes the address of a single character as a text, which is
  only defined for the character zero.\<close>

definition fits :: "u8 list \<Rightarrow> u8 list option" where
  "fits t = (if length t < FMT_LEN then Some t else None)"

definition render :: "u8 list \<Rightarrow> karg list \<Rightarrow> (u8 list \<times> karg list) option" where
  "render piece args =
     (let identfr = take 2 piece; trail = drop 2 piece in
      if identfr = [37, 100] \<or> identfr = [37, 120] \<or> identfr = [37, 112] then
        (case args of
           ANum num # args \<Rightarrow>
             do { (temp_tr, _) \<leftarrow> itoap num (if identfr = [37, 112] \<or> identfr = [37, 120] then 16 else 10);
                  str \<leftarrow> fits (temp_tr @ trail);
                  final_str \<leftarrow> (if identfr = [37, 112] then fits ([48, 120] @ str) else Some str);
                  Some (final_str, args) }
         | _ \<Rightarrow> None)
      else if identfr = [37, 115] then
        (case args of AStr a # args \<Rightarrow> do { str \<leftarrow> fits (a @ trail); Some (str, args) } | _ \<Rightarrow> None)
      else if identfr = [37, 99] then
        (case args of ANum n # args \<Rightarrow> if (ucast n :: u8) = 0 then Some (trail, args) else None | _ \<Rightarrow> None)
      else Some (piece, args))"

fun kprintf_loop :: "con \<Rightarrow> int \<Rightarrow> int \<Rightarrow> u8 list list \<Rightarrow> karg list \<Rightarrow> con option" where
  "kprintf_loop c x y [] args = Some c"
| "kprintf_loop c x y (p # ps) args =
     do { (t, args) \<leftarrow> render p args; c \<leftarrow> print_seq c t x y; kprintf_loop c x y ps args }"

definition fmt_pieces :: "u8 list \<Rightarrow> u8 list list option" where
  "fmt_pieces fmt =
     (let ps = pieces 37 [] fmt
      in if length ps \<le> 10 \<and> (\<forall>p \<in> set ps. length p < FMT_LEN) then Some ps else None)"

definition kprintf :: "con \<Rightarrow> u8 list \<Rightarrow> karg list \<Rightarrow> con option" where
  "kprintf c fmt args = do { ps \<leftarrow> fmt_pieces fmt; kprintf_loop c (- 1) (- 1) ps args }"

definition kprintf_at :: "con \<Rightarrow> u8 list \<Rightarrow> int \<Rightarrow> int \<Rightarrow> karg list \<Rightarrow> con option" where
  "kprintf_at c fmt x y args = do { ps \<leftarrow> fmt_pieces fmt; kprintf_loop c x y ps args }"

text \<open>The boot timer: characters behind cell 50 of line 24, two bytes apart.\<close>

fun boott_chars :: "mem \<Rightarrow> nat \<Rightarrow> u8 list \<Rightarrow> mem" where
  "boott_chars m temp2 [] = m"
| "boott_chars m temp2 (ch # t) = boott_chars (st8 m (temp2 + 2) ch) (temp2 + 2) t"

definition kprintf_boott :: "con \<Rightarrow> u8 list \<Rightarrow> int \<Rightarrow> con option" where
  "kprintf_boott c seq sec =
     do { (boots, _) \<leftarrow> itoap (word_of_int sec) 10;
          time_str \<leftarrow> fits (seq @ boots);
          Some (c\<lparr>cmem := boott_chars (cmem c) (vd_base + 24 * 160 + 100) time_str\<rparr>) }"

section \<open>Scrolling\<close>

lemma clear_bytes_apply: "clear_bytes m p n a = (if p \<le> a \<and> a < p + n then 0 else m a)"
  unfolding clear_bytes_def by (induction n) (auto simp: st8_apply)

lemma move_bytes_apply:
  assumes "upr + n \<le> nxt"
  shows "move_bytes m upr nxt n a =
    (if upr \<le> a \<and> a < upr + n then m (nxt + (a - upr)) else if nxt \<le> a \<and> a < nxt + n then 0 else m a)"
  using assms
proof (induction n arbitrary: a)
  case 0
  then show ?case by (auto simp: move_bytes_def)
next
  case (Suc n)
  let ?m = "move_bytes m upr nxt n"
  have "move_bytes m upr nxt (Suc n) = st8 (st8 ?m (upr + n) (ld8 ?m (nxt + n))) (nxt + n) 0"
    by (simp add: move_bytes_def Let_def)
  moreover have "ld8 ?m (nxt + n) = m (nxt + n)"
    using Suc.IH [of "nxt + n"] Suc.prems by (simp add: ld8_def)
  ultimately show ?case
    using Suc.IH [of a] Suc.prems by (auto simp: st8_apply)
qed

lemma scroll_line_apply:
  "0 < i \<Longrightarrow> scroll_line i m a =
    (if vd_base + (i - 1) * 160 \<le> a \<and> a < vd_base + i * 160 then m (a + 160)
     else if vd_base + i * 160 \<le> a \<and> a < vd_base + i * 160 + 160 then 0 else m a)"
  unfolding scroll_line_def Let_def
  by (cases i) (auto simp: move_bytes_apply clear_bytes_apply intro!: arg_cong [where f = m])

lemma scroll_lines:
  "fold scroll_line [Suc 0..<Suc n] m a =
    (if vd_base \<le> a \<and> a < vd_base + n * 160 then m (a + 160)
     else if 0 < n \<and> vd_base + n * 160 \<le> a \<and> a < vd_base + n * 160 + 160 then 0 else m a)"
proof (induction n arbitrary: a)
  case 0
  then show ?case by auto
next
  case (Suc n)
  have "fold scroll_line [Suc 0..<Suc (Suc n)] m = scroll_line (Suc n) (fold scroll_line [Suc 0..<Suc n] m)"
    by simp
  then show ?case by (auto simp: scroll_line_apply Suc.IH simp del: upt_Suc)
qed

lemma cmem_outb [simp]: "cmem (outb c p v) = cmem c" "cX (outb c p v) = cX c" "cY (outb c p v) = cY c"
  by (simp_all add: outb_def)

lemma cmem_move_csr [simp]: "cmem (move_csr c) = cmem c" "cX (move_csr c) = cX c" "cY (move_csr c) = cY c"
  by (simp_all add: move_csr_def Let_def)

lemma cmem_scroll_up:
  "cmem (scroll_up c) a =
    (if vd_base \<le> a \<and> a < vd_base + 3680 then cmem c (a + 160)
     else if vd_base + 3680 \<le> a \<and> a < vd_base + 3840 then 0 else cmem c a)"
proof -
  have "cmem (scroll_up c) = fold scroll_line [Suc 0..<Suc 23] (cmem c)" by (simp add: scroll_up_def)
  then show ?thesis by (simp only: scroll_lines) simp
qed

section \<open>A terminal as specification\<close>

text \<open>
  Twenty-four lines of eighty characters and a cursor. Writing a character moves the cursor
  first, so the character lands in the cell behind the cursor.
\<close>

record terminal =
  cells :: "nat \<Rightarrow> nat \<Rightarrow> u8"
  tcol :: nat
  trow :: nat

definition term_newline :: "terminal \<Rightarrow> terminal" where
  "term_newline t =
     (if trow t < 23 then t\<lparr>trow := Suc (trow t), tcol := 0\<rparr>
      else t\<lparr>cells := (\<lambda>r. if r < 23 then cells t (Suc r) else (\<lambda>_. 0)), tcol := 0\<rparr>)"

definition term_put :: "u8 \<Rightarrow> terminal \<Rightarrow> terminal" where
  "term_put ch t =
     (if ch = 10 then term_newline t
      else if ch = 13 then t\<lparr>trow := 0\<rparr>
      else let t = (if tcol t < 79 then t\<lparr>tcol := Suc (tcol t)\<rparr> else term_newline t)
           in t\<lparr>cells := (cells t)(trow t := (cells t (trow t))(tcol t := ch))\<rparr>)"

definition term_at :: "con \<Rightarrow> int \<Rightarrow> int \<Rightarrow> terminal \<Rightarrow> bool" where
  "term_at c x y t \<longleftrightarrow> trow t < 24 \<and> tcol t < 80 \<and> x = 2 * int (tcol t) \<and> y = int (trow t) \<and>
     (\<forall>r<24. \<forall>k<80. cmem c (vd_base + 160 * r + 2 * k) = cells t r k)"

definition off_screen :: "con \<Rightarrow> con \<Rightarrow> bool" where
  "off_screen c c' \<longleftrightarrow> (\<forall>a. a < vd_base \<or> vd_base + 3840 \<le> a \<longrightarrow> cmem c' a = cmem c a)"

lemma off_screen_trans: "off_screen c c' \<Longrightarrow> off_screen c' c'' \<Longrightarrow> off_screen c c''"
  by (simp add: off_screen_def)

lemma off_screen_refl [simp]: "cmem c' = cmem c \<Longrightarrow> off_screen c c'"
  by (simp add: off_screen_def)

lemma cell_at_grid: "r < 24 \<Longrightarrow> k < 80 \<Longrightarrow> cell_at (int r) (2 * int k) = Some (vd_base + 160 * r + 2 * k)"
  by (auto simp: cell_at_def int_ok_def nat_eq_iff)

lemma term_at_cell: "term_at c x y t \<Longrightarrow> cell_at y x = Some (vd_base + 160 * trow t + 2 * tcol t)"
  unfolding term_at_def using cell_at_grid by blast

lemma next_line_term:
  assumes "term_at c x y t"
  shows "\<exists>c' y'. next_line c y = (c', y') \<and> term_at c' 0 y' (term_newline t) \<and> off_screen c c'"
proof (cases "trow t < 23")
  case True
  then show ?thesis
    using assms by (simp add: next_line_def term_at_def term_newline_def)
next
  case False
  then have t: "trow t = 23" using assms by (simp add: term_at_def)
  then have "next_line c y = (scroll_up c, 23)" using assms by (simp add: next_line_def term_at_def)
  moreover have g: "cmem (scroll_up c) (vd_base + 160 * r + 2 * k) = (if r < 23 then cells t (Suc r) k else 0)"
    if "r < 24" "k < 80" for r k
  proof (cases "r < 23")
    case True
    have "\<forall>r<24. \<forall>k<80. cmem c (vd_base + 160 * r + 2 * k) = cells t r k" using assms by (simp add: term_at_def)
    then have "cmem c (vd_base + 160 * Suc r + 2 * k) = cells t (Suc r) k"
      by (rule allE [of _ "Suc r"]) (use that(2) True in simp)
    moreover have "vd_base + 160 * Suc r + 2 * k = vd_base + 160 * r + 2 * k + 160" by simp
    ultimately have "cmem c (vd_base + 160 * r + 2 * k + 160) = cells t (Suc r) k" by (simp only:)
    moreover have "160 * r + 2 * k < 3680" using True that(2) by simp
    ultimately show ?thesis using True unfolding cmem_scroll_up by simp
  next
    case False
    then show ?thesis using that unfolding cmem_scroll_up by simp
  qed
  moreover have "off_screen c (scroll_up c)" by (auto simp: off_screen_def cmem_scroll_up)
  moreover have "term_at (scroll_up c) 0 23 (term_newline t)"
    unfolding term_at_def by (intro conjI allI impI) (simp_all add: term_newline_def t g)
  ultimately show ?thesis by simp
qed

lemma grid_inj:
  assumes "k < 80" and "k' < 80"
  shows "vd_base + 160 * r + 2 * k = vd_base + 160 * r' + 2 * k' \<longleftrightarrow> r = r' \<and> k = k'"
proof
  assume "vd_base + 160 * r + 2 * k = vd_base + 160 * r' + 2 * k'"
  then have e: "80 * r + k = 80 * r' + k'" by simp
  have "r = (80 * r + k) div 80" "r' = (80 * r' + k') div 80" using assms by simp_all
  then have "r = r'" by (simp only: e)
  with e show "r = r' \<and> k = k'" by simp
qed simp

lemma put_cell_term:
  assumes "term_at c x y t"
  shows "term_at (c\<lparr>cmem := st8 (cmem c) (vd_base + 160 * trow t + 2 * tcol t) ch\<rparr>) x y
      (t\<lparr>cells := (cells t)(trow t := (cells t (trow t))(tcol t := ch))\<rparr>)"
    and "off_screen c (c\<lparr>cmem := st8 (cmem c) (vd_base + 160 * trow t + 2 * tcol t) ch\<rparr>)"
proof -
  have t: "trow t < 24" "tcol t < 80" using assms by (simp_all add: term_at_def)
  show "off_screen c (c\<lparr>cmem := st8 (cmem c) (vd_base + 160 * trow t + 2 * tcol t) ch\<rparr>)"
    using t by (auto simp: off_screen_def st8_apply)
  show "term_at (c\<lparr>cmem := st8 (cmem c) (vd_base + 160 * trow t + 2 * tcol t) ch\<rparr>) x y
      (t\<lparr>cells := (cells t)(trow t := (cells t (trow t))(tcol t := ch))\<rparr>)"
    using assms t grid_inj [of _ "tcol t" _ "trow t"] by (simp add: term_at_def st8_apply)
qed

lemma print_char_term:
  assumes "term_at c x y t"
  shows "\<exists>c' x' y'. print_chars c x y (ch # rest) = print_chars c' x' y' rest \<and>
    term_at c' x' y' (term_put ch t) \<and> off_screen c c'"
proof -
  consider (nl) "ch = 10" | (cr) "ch = 13" | (plain) "ch \<noteq> 10" "ch \<noteq> 13" by blast
  then show ?thesis
  proof cases
    case nl
    obtain c' y' where n: "next_line c y = (c', y')" "term_at c' 0 y' (term_newline t)" "off_screen c c'"
      using next_line_term [OF assms] by blast
    have "cell_at y' 0 \<noteq> None" using term_at_cell [OF n(2)] by simp
    then show ?thesis
      using nl n by (intro exI [of _ c'] exI [of _ 0] exI [of _ y']) (auto simp: term_put_def)
  next
    case cr
    have "term_at c x 0 (t\<lparr>trow := 0\<rparr>)" using assms by (simp add: term_at_def)
    then show ?thesis
      using cr term_at_cell [of c x 0 "t\<lparr>trow := 0\<rparr>"]
      by (intro exI [of _ c] exI [of _ x] exI [of _ 0]) (simp add: term_put_def)
  next
    case plain
    let ?t = "if tcol t < 79 then t\<lparr>tcol := Suc (tcol t)\<rparr> else term_newline t"
    obtain c' x' y' where n: "(if x + 2 \<ge> 160 then let (c, y) = next_line c y in (c, 0, y) else (c, x + 2, y)) = (c', x', y')"
        "term_at c' x' y' ?t" "off_screen c c'"
    proof (cases "tcol t < 79")
      case True
      then have "term_at c (x + 2) y ?t" "\<not> x + 2 \<ge> 160" using assms by (simp_all add: term_at_def)
      then show ?thesis using that by simp
    next
      case False
      then have "x + 2 \<ge> 160" using assms by (simp add: term_at_def)
      then show ?thesis using that next_line_term [OF assms] False by auto
    qed
    note cell = term_at_cell [OF n(2)]
    have "print_chars c x y (ch # rest) =
        print_chars (c'\<lparr>cmem := st8 (cmem c') (vd_base + 160 * trow ?t + 2 * tcol ?t) ch\<rparr>) x' y' rest"
      using plain n(1) cell by (simp add: Let_def)
    moreover have "term_put ch t = ?t\<lparr>cells := (cells ?t)(trow ?t := (cells ?t (trow ?t))(tcol ?t := ch))\<rparr>"
      using plain by (simp add: term_put_def Let_def)
    ultimately show ?thesis
      using put_cell_term [OF n(2), of ch] off_screen_trans [OF n(3)] by metis
  qed
qed

lemma print_chars_term:
  assumes "term_at c x y t"
  shows "\<exists>c' x' y'. print_chars c x y tx = Some (c', x', y') \<and> term_at c' x' y' (fold term_put tx t) \<and> off_screen c c'"
  using assms
proof (induction tx arbitrary: c x y t)
  case Nil
  then show ?case by simp
next
  case (Cons ch tx)
  obtain c1 x1 y1 where s1: "print_chars c x y (ch # tx) = print_chars c1 x1 y1 tx"
      "term_at c1 x1 y1 (term_put ch t)" "off_screen c c1"
    using print_char_term [OF Cons.prems] by blast
  from Cons.IH [OF s1(2)] show ?case
    using s1(1) off_screen_trans [OF s1(3)] by auto
qed

section \<open>Formatted output\<close>

definition con_term :: "con \<Rightarrow> terminal \<Rightarrow> bool" where
  "con_term c t \<longleftrightarrow> term_at c (cX c) (cY c) t"

lemma print_seq_term:
  assumes "con_term c t"
  shows "\<exists>c'. print_seq c tx (- 1) (- 1) = Some c' \<and> con_term c' (fold term_put tx t) \<and> off_screen c c'"
proof -
  have t: "term_at c (cX c) (cY c) t" using assms by (simp add: con_term_def)
  obtain c' x' y' where p: "print_chars c (cX c) (cY c) tx = Some (c', x', y')"
      "term_at c' x' y' (fold term_put tx t)" "off_screen c c'"
    using print_chars_term [OF t] by blast
  let ?c = "move_csr (c'\<lparr>cX := x', cY := y'\<rparr>)"
  have "print_seq c tx (- 1) (- 1) = Some ?c"
    using p(1) term_at_cell [OF t] by (simp add: print_seq_def Let_def)
  moreover have "con_term ?c (fold term_put tx t)" using p(2) by (simp add: con_term_def term_at_def)
  moreover have "off_screen c ?c" using p(3) by (simp add: off_screen_def)
  ultimately show ?thesis by blast
qed

fun render_all :: "u8 list list \<Rightarrow> karg list \<Rightarrow> u8 list option" where
  "render_all [] args = Some []"
| "render_all (p # ps) args = do { (t, args) \<leftarrow> render p args; u \<leftarrow> render_all ps args; Some (t @ u) }"

lemma kprintf_loop_term:
  assumes "con_term c t" and "render_all ps args = Some tx"
  shows "\<exists>c'. kprintf_loop c (- 1) (- 1) ps args = Some c' \<and> con_term c' (fold term_put tx t) \<and> off_screen c c'"
  using assms
proof (induction ps arbitrary: c t args tx)
  case (Cons p ps)
  then obtain u args' v where r: "render p args = Some (u, args')" "render_all ps args' = Some v" "tx = u @ v"
    by (auto simp: bind_eq_Some_conv)
  obtain c1 where c1: "print_seq c u (- 1) (- 1) = Some c1" "con_term c1 (fold term_put u t)" "off_screen c c1"
    using print_seq_term [OF Cons.prems(1)] by blast
  from Cons.IH [OF c1(2) r(2)] show ?case
    using r c1 off_screen_trans [OF c1(3)] by auto
qed simp

lemma kprintf_term:
  assumes "con_term c t" and "fmt_pieces fmt = Some ps" and "render_all ps args = Some tx"
  shows "\<exists>c'. kprintf c fmt args = Some c' \<and> con_term c' (fold term_put tx t) \<and> off_screen c c'"
  using kprintf_loop_term [OF assms(1,3)] assms(2) by (simp add: kprintf_def)

lemma pieces_plain: "37 \<notin> set cs \<Longrightarrow> pieces 37 cur cs = [cur @ cs]"
  by (induction cs arbitrary: cur) auto

lemma fmt_plain:
  assumes "37 \<notin> set fmt" and "length fmt < FMT_LEN"
  shows "fmt_pieces fmt = Some [fmt]" "render_all [fmt] args = Some fmt"
proof -
  show "fmt_pieces fmt = Some [fmt]" using assms by (simp add: fmt_pieces_def pieces_plain)
  have "take 2 fmt \<noteq> [37, d]" for d using assms(1) in_set_takeD [of 37 2 fmt] by (metis list.set_intros(1))
  then show "render_all [fmt] args = Some fmt" by (simp add: render_def Let_def)
qed

section \<open>Numbers\<close>

lemma itoap_loop_digits:
  assumes "base = 10 \<or> base = 16"
  shows "itoap_loop num base dest = Some (dest @ rev (digits (nat base) (unat num)))"
proof (induction "unat num" arbitrary: num dest rule: less_induct)
  case less
  show ?case
  proof (cases "num = 0")
    case True
    then show ?thesis by (simp add: itoap_loop.simps)
  next
    case False
    let ?b = "of_int base :: u64"
    have b: "unat ?b = nat base" "2 \<le> nat base" using assms by auto
    have q: "unat (num div ?b) = unat num div nat base" "unat (num mod ?b) = unat num mod nat base"
      by (simp_all add: unat_div_distrib unat_mod_distrib b(1))
    have nz: "unat num \<noteq> 0" using False by (simp add: unat_eq_0)
    then have "unat (num div ?b) < unat num" using b(2) q(1) by simp
    note IH = less [OF this]
    let ?c = "hex_char (unat num mod nat base)"
    have "itoap_loop num base dest = itoap_loop (num div ?b) base (dest @ [?c])"
      using assms
    proof
      assume base: "base = 10"
      have "ucast (num mod 10) + (48 :: u8) = of_nat (48 + unat (num mod 10))"
        by simp
      moreover have "unat num mod 10 = unat (num mod 10)" using q(2) base by simp
      moreover have "unat num mod 10 < 10" by simp
      ultimately have "ucast (num mod 10) + (48 :: u8) = hex_char (unat num mod 10)"
        by (simp add: hex_char_def)
      then show ?thesis using base False by (subst itoap_loop.simps) simp
    next
      assume base: "base = 16"
      let ?r = "num mod 16"
      have r: "unat ?r = unat num mod 16" using q(2) base by simp
      have "(if 9 < ?r then ucast (?r - 10) + 97 else ucast ?r + 48 :: u8) = hex_char (unat num mod 16)"
      proof (cases "9 < ?r")
        case True
        then have "10 \<le> unat ?r" by (simp add: word_less_nat_alt)
        moreover have "ucast (?r - 10) + (97 :: u8) = of_nat (97 + unat (?r - 10))" by simp
        moreover have "unat (?r - 10) = unat ?r - 10" using True by (intro unat_sub [of 10 ?r, simplified]) (simp add: word_le_nat_alt word_less_nat_alt)
        moreover have "97 + (unat ?r - 10) = 87 + unat ?r" using calculation(1) by simp
        ultimately show ?thesis using True r by (simp add: hex_char_def del: of_nat_add)
      next
        case F: False
        then have "unat ?r < 10" by (simp add: word_less_nat_alt)
        moreover have "ucast ?r + (48 :: u8) = of_nat (48 + unat ?r)" by simp
        ultimately show ?thesis using F r by (simp add: hex_char_def del: of_nat_add)
      qed
      then show ?thesis using base False by (subst itoap_loop.simps) (simp add: Let_def)
    qed
    moreover have "digits (nat base) (unat num) = digits (nat base) (unat num div nat base) @ [?c]"
      using nz b(2) by (subst digits.simps) simp
    ultimately show ?thesis using IH [of "dest @ [?c]"] q(1) by simp
  qed
qed

lemma itoap_text:
  assumes "base = 10 \<or> base = 16"
  shows "itoap num base = Some (numeral_text (nat base) (unat num), if num = 0 then 2 else int (length (numeral_text (nat base) (unat num))))"
proof (cases "num = 0")
  case False
  have "unat num < 2 ^ 64" using unsigned_less [of num] by simp
  then have "unat num < nat base ^ 20" using assms by auto
  then have "length (digits (nat base) (unat num)) \<le> 20" using assms by (intro length_digits) auto
  then show ?thesis
    using False itoap_loop_digits [OF assms, of num "[]"] by (simp add: itoap_def numeral_text_def unat_eq_0)
qed (simp add: itoap_def numeral_text_def)

lemma itoap_loop_stuck: "itoap_loop num base dest = Some r \<Longrightarrow> num \<noteq> 0 \<longrightarrow> base = 10 \<or> base = 16"
  by (erule itoap_loop.raw_induct [rotated]) (auto split: if_splits)

definition blank_con :: con where
  "blank_con = \<lparr>cmem = (\<lambda>_. 0), cX = 0, cY = 0, ports = []\<rparr>"

definition blank_terminal :: terminal where
  "blank_terminal = \<lparr>cells = (\<lambda>_ _. 0), tcol = 0, trow = 0\<rparr>"

lemma blank_con_term: "con_term blank_con blank_terminal"
  by (simp add: con_term_def term_at_def blank_con_def blank_terminal_def)

section \<open>Properties\<close>

text \<open>
  C4. \<^verbatim>\<open>kprintf\<close> refines writing on a terminal: when the format splits into pieces that
  fit the buffers and every conversion has its argument, the call returns, the screen shows
  what the terminal shows after the rendered text, the cursor agrees, and no byte outside the 24
  lines is written.
\<close>

theorem kprintf_refines_terminal:
  assumes "con_term c t" and "fmt_pieces fmt = Some ps" and "render_all ps args = Some tx"
  shows "\<exists>c'. kprintf c fmt args = Some c' \<and> con_term c' (fold term_put tx t) \<and>
    (\<forall>a. a < 0xb8000 \<or> 0xb8000 + 24 * 160 \<le> a \<longrightarrow> cmem c' a = cmem c a)"
  using kprintf_term [OF assms] by (auto simp: off_screen_def vd_base_def)

theorem kprintf_refines_terminal_witness:
  "\<exists>c'. kprintf blank_con [110, 61, 37, 100, 10] [ANum 42] = Some c' \<and>
     con_term c' (fold term_put [110, 61, 52, 50, 10] blank_terminal)"
proof -
  have p: "fmt_pieces [110, 61, 37, 100, 10] = Some [[110, 61], [37, 100, 10]]" by (simp add: fmt_pieces_def)
  have "itoap 42 10 = Some ([52, 50], 2)"
    using itoap_text [of 10 42] by (simp add: numeral_text_def digits.simps [of 10 42] digits.simps [of 10 4] hex_char_def)
  then have "render_all [[110, 61], [37, 100, 10]] [ANum 42] = Some [110, 61, 52, 50, 10]"
    by (simp add: render_def fits_def Let_def)
  from kprintf_refines_terminal [OF blank_con_term p this] show ?thesis by blast
qed

text \<open>
  C36. The two number printers of the kernel agree: the text of \<^verbatim>\<open>itoap\<close> is the text
  that \<^verbatim>\<open>itoa\<close> writes in front of the end of its buffer, in base 10 and in base 16.
\<close>

theorem itoap_agrees_itoa:
  assumes "base = 10 \<or> base = 16" and "20 \<le> str"
  shows "\<exists>t n. itoap num base = Some (t, n) \<and> length t \<le> 20 \<and>
    itoa m num str base = Some (blit m (str - length t) (t @ [0]), str - length t)"
proof -
  let ?t = "numeral_text (nat base) (unat num)"
  have "unat num < 2 ^ 64" using unsigned_less [of num] by simp
  then have "unat num < nat base ^ 20" using assms(1) by auto
  then have "length (digits (nat base) (unat num)) \<le> 20" using assms(1) by (intro length_digits) auto
  then have "length ?t \<le> 20" by (simp add: numeral_text_def)
  then show ?thesis using itoap_text [OF assms(1)] itoa_text [OF assms(1), of num str m] assms(2) by auto
qed

theorem itoap_agrees_itoa_witness:
  "\<exists>t n. itoap 255 16 = Some (t, n) \<and> itoa (\<lambda>_. 0) 255 64 16 = Some (blit (\<lambda>_. 0) (64 - length t) (t @ [0]), 64 - length t)"
  using itoap_agrees_itoa [of 16 64 255 "\<lambda>_. 0"] by auto

text \<open>
  C37. \<^verbatim>\<open>itoap\<close> returns exactly for the number zero and for the bases 10 and 16; for any
  other base its loop never ends.
\<close>

theorem itoap_returns_iff: "(\<exists>r. itoap num base = Some r) \<longleftrightarrow> num = 0 \<or> base = 10 \<or> base = 16"
proof
  assume "\<exists>r. itoap num base = Some r"
  then show "num = 0 \<or> base = 10 \<or> base = 16"
    using itoap_loop_stuck by (fastforce simp: itoap_def bind_eq_Some_conv split: if_splits)
next
  assume "num = 0 \<or> base = 10 \<or> base = 16"
  then consider "num = 0" | "base = 10 \<or> base = 16" by blast
  then show "\<exists>r. itoap num base = Some r"
  proof cases
    case 1
    then show ?thesis by (simp add: itoap_def)
  next
    case 2
    from itoap_text [OF this] show ?thesis by blast
  qed
qed

text \<open>
  With the cursor in the first column, as after every line end, a character is written
  to the second column and the first one keeps its old content.
\<close>

theorem kprintf_skips_first_column:
  assumes "con_term c t" and "tcol t = 0" and "ch \<noteq> 10" and "ch \<noteq> 13" and "ch \<noteq> 37"
  shows "\<exists>c'. kprintf c [ch] [] = Some c' \<and> cmem c' (0xb8000 + 160 * trow t) = cmem c (0xb8000 + 160 * trow t) \<and>
    cmem c' (0xb8000 + 160 * trow t + 2) = ch"
proof -
  have f: "fmt_pieces [ch] = Some [[ch]]" "render_all [[ch]] [] = Some [ch]"
    using fmt_plain(1) [of "[ch]"] fmt_plain(2) [of "[ch]" "[]"] assms(5) by simp_all
  obtain c' where c': "kprintf c [ch] [] = Some c'" "con_term c' (fold term_put [ch] t)"
    using kprintf_term [OF assms(1) f] by blast
  have r: "trow t < 24" using assms(1) by (simp add: con_term_def term_at_def)
  have new: "\<forall>r<24. \<forall>k<80. cmem c' (vd_base + 160 * r + 2 * k) = cells (term_put ch t) r k"
    using c'(2) by (simp add: con_term_def term_at_def)
  have old: "\<forall>r<24. \<forall>k<80. cmem c (vd_base + 160 * r + 2 * k) = cells t r k"
    using assms(1) by (simp add: con_term_def term_at_def)
  have "cells (term_put ch t) (trow t) 0 = cells t (trow t) 0" "cells (term_put ch t) (trow t) 1 = ch"
    using assms(2-4) by (simp_all add: term_put_def)
  then show ?thesis
    using c'(1) new [rule_format, OF r, of 0] new [rule_format, OF r, of 1] old [rule_format, OF r, of 0]
    by (simp add: vd_base_def)
qed

theorem kprintf_skips_first_column_witness:
  "\<exists>c'. kprintf blank_con [65] [] = Some c' \<and> cmem c' 0xb8000 = 0 \<and> cmem c' 0xb8002 = 65"
  using kprintf_skips_first_column [OF blank_con_term, of 65] by (auto simp: blank_con_def blank_terminal_def)

text \<open>
  \<^verbatim>\<open>clear_screen\<close> and \<^verbatim>\<open>scroll_up\<close> write zero to the colour byte of every
  cell they clear, although the boot code sets all of them to white.
\<close>

theorem clear_loses_colour:
  assumes "r < 25" and "k < 80"
  shows "cmem (clear_screen c) (0xb8001 + 160 * r + 2 * k) = 0 \<and> cmem (scroll_up c) (0xb8001 + 160 * 23 + 2 * k) = 0"
proof -
  have "fold (\<lambda>y m. clear_bytes m (vd_base + y * 160) 160) [0..<n] m a =
      (if vd_base \<le> a \<and> a < vd_base + 160 * n then 0 else m a)" for n a and m :: mem
    by (induction n) (auto simp: clear_bytes_apply)
  then have "cmem (clear_screen c) a = (if vd_base \<le> a \<and> a < vd_base + 160 * 25 then 0 else cmem c a)" for a
    by (simp add: clear_screen_def)
  moreover have "vd_base + 160 * r + 2 * k + 1 < vd_base + 160 * 25" using assms by simp
  ultimately show ?thesis using assms by (simp add: cmem_scroll_up vd_base_def)
qed

theorem clear_loses_colour_witness:
  "cmem (clear_screen (blank_con\<lparr>cmem := (\<lambda>_. 7)\<rparr>)) 0xb8001 = 0"
  using clear_loses_colour [of 0 0 "blank_con\<lparr>cmem := (\<lambda>_. 7)\<rparr>"] by simp

end
