(* ===== verification/Keyboard.thy ===== *)
theory Keyboard
  imports CStrings
begin

text \<open>
  The keyboard handler \<^verbatim>\<open>irq_kb_handler\<close> of \<^verbatim>\<open>sys/idt.c\<close> with the scan code
  table of \<^verbatim>\<open>sys/kb_map.h\<close>: the line buffer \<^verbatim>\<open>char_buf\<close>, its index, the line end
  mark and the shift state. The two bytes read from the controller are arguments; what is echoed to
  the console is recorded as events. The specification is a line editor on lists.
\<close>

section \<open>State and tables\<close>

datatype kb_event = Out u16 u8 | Echo u8 | Erase | Newline | Cursor

record kbd =
  char_buf :: "nat \<Rightarrow> u8"
  buf_idx :: int
  new_line :: int
  SHIFT_ON :: int
  CTRL_ON :: int
  kb_log :: "kb_event list"

definition kbdus :: "u8 list" where
  "kbdus =
    [0, 27, 49, 50, 51, 52, 53, 54, 55, 56, 57, 48, 45, 61, 8, 9,
     113, 119, 101, 114, 116, 121, 117, 105, 111, 112, 91, 93, 10, 0, 97, 115,
     100, 102, 103, 104, 106, 107, 108, 59, 39, 96, 0, 92, 122, 120, 99, 118,
     98, 110, 109, 44, 46, 47, 0, 42, 0, 32, 0, 0, 0, 0, 0, 0,
     0, 0, 0, 0, 0, 0, 0, 0, 0, 0, 45, 0, 0, 0, 43, 0,
     0, 0, 0, 0, 0, 0, 0, 0, 0, 0, 0, 0, 0, 0, 0, 0,
     0, 0, 0, 0, 0, 0, 0, 0, 0, 0, 0, 0, 0, 0, 0, 0,
     0, 0, 0, 0, 0, 0, 0, 0, 0, 0, 0, 0, 0, 0, 0, 0]"

text \<open>The cases of the switch on a key that is pressed together with shift.\<close>

definition shift_table :: "(nat \<times> u8) list" where
  "shift_table = [(2, 33), (3, 64), (4, 35), (5, 36), (6, 37), (7, 94), (8, 38), (9, 42), (10, 40), (11, 41), (12, 95), (13, 43), (26, 123), (27, 125), (39, 58), (40, 34), (41, 126), (43, 124), (51, 60), (52, 62), (53, 63)]"

definition shift_char :: "nat \<Rightarrow> u8" where
  "shift_char key = (case map_of shift_table key of Some c \<Rightarrow> c | None \<Rightarrow> kbdus ! key - 32)"

section \<open>The handler\<close>

definition emit :: "kbd \<Rightarrow> kb_event \<Rightarrow> kbd" where
  "emit k e = k\<lparr>kb_log := kb_log k @ [e]\<rparr>"

text \<open>\<^verbatim>\<open>char_buf[buf_idx++] = c\<close> for the array of 1024 bytes.\<close>

definition buf_put :: "kbd \<Rightarrow> u8 \<Rightarrow> kbd option" where
  "buf_put k c =
     (if 0 \<le> buf_idx k \<and> buf_idx k < 1024
      then Some (k\<lparr>char_buf := (char_buf k)(nat (buf_idx k) := c), buf_idx := buf_idx k + 1\<rparr>) else None)"

definition irq_kb_handler :: "kbd \<Rightarrow> u8 \<Rightarrow> u8 \<Rightarrow> kbd option" where
  "irq_kb_handler k status data =
     (let k = emit (emit k (Out 0x20 0x20)) (Out 0xa0 0x20) in
      if status AND 1 = 0 then Some k
      else let key = unat data in
        if key = 0x2a then Some (k\<lparr>SHIFT_ON := 1\<rparr>)
        else if key = 0xaa then Some (k\<lparr>SHIFT_ON := 0\<rparr>)
        else if key = 0x1d then buf_put (emit (k\<lparr>CTRL_ON := 1, SHIFT_ON := 1\<rparr>) (Echo 94)) 94
        else if key = 0x9d then Some (k\<lparr>CTRL_ON := 0, SHIFT_ON := 0\<rparr>)
        else if key = 0x0e then
          (if 0 < buf_idx k then
             if buf_idx k < 1024 then
               let k = k\<lparr>char_buf := (char_buf k)(nat (buf_idx k) := 0)\<rparr>;
                   k = emit k Erase
               in Some (emit (k\<lparr>buf_idx := buf_idx k - 1\<rparr>) Cursor)
             else None
           else Some (emit k Cursor))
        else if key = 0x1c then buf_put (emit (k\<lparr>new_line := 1\<rparr>) Newline) 10
        else if key < 0x52 then
          (if SHIFT_ON k = 1 then buf_put (emit k (Echo (shift_char key))) (shift_char key)
           else buf_put (emit k (Echo (kbdus ! key))) (kbdus ! key))
        else Some k)"

fun kb_keys :: "kbd \<Rightarrow> u8 list \<Rightarrow> kbd option" where
  "kb_keys k [] = Some k"
| "kb_keys k (d # ds) = do { k \<leftarrow> irq_kb_handler k 1 d; kb_keys k ds }"

section \<open>A line editor as specification\<close>

record editor =
  line :: "u8 list"
  shifted :: bool

definition edit :: "u8 \<Rightarrow> editor \<Rightarrow> editor" where
  "edit d e =
     (let key = unat d in
      if key = 0x2a then e\<lparr>shifted := True\<rparr>
      else if key = 0xaa then e\<lparr>shifted := False\<rparr>
      else if key = 0x1d then e\<lparr>shifted := True, line := line e @ [94]\<rparr>
      else if key = 0x9d then e\<lparr>shifted := False\<rparr>
      else if key = 0x0e then e\<lparr>line := butlast (line e)\<rparr>
      else if key = 0x1c then e\<lparr>line := line e @ [10]\<rparr>
      else if key < 0x52 then e\<lparr>line := line e @ [if shifted e then shift_char key else kbdus ! key]\<rparr>
      else e)"

text \<open>The byte at the index is free: a deleted character stays there until the next key. Every byte
  behind it is zero.\<close>

definition kb_rep :: "kbd \<Rightarrow> editor \<Rightarrow> bool" where
  "kb_rep k e \<longleftrightarrow> buf_idx k = int (length (line e)) \<and> (SHIFT_ON k = 1 \<longleftrightarrow> shifted e) \<and>
     (\<forall>i < length (line e). char_buf k i = line e ! i) \<and>
     (\<forall>j. length (line e) < j \<and> j < 1024 \<longrightarrow> char_buf k j = 0)"

lemma emit_fields [simp]:
  "char_buf (emit k ev) = char_buf k" "buf_idx (emit k ev) = buf_idx k"
  "new_line (emit k ev) = new_line k" "SHIFT_ON (emit k ev) = SHIFT_ON k"
  by (simp_all add: emit_def)

lemma kb_rep_put:
  assumes "kb_rep k e" and "length (line e) < 1024"
  shows "\<exists>k'. buf_put k c = Some k' \<and> kb_rep k' (e\<lparr>line := line e @ [c]\<rparr>) \<and> new_line k' = new_line k"
  using assms by (auto simp: buf_put_def kb_rep_def nth_append less_Suc_eq)

lemma kb_rep_cong:
  "kb_rep k e \<Longrightarrow> char_buf k' = char_buf k \<Longrightarrow> buf_idx k' = buf_idx k \<Longrightarrow> (SHIFT_ON k' = 1 \<longleftrightarrow> b) \<Longrightarrow>
   kb_rep k' (e\<lparr>shifted := b\<rparr>)"
  by (simp add: kb_rep_def)

lemma kb_rep_same:
  "kb_rep k e \<Longrightarrow> char_buf k' = char_buf k \<Longrightarrow> buf_idx k' = buf_idx k \<Longrightarrow> SHIFT_ON k' = SHIFT_ON k \<Longrightarrow> kb_rep k' e"
  by (simp add: kb_rep_def)

lemma kb_rep_event [simp]: "kb_rep (emit k ev) e = kb_rep k e"
  by (simp add: kb_rep_def)

lemma kb_rep_erase:
  assumes "kb_rep k e" and "line e \<noteq> []" and "length (line e) < 1024"
  shows "kb_rep (k\<lparr>char_buf := (char_buf k)(length (line e) := 0), buf_idx := buf_idx k - 1\<rparr>)
    (e\<lparr>line := butlast (line e)\<rparr>)"
  using assms by (auto simp: kb_rep_def nth_butlast of_nat_diff Suc_leI)

lemma irq_kb_edit:
  assumes "kb_rep k e" and len: "length (line e) < 1024"
  shows "\<exists>k'. irq_kb_handler k 1 d = Some k' \<and> kb_rep k' (edit d e) \<and>
    new_line k' = (if unat d = 0x1c then 1 else new_line k)"
proof -
  define k0 where "k0 = emit (emit k (Out 0x20 0x20)) (Out 0xa0 0x20)"
  let ?key = "unat d"
  have rep: "kb_rep k0 e" using assms(1) by (simp add: k0_def)
  have nl: "new_line k0 = new_line k" by (simp add: k0_def)
  have sh: "SHIFT_ON k0 = 1 \<longleftrightarrow> shifted e" using rep by (simp add: kb_rep_def)
  have put: "\<exists>k'. buf_put k1 c = Some k' \<and> kb_rep k' (e'\<lparr>line := line e @ [c]\<rparr>) \<and> new_line k' = new_line k1"
    if "kb_rep k1 e'" "line e' = line e" for k1 e' c
    using kb_rep_put [OF that(1), of c] that(2) len by simp
  note run = irq_kb_handler_def [of k 1 d, folded k0_def] and ed = edit_def [of d e]
  consider (shift) "?key = 0x2a" | (unshift) "?key = 0xaa" | (ctrl) "?key = 0x1d" | (unctrl) "?key = 0x9d"
    | (bksp) "?key = 0x0e" | (enter) "?key = 0x1c"
    | (plain) "?key < 0x52" "?key \<notin> {0x2a, 0xaa, 0x1d, 0x9d, 0x0e, 0x1c}"
    | (other) "\<not> ?key < 0x52" "?key \<notin> {0x2a, 0xaa, 0x1d, 0x9d, 0x0e, 0x1c}"
    by blast
  then show ?thesis
  proof cases
    case shift
    have "kb_rep (k0\<lparr>SHIFT_ON := 1\<rparr>) (e\<lparr>shifted := True\<rparr>)" by (rule kb_rep_cong [OF rep]) simp_all
    then show ?thesis using shift nl by (simp add: run ed Let_def)
  next
    case unshift
    have "kb_rep (k0\<lparr>SHIFT_ON := 0\<rparr>) (e\<lparr>shifted := False\<rparr>)" by (rule kb_rep_cong [OF rep]) simp_all
    then show ?thesis using unshift nl by (simp add: run ed Let_def)
  next
    case ctrl
    have "kb_rep (k0\<lparr>CTRL_ON := 1, SHIFT_ON := 1\<rparr>) (e\<lparr>shifted := True\<rparr>)" by (rule kb_rep_cong [OF rep]) simp_all
    then have "kb_rep (emit (k0\<lparr>CTRL_ON := 1, SHIFT_ON := 1\<rparr>) (Echo 94)) (e\<lparr>shifted := True\<rparr>)" by simp
    from put [OF this, of 94] show ?thesis using ctrl nl by (simp add: run ed Let_def)
  next
    case unctrl
    have "kb_rep (k0\<lparr>CTRL_ON := 0, SHIFT_ON := 0\<rparr>) (e\<lparr>shifted := False\<rparr>)" by (rule kb_rep_cong [OF rep]) simp_all
    then show ?thesis using unctrl nl by (simp add: run ed Let_def)
  next
    case bksp
    have idx: "buf_idx k0 = int (length (line e))" using rep by (simp add: kb_rep_def)
    show ?thesis
    proof (cases "line e = []")
      case True
      then have "kb_rep k0 (e\<lparr>line := []\<rparr>)" using rep by (simp add: kb_rep_def)
      then show ?thesis using bksp nl idx True by (simp add: run ed Let_def)
    next
      case False
      let ?k = "(emit (k0\<lparr>char_buf := (char_buf k0)(length (line e) := 0)\<rparr>) Erase)\<lparr>buf_idx := int (length (line e)) - 1\<rparr>"
      have "kb_rep ?k (e\<lparr>line := butlast (line e)\<rparr>)"
        by (rule kb_rep_same [OF kb_rep_erase [OF rep False len]]) (simp_all add: idx)
      then show ?thesis using bksp nl idx False len by (simp add: run ed Let_def)
    qed
  next
    case enter
    have "kb_rep (emit (k0\<lparr>new_line := 1\<rparr>) Newline) e" using rep by (simp add: kb_rep_def)
    from put [OF this, of 10] show ?thesis using enter by (simp add: run ed Let_def)
  next
    case plain
    let ?c = "if shifted e then shift_char ?key else kbdus ! ?key"
    have "kb_rep (emit k0 (Echo ?c)) e" using rep by simp
    from put [OF this, of ?c] show ?thesis using plain nl sh by (cases "shifted e") (simp_all add: run ed Let_def)
  next
    case other
    then show ?thesis using rep nl by (simp add: run ed Let_def)
  qed
qed

lemma edit_length: "length (line (edit d e)) \<le> Suc (length (line e))"
  by (auto simp: edit_def Let_def)

lemma kb_keys_edit:
  assumes "kb_rep k e" and "length (line e) + length ds \<le> 1024"
  shows "\<exists>k'. kb_keys k ds = Some k' \<and> kb_rep k' (fold edit ds e)"
  using assms
proof (induction ds arbitrary: k e)
  case (Cons d ds)
  then obtain k1 where k1: "irq_kb_handler k 1 d = Some k1" "kb_rep k1 (edit d e)"
    using irq_kb_edit [of k e d] by auto
  have "length (line (edit d e)) + length ds \<le> 1024" using Cons.prems(2) edit_length [of d e] by simp
  from Cons.IH [OF k1(2) this] show ?case using k1(1) by simp
qed simp

lemma kb_keys_append: "kb_keys k (ds @ es) = do { k \<leftarrow> kb_keys k ds; kb_keys k es }"
  by (induction ds arbitrary: k) (auto split: bind_splits)

definition fresh_kbd :: kbd where
  "fresh_kbd = \<lparr>char_buf = (\<lambda>_. 0), buf_idx = 0, new_line = 0, SHIFT_ON = 0, CTRL_ON = 0, kb_log = []\<rparr>"

definition fresh_editor :: editor where
  "fresh_editor = \<lparr>line = [], shifted = False\<rparr>"

lemma fresh_rep: "kb_rep fresh_kbd fresh_editor"
  by (simp add: kb_rep_def fresh_kbd_def fresh_editor_def)

lemma edit_lengths: "length (line (fold edit ds e)) \<le> length (line e) + length ds"
proof (induction ds arbitrary: e)
  case (Cons d ds)
  from Cons [of "edit d e"] edit_length [of d e] show ?case by simp
qed simp

section \<open>Properties\<close>



text \<open>
  Space together with shift stores a NUL, so the rest of the line is lost to whoever reads
  the buffer as a C string.
\<close>

theorem shift_space_truncates:
  assumes "kb_rep k e" and "\<not> shifted e" and "length (line e) < 1000" and "0 \<notin> set (line e)"
  shows "\<exists>k'. kb_keys k [0x2a, 0x39, 0xaa, 0x1e, 0x1c] = Some k' \<and>
    line (fold edit [0x2a, 0x39, 0xaa, 0x1e, 0x1c] e) = line e @ [0, 97, 10] \<and> cstr (char_buf k') 0 (line e)"
proof -
  have ed: "line (fold edit [0x2a, 0x39, 0xaa, 0x1e, 0x1c] e) = line e @ [0, 97, 10]"
    by (simp add: edit_def kbdus_def shift_char_def shift_table_def)
  obtain k' where k': "kb_keys k [0x2a, 0x39, 0xaa, 0x1e, 0x1c] = Some k'"
      "kb_rep k' (fold edit [0x2a, 0x39, 0xaa, 0x1e, 0x1c] e)"
    using kb_keys_edit [OF assms(1), of "[0x2a, 0x39, 0xaa, 0x1e, 0x1c]"] assms(3) by auto
  have "char_buf k' i = (line e @ [0, 97, 10]) ! i" if "i < length (line e) + 3" for i
    using k'(2) that unfolding kb_rep_def ed by simp
  then have "cstr (char_buf k') 0 (line e)" using assms(3,4) by (auto simp: cstr_def holds_def nth_append less_Suc_eq)
  with k'(1) ed show ?thesis by blast
qed

theorem shift_space_truncates_witness:
  "\<exists>k'. kb_keys fresh_kbd [0x2a, 0x39, 0xaa, 0x1e, 0x1c] = Some k' \<and> cstr (char_buf k') 0 []"
  using shift_space_truncates [OF fresh_rep] by (auto simp: fresh_editor_def)

end
