(* ===== verification/Interrupts.thy ===== *)
theory Interrupts
  imports TaskCalls Console Keyboard
begin

text \<open>
  Interrupts: the programming of the interrupt controllers and of the timer, the timer handler
  of \<^verbatim>\<open>sys/idt.c\<close> and the exception handlers of \<^verbatim>\<open>sys/gidt.c\<close>. The state of the
  machine joins the task state, the console, the keyboard and the two tick counters.
\<close>

section \<open>Controllers\<close>

definition pic_init :: "con \<Rightarrow> con" where
  "pic_init c =
     (let c = outb c 0x20 0x11; c = outb c 0xA0 0x11;
          c = outb c 0x21 0x20; c = outb c 0xA1 0x28;
          c = outb c 0x21 0x04; c = outb c 0xA1 0x02;
          c = outb c 0x21 0x01; c = outb c 0xA1 0x01;
          c = outb c 0x21 0xff
      in outb c 0xA1 0xff)"

definition mask_init :: "con \<Rightarrow> con" where
  "mask_init c = outb c 0x21 0xFC"

definition timer_init :: "con \<Rightarrow> con" where
  "timer_init c =
     (let divisor = 1193180 :: u32;
          c = outb c 0x43 0x36;
          l = ucast (divisor AND 0xFF);
          h = ucast (drop_bit 8 divisor AND 0xFF)
      in outb (outb c 0x40 l) 0x40 h)"

section \<open>The timer\<close>

record machine =
  sys :: ksys
  con_of :: con
  kb_of :: kbd
  m_ticks :: int
  m_sec :: int

definition boot_text :: "u8 list" where
  "boot_text = [62, 84, 105, 109, 101, 32, 83, 105, 110, 99, 101, 32, 66, 111, 111, 116, 58, 32]"

definition irq_timer_handler :: "machine \<Rightarrow> machine option" where
  "irq_timer_handler m =
     do { let m = m\<lparr>con_of := outb (outb (con_of m) 0x20 0x20) 0xa0 0x20\<rparr>;
          m \<leftarrow> (if m_ticks m mod 100 = 0 then
                 do { let new_sec = (if 0 \<le> m_ticks m then m_ticks m div 100 else - ((- m_ticks m) div 100));
                      m \<leftarrow> (if new_sec \<noteq> m_sec m then
                             do { let m = m\<lparr>m_sec := new_sec\<rparr>;
                                  c \<leftarrow> kprintf_boott (con_of m) boot_text (m_sec m);
                                  Some (m\<lparr>con_of := c\<rparr>) }
                           else Some m);
                      s \<leftarrow> dec_sleep_count (sys m);
                      Some (m\<lparr>sys := s\<rparr>) }
               else Some m);
          if int_ok (m_ticks m + 1) then Some (m\<lparr>m_ticks := m_ticks m + 1\<rparr>) else None }"

section \<open>Exceptions\<close>

definition fatal :: "ksys \<Rightarrow> string \<Rightarrow> ksys option" where
  "fatal s text = sys_exit (say s (Say text)) 1"

definition irq_0_handler :: "ksys \<Rightarrow> ksys option" where
  "irq_0_handler s = fatal s ''oxTerm: Invalid operation: Divide by zero\<newline>''"

definition irq_1_handler :: "ksys \<Rightarrow> ksys option" where
  "irq_1_handler s = fatal s ''oxTerm: Debug exception raised\<newline>''"

definition irq_3_handler :: "ksys \<Rightarrow> ksys option" where
  "irq_3_handler s = fatal s ''oxTerm: Debug: Breakpoint encountered\<newline>''"

definition irq_4_handler :: "ksys \<Rightarrow> ksys option" where
  "irq_4_handler s = fatal s ''oxTerm: Operand overflow detected. Terminating Process\<newline>''"

definition irq_5_handler :: "ksys \<Rightarrow> ksys option" where
  "irq_5_handler s = fatal s ''oxTerm: Exception: Bound range exceeded\<newline>''"

definition irq_6_handler :: "ksys \<Rightarrow> ksys option" where
  "irq_6_handler s = fatal s ''oxTerm: Invalid opcode\<newline>''"

definition irq_7_handler :: "ksys \<Rightarrow> ksys option" where
  "irq_7_handler s = fatal s ''oxTerm: error: Device not available\<newline>''"

definition irq_8_handler :: "ksys \<Rightarrow> ksys option" where
  "irq_8_handler s = fatal s ''oxTerm: Double Fault encountered. Terminating Process\<newline>''"

definition irq_10_handler :: "ksys \<Rightarrow> ksys option" where
  "irq_10_handler s = fatal s ''oxTerm: Invalid TSS exception\<newline>''"

definition irq_11_handler :: "ksys \<Rightarrow> ksys option" where
  "irq_11_handler s = fatal s ''oxTerm: Invalid Segment load performed. Terminating Process\<newline>''"

definition irq_12_handler :: "ksys \<Rightarrow> ksys option" where
  "irq_12_handler s = fatal s ''oxTerm: Stack Seg Fault. Terminating Process\<newline>''"

definition irq_16_handler :: "ksys \<Rightarrow> ksys option" where
  "irq_16_handler s = fatal s ''oxTerm: Floating point exception raised\<newline>''"

definition irq_17_handler :: "ksys \<Rightarrow> ksys option" where
  "irq_17_handler s = fatal s ''oxTerm: error: Unaligned memory reference performed. Terminating Process\<newline>''"

definition irq_18_handler :: "ksys \<Rightarrow> ksys option" where
  "irq_18_handler s = fatal s ''oxTerm: Machine check: internal error detected\<newline>''"

definition irq_19_handler :: "ksys \<Rightarrow> ksys option" where
  "irq_19_handler s = fatal s ''oxTerm: Floating Point Exception raised\<newline>''"

definition irq_20_handler :: "ksys \<Rightarrow> ksys option" where
  "irq_20_handler s = fatal s ''oxTerm: error: Virtualization Exception\<newline>''"

text \<open>The handler of a protection fault halts in a loop; vector 9 raises that fault first.\<close>

partial_function (option) halted :: "ksys \<Rightarrow> ksys option" where
  "halted s = halted s"

definition general_protection_fault_handler :: "ksys \<Rightarrow> ksys option" where
  "general_protection_fault_handler s = halted (say s (Say ''GPF Encountered\<newline>''))"

definition irq_9_handler :: "ksys \<Rightarrow> ksys option" where
  "irq_9_handler s = do { s \<leftarrow> general_protection_fault_handler s; sys_exit s 1 }"

text \<open>The handlers that print a message and end the task.\<close>

definition exception_handlers :: "(ksys \<Rightarrow> ksys option) list" where
  "exception_handlers =
     [irq_0_handler, irq_1_handler, irq_3_handler, irq_4_handler, irq_5_handler, irq_6_handler, irq_7_handler, irq_8_handler,
      irq_10_handler, irq_11_handler, irq_12_handler, irq_16_handler, irq_17_handler, irq_18_handler, irq_19_handler, irq_20_handler]"

lemma exception_fatal: "h \<in> set exception_handlers \<Longrightarrow> \<exists>text. \<forall>s. h s = fatal s text"
  by (auto simp: exception_handlers_def irq_0_handler_def irq_1_handler_def irq_3_handler_def irq_4_handler_def irq_5_handler_def irq_6_handler_def irq_7_handler_def irq_8_handler_def irq_10_handler_def irq_11_handler_def irq_12_handler_def irq_16_handler_def irq_17_handler_def irq_18_handler_def irq_19_handler_def irq_20_handler_def)

lemma halted_none: "halted s = None"
proof (cases "halted s")
  case (Some r)
  then have False by (rule halted.raw_induct [where P = "\<lambda>_ _. False", rotated]) blast
  then show ?thesis ..
qed

lemma fatal_ok:
  assumes inv: "queue_inv s (us @ p # x # vs) lo hi n" and run: "running_task s = x"
    and prev: "us @ p # vs = us' @ q # vs'" "previous s = q" and c: "int_ok (int (length (us @ p # vs)))"
  shows "\<exists>s'. fatal s text = Some s' \<and> queue_inv s' (us @ p # vs) lo hi n \<and> running_task s' = pick s vs' \<and>
    klog s' = klog s @ [Say text]"
proof -
  let ?s = "say s (Say text)"
  have inv': "queue_inv ?s (us @ p # x # vs) lo hi n" using inv by (simp add: queue_inv_def nodes_below_def)
  have pk: "pick ?s vs' = pick s vs'" by (rule pick_cong) (simp_all add: blocked_def)
  have "running_task ?s = x" "previous ?s = q" using run prev(2) by simp_all
  from sys_exit_ok [OF inv' this(1) prev(1) this(2) c, of 1] show ?thesis
    by (auto simp: fatal_def pk)
qed

section \<open>Timer interrupts\<close>

fun irqs :: "nat \<Rightarrow> machine \<Rightarrow> machine option" where
  "irqs 0 m = Some m"
| "irqs (Suc n) m = do { m \<leftarrow> irq_timer_handler m; irqs n m }"

lemma kprintf_boott_ok: "\<exists>c'. kprintf_boott c boot_text sec = Some c'"
proof -
  let ?n = "word_of_int sec :: u64"
  have "unat ?n < 2 ^ 64" using unsigned_less [of ?n] by simp
  then have "unat ?n < 10 ^ 20" by simp
  then have "length (digits 10 (unat ?n)) \<le> 20" by (intro length_digits) auto
  then have "length (boot_text @ numeral_text 10 (unat ?n)) < FMT_LEN" by (simp add: numeral_text_def boot_text_def)
  then show ?thesis using itoap_text [of 10 ?n] by (simp add: kprintf_boott_def fits_def)
qed

lemma irq_timer_ok:
  assumes "ready_queue (sys m) xs" and "m_ticks m = int t" and "Suc t < 2147483648"
  shows "\<exists>m'. irq_timer_handler m = Some m' \<and> m_ticks m' = int (Suc t) \<and> ready_queue (sys m') xs \<and>
    ticks (if t mod 100 = 0 then 1 else 0) (sys m) = Some (sys m') \<and> kb_of m' = kb_of m"
proof -
  have ok: "int_ok (int t + 1)" using assms(3) by (simp add: int_ok_def)
  have dvd: "int t mod 100 = 0 \<longleftrightarrow> t mod 100 = 0" by (metis of_nat_eq_0_iff of_nat_mod of_nat_numeral)
  show ?thesis
  proof (cases "t mod 100 = 0")
    case True
    let ?s = "ticked (sys m) (nproc (sys m) ` set xs)"
    have d: "dec_sleep_count (sys m) = Some ?s" "ready_queue ?s xs"
      using dec_sleep_count_queue [OF assms(1)] ticked_queue(1) [OF assms(1)] by simp_all
    let ?c = "outb (outb (con_of m) 0x20 0x20) 0xa0 0x20"
    have z: "int t mod 100 = 0" by (rule iffD2 [OF dvd True])
    obtain c' where c': "kprintf_boott ?c boot_text (int t div 100) = Some c'"
      using kprintf_boott_ok by blast
    define m1 where "m1 = (if int t div 100 \<noteq> m_sec m then m\<lparr>con_of := c', m_sec := int t div 100\<rparr> else m\<lparr>con_of := ?c\<rparr>)"
    have "irq_timer_handler m = Some (m1\<lparr>sys := ?s, m_ticks := int t + 1\<rparr>)"
      unfolding irq_timer_handler_def Let_def
      by (cases "int t div 100 = m_sec m") (simp_all add: c' d(1) ok assms(2) m1_def z)
    moreover have "kb_of m1 = kb_of m" by (simp add: m1_def)
    moreover have "ticks (if t mod 100 = 0 then 1 else 0) (sys m) = Some ?s" using True d(1) by simp
    ultimately show ?thesis using d(2) by (intro exI [of _ "m1\<lparr>sys := ?s, m_ticks := int t + 1\<rparr>"]) simp
  next
    case False
    have z: "int t mod 100 \<noteq> 0" by (rule contrapos_nn [OF False]) (rule iffD1 [OF dvd])
    have "irq_timer_handler m = Some (m\<lparr>con_of := outb (outb (con_of m) 0x20 0x20) 0xa0 0x20, m_ticks := int t + 1\<rparr>)"
      unfolding irq_timer_handler_def Let_def by (simp add: ok assms(2) z)
    then show ?thesis using assms(1) False by simp
  qed
qed

text \<open>The number of multiples of 100 among \<open>t\<close>, ..., \<open>t + n - 1\<close>.\<close>

definition seconds :: "nat \<Rightarrow> nat \<Rightarrow> nat" where
  "seconds t n = (t + n + 99) div 100 - (t + 99) div 100"

lemma seconds_Suc: "seconds t (Suc n) = (if t mod 100 = 0 then 1 else 0) + seconds (Suc t) n"
proof -
  have s: "(Suc t + 99) div 100 = (t + 99) div 100 + (if t mod 100 = 0 then 1 else 0)"
  proof -
    define q r where "q = t div 100" and "r = t mod 100"
    have t: "t = r + q * 100" and r: "r < 100" unfolding q_def r_def by simp_all
    have "(Suc t + 99) div 100 = (r + (q + 1) * 100) div 100" using t by simp
    then have "(Suc t + 99) div 100 = q + 1" using r by simp
    moreover have "(t + 99) div 100 = (if r = 0 then q else q + 1)"
    proof (cases "r = 0")
      case False
      then have "t + 99 = (r - 1) + (q + 1) * 100" using t by simp
      then have "(t + 99) div 100 = (r - 1) div 100 + (q + 1)" by simp
      then show ?thesis using False r by simp
    qed (use t in simp)
    ultimately show ?thesis unfolding r_def [symmetric] by simp
  qed
  have "(Suc t + 99) div 100 \<le> (Suc t + n + 99) div 100" by (rule div_le_mono) simp
  then show ?thesis unfolding seconds_def using s by simp
qed

lemma ticks_add: "ticks (a + b) s = do { s \<leftarrow> ticks a s; ticks b s }"
  by (induction a arbitrary: s) (auto split: bind_splits)

lemma irqs_ticks:
  assumes "ready_queue (sys m) xs" and "m_ticks m = int t" and "t + n < 2147483648"
  shows "\<exists>m'. irqs n m = Some m' \<and> m_ticks m' = int (t + n) \<and> ready_queue (sys m') xs \<and>
    ticks (seconds t n) (sys m) = Some (sys m')"
  using assms
proof (induction n arbitrary: m t)
  case 0
  then show ?case by (simp add: seconds_def)
next
  case (Suc n)
  obtain m1 where m1: "irq_timer_handler m = Some m1" "m_ticks m1 = int (Suc t)" "ready_queue (sys m1) xs"
      "ticks (if t mod 100 = 0 then 1 else 0) (sys m) = Some (sys m1)"
    using irq_timer_ok [OF Suc.prems(1,2)] Suc.prems(3) by auto
  obtain m2 where m2: "irqs n m1 = Some m2" "m_ticks m2 = int (Suc t + n)" "ready_queue (sys m2) xs"
      "ticks (seconds (Suc t) n) (sys m1) = Some (sys m2)"
    using Suc.IH [OF m1(3,2)] Suc.prems(3) by auto
  have "ticks (seconds t (Suc n)) (sys m) = Some (sys m2)"
    unfolding seconds_Suc ticks_add using m1(4) m2(4) by simp
  then show ?case using m1 m2 by simp
qed

section \<open>Properties\<close>

definition demo_machine :: machine where
  "demo_machine = \<lparr>sys = the (sys_sleep (demo node0 node1 1) 2), con_of = blank_con, kb_of = fresh_kbd, m_ticks = 7, m_sec = 0\<rparr>"

text \<open>
  C16. The timer interrupt decrements the sleepers on every hundredth tick: a task with \<open>w\<close>
  on its sleep counter is awake after \<open>n\<close> interrupts exactly when at least \<open>w\<close> multiples of
  100 were passed, counting the tick the run starts with. The handlers return as long as the tick
  counter does not overflow, and keep the queue.
\<close>

theorem timer_wakes:
  assumes "ready_queue (sys m) xs" and "m_ticks m = int t" and "t + n < 2147483648" and "x \<in> set xs"
    and "is_sleeping (ntask (sys m) x) = 1" and "sleep_time (ntask (sys m) x) \<noteq> 0"
  shows "\<exists>m'. irqs n m = Some m' \<and> ready_queue (sys m') xs \<and>
    is_sleeping (ntask (sys m') x) =
      (if (t + n + 99) div 100 - (t + 99) div 100 < unat (sleep_time (ntask (sys m) x)) then 1 else 0)"
proof -
  obtain m' where m': "irqs n m = Some m'" "ready_queue (sys m') xs" "ticks (seconds t n) (sys m) = Some (sys m')"
    using irqs_ticks [OF assms(1-3)] by blast
  have "ntask (sys m') x = (sleep_tick ^^ seconds t n) (ntask (sys m) x)"
    using ticks_queue [OF assms(1), of "seconds t n"] m'(3) assms(4) by auto
  then show ?thesis
    using m' sleep_tick_run [OF assms(5), of "seconds t n"] assms(6) by (simp add: wake_after_def seconds_def)
qed

theorem timer_wakes_witness:
  "\<exists>m1 m2. irqs 150 demo_machine = Some m1 \<and> is_sleeping (ntask (sys m1) node0) = 1 \<and>
     irqs 250 demo_machine = Some m2 \<and> is_sleeping (ntask (sys m2) node0) = 0"
proof -
  have rq0: "ready_queue (demo node0 node1 1) ([] @ node0 # [node1])" using demo_queue by simp
  obtain s where s: "sys_sleep (demo node0 node1 1) 2 = Some s" "ready_queue s [node0, node1]"
      "is_sleeping (ntask s node0) = 1" "sleep_time (ntask s node0) = 2"
    using sys_sleep_ok [OF rq0, of 2] by auto
  have m: "sys demo_machine = s" "m_ticks demo_machine = int 7" using s(1) by (simp_all add: demo_machine_def)
  have rq: "ready_queue (sys demo_machine) [node0, node1]" using s(2) m(1) by simp
  show ?thesis
    using timer_wakes [OF rq m(2), of 150 node0] timer_wakes [OF rq m(2), of 250 node0] s(3,4) m(1) by auto
qed

text \<open>
  The timer is programmed with the low sixteen bits of its divisor only: 13532 instead of
  1193180, which is about 88 interrupts per second, while the handler counts 100 to a second.
\<close>

theorem timer_divisor_truncated:
  "\<exists>l h. ports (timer_init c) = ports c @ [(0x43, 0x36), (0x40, l), (0x40, h)] \<and>
    unat l + 256 * unat h = 13532 \<and> unat l + 256 * unat h \<noteq> 1193180"
  by (simp add: timer_init_def outb_def Let_def)



end
