(* ===== verification/Syscalls.thy ===== *)
theory Syscalls
  imports Stubs Interrupts
begin

text \<open>
  The system calls (\<^verbatim>\<open>syscall_handler\<close> in src/sys/idt.c) and the page fault handler, which
  restarts the shell (\<^verbatim>\<open>load_sbush\<close> in src/sys/main.c). The handler takes its number and its three
  arguments from \<^verbatim>\<open>rax\<close>, \<^verbatim>\<open>rbx\<close>, \<^verbatim>\<open>rcx\<close> and \<^verbatim>\<open>rdx\<close> and works on
  the tasks, the console, the keyboard buffer and the file system together; every branch is one definition.
  User memory is read and written through the page tables of the running address space. Texts in local
  arrays of the handler are lists; what C leaves open about those arrays is in the record of \<open>frame_env\<close>.

  The routines the handler calls record their own messages (\<^const>\<open>klog\<close>, \<^const>\<open>fs_out\<close>,
  \<^const>\<open>kb_log\<close>); what the handler prints itself goes through \<^const>\<open>kprintf\<close> to the screen.
\<close>

section \<open>State\<close>

text \<open>All kernel state: the tasks, screen and keyboard of \<^typ>\<open>machine\<close>, the file system, and the global
  \<^verbatim>\<open>is_bg\<close> of idt.c. The file system and the tasks allocate from the same free list; \<open>fs_in\<close> and
  \<open>fs_back\<close> hand it over.\<close>

record os =
  mach :: machine
  fsl :: fsys
  g_is_bg :: int

text \<open>What the value of \<^verbatim>\<open>rax\<close> is when the handler returns: moved there by the handler, left there by
  the last routine it called, or not set.\<close>

datatype rax_out = Moved u64 | Returned u64 | Unset

text \<open>\<open>room n\<close> is the number of bytes a store may reach behind the start of a local array of \<open>n\<close> bytes
  before it hits another object; C promises \<open>n\<close>, and the code needs more in places. \<open>arg_addr\<close> is the
  address of the local \<^verbatim>\<open>argument\<close>, \<open>junk\<close> the name in the uninitialised entry of
  \<^verbatim>\<open>read_dir\<close>, \<open>isr32_at\<close> the address of the timer entry.\<close>

record frame_env =
  room :: "nat \<Rightarrow> nat"
  arg_addr :: u64
  junk :: "u8 list"
  isr32_at :: u64

abbreviation ksys_of :: "os \<Rightarrow> ksys" where
  "ksys_of o' \<equiv> sys (mach o')"

abbreviation con_in :: "os \<Rightarrow> con" where
  "con_in o' \<equiv> con_of (mach o')"

abbreviation kb_in :: "os \<Rightarrow> kbd" where
  "kb_in o' \<equiv> kb_of (mach o')"

definition set_sys :: "os \<Rightarrow> ksys \<Rightarrow> os" where
  "set_sys o' s = o'\<lparr>mach := (mach o')\<lparr>sys := s\<rparr>\<rparr>"

definition set_con :: "os \<Rightarrow> con \<Rightarrow> os" where
  "set_con o' c = o'\<lparr>mach := (mach o')\<lparr>con_of := c\<rparr>\<rparr>"

definition set_kb :: "os \<Rightarrow> kbd \<Rightarrow> os" where
  "set_kb o' k = o'\<lparr>mach := (mach o')\<lparr>kb_of := k\<rparr>\<rparr>"

definition fs_in :: "os \<Rightarrow> fsys" where
  "fs_in o' = (fsl o')\<lparr>fk := vkst (vm (ksys_of o'))\<rparr>"

definition fs_back :: "os \<Rightarrow> fsys \<Rightarrow> os" where
  "fs_back o' f = (let s = ksys_of o' in (set_sys o' (s\<lparr>vm := (vm s)\<lparr>vkst := fk f\<rparr>\<rparr>))\<lparr>fsl := f\<rparr>)"

definition kprint :: "os \<Rightarrow> u8 list \<Rightarrow> karg list \<Rightarrow> os option" where
  "kprint o' fmt args = do { c \<leftarrow> kprintf (con_in o') fmt args; Some (set_con o' c) }"

text \<open>The characters of a C string literal.\<close>

definition lit :: "string \<Rightarrow> u8 list" where
  "lit t = map of_char t"

definition PS1 :: "u8 list" where
  "PS1 = lit ''user@bgox$> ''"

definition PATH :: "u8 list" where
  "PATH = lit ''bin/''"

text \<open>The NUL-terminated text at a user address, and a text that is put into a local array of \<open>n\<close> bytes.\<close>

partial_function (option) utext :: "mem \<Rightarrow> u64 \<Rightarrow> u64 \<Rightarrow> u8 list option" where
  "utext m cr va =
     do { b \<leftarrow> vld8 m cr va;
          if b = 0 then Some [] else do { bs \<leftarrow> utext m cr (va + 1); Some (b # bs) } }"

definition user_text :: "os \<Rightarrow> u64 \<Rightarrow> u8 list option" where
  "user_text o' va = utext (kmem_of (ksys_of o')) (cr3 (vm (ksys_of o'))) va"

definition user_write :: "os \<Rightarrow> u64 \<Rightarrow> u8 list \<Rightarrow> os option" where
  "user_write o' va bs =
     do { m \<leftarrow> vst_bytes (kmem_of (ksys_of o')) (cr3 (vm (ksys_of o'))) va bs;
          Some (set_sys o' (set_kmem (ksys_of o') m)) }"

definition local_text :: "frame_env \<Rightarrow> nat \<Rightarrow> u8 list \<Rightarrow> u8 list option" where
  "local_text env n t = (if length t < room env n then Some t else None)"

text \<open>\<^verbatim>\<open>char cmd_args[n][FMT_LEN]\<close> filled by \<^verbatim>\<open>str_split_delim\<close>.\<close>

definition split_args :: "nat \<Rightarrow> u8 list \<Rightarrow> u8 list list option" where
  "split_args n t =
     (let ps = pieces 32 [] t
      in if length ps \<le> n \<and> (\<forall>p \<in> set ps. length p < FMT_LEN) then Some ps else None)"

text \<open>A text in memory with the literal \<^verbatim>\<open>"&"\<close> behind it, for the routines that scan memory.\<close>

definition staged :: "u8 list \<Rightarrow> mem" where
  "staged t = blit (\<lambda>_. 0) 0 (t @ [0, 38, 0])"

section \<open>Input and output\<close>

text \<open>WRITE: \<^verbatim>\<open>sub\<close> has the length of the text and no byte for the terminating NUL; \<^verbatim>\<open>str_substr\<close>
  includes the character at the last index.\<close>

definition sys_write :: "frame_env \<Rightarrow> os \<Rightarrow> u64 \<Rightarrow> u64 \<Rightarrow> u64 \<Rightarrow> (os \<times> rax_out) option" where
  "sys_write env o' buf third fourth =
     do { t \<leftarrow> user_text o' third;
          let n = length t;
          (sub, written) \<leftarrow>
            (if of_nat n \<le> fourth then do { sub \<leftarrow> local_text env n t; Some (sub, n) }
             else do { sub \<leftarrow> local_text env n (substr_of t 0 (to_int fourth)); Some (sub, length sub) });
          o' \<leftarrow> (if buf = 1 then kprint o' (lit ''%s'') [AStr sub] else kprint o' (lit ''STDERR: %s'') [AStr sub]);
          Some (o', Moved (of_nat written)) }"

text \<open>The loops that poll \<^verbatim>\<open>new_line\<close> and \<^verbatim>\<open>buf_idx\<close>: between two iterations the keyboard
  interrupt runs for the next scan code; the loop does not end when none comes.\<close>

fun poll_keys :: "(kbd \<Rightarrow> bool) \<Rightarrow> kbd \<Rightarrow> u8 list \<Rightarrow> (kbd \<times> u8 list) option" where
  "poll_keys stop k [] = (if stop k then Some (k, []) else None)"
| "poll_keys stop k (d # ds) =
     (if stop k then Some (k, d # ds) else do { k \<leftarrow> irq_kb_handler k 1 d; poll_keys stop k ds })"

definition buf_text :: "kbd \<Rightarrow> u8 list option" where
  "buf_text k =
     (let t = takeWhile (\<lambda>c. c \<noteq> 0) (map (char_buf k) [0..<1024]) in if length t < 1024 then Some t else None)"

definition clear_buf :: "kbd \<Rightarrow> kbd" where
  "clear_buf k = k\<lparr>char_buf := (\<lambda>i. if i < 1024 then 0 else char_buf k i), buf_idx := 0, new_line := 0\<rparr>"

text \<open>READ and \<^verbatim>\<open>gets\<close>: wait, copy the buffer without a terminating NUL, clear it. The second result is the
  scan codes that are still to come.\<close>

definition take_line :: "os \<Rightarrow> u64 \<Rightarrow> (kbd \<Rightarrow> bool) \<Rightarrow> u8 list \<Rightarrow> (os \<times> u8 list) option" where
  "take_line o' dst stop keys =
     do { o' \<leftarrow> kprint o' PS1 [];
          (k, keys) \<leftarrow> poll_keys stop (kb_in o') keys;
          t \<leftarrow> buf_text k;
          o' \<leftarrow> user_write o' dst t;
          Some (set_kb o' (clear_buf k), keys) }"

definition sys_read :: "os \<Rightarrow> u64 \<Rightarrow> u64 \<Rightarrow> u8 list \<Rightarrow> (os \<times> u8 list \<times> rax_out) option" where
  "sys_read o' third fourth keys =
     do { (o', keys) \<leftarrow> take_line o' third
            (\<lambda>k. fourth = 0 \<or> new_line k \<noteq> 0 \<or> fourth \<le> of_int (buf_idx k)) keys;
          t \<leftarrow> buf_text (kb_in o');
          Some (o', keys, Moved (of_nat (length t))) }"

definition sys_gets :: "os \<Rightarrow> u64 \<Rightarrow> u8 list \<Rightarrow> (os \<times> u8 list) option" where
  "sys_gets o' buf keys = take_line o' buf (\<lambda>k. new_line k \<noteq> 0) keys"

definition sys_echo :: "os \<Rightarrow> u64 \<Rightarrow> os option" where
  "sys_echo o' buf = do { t \<leftarrow> user_text o' buf; kprint o' (lit ''%s\<newline>'') [AStr t] }"

section \<open>Tasks\<close>

definition sys_call_fork :: "frame_env \<Rightarrow> os \<Rightarrow> (os \<times> rax_out) option" where
  "sys_call_fork env o' = do { (s, p) \<leftarrow> sys_fork (isr32_at env) (ksys_of o'); Some (set_sys o' s, Returned p) }"

definition on_sys :: "os \<Rightarrow> (ksys \<Rightarrow> ksys option) \<Rightarrow> os option" where
  "on_sys o' f = do { s \<leftarrow> f (ksys_of o'); Some (set_sys o' s) }"

text \<open>exec: the program replaces the running task and takes its numbers. The argument is passed only when it is
  not empty and differs from the command; its address is that of a local array.\<close>

definition exec_load :: "frame_env \<Rightarrow> os \<Rightarrow> u64 \<Rightarrow> u8 list \<Rightarrow> u8 list \<Rightarrow> os option" where
  "exec_load env o' fd cmd argument =
     do { e \<leftarrow> files (fsl o') fd;
          parent \<leftarrow> get_running_task (ksys_of o');
          let s = ksys_of o';
          s \<leftarrow> (if int_ok (PID s - 1) then Some (s\<lparr>PID := PID s - 1\<rparr>) else None);
          argument \<leftarrow> local_text env 50 argument;
          let argc = (if 0 < length argument \<and> argument \<noteq> cmd then 1 else 0);
          (s, pcb_exec) \<leftarrow> elf_parse (isr32_at env) s (f_addr e + 512) (f_addr e) argc (\<lambda>_. arg_addr env);
          p \<leftarrow> tasks s parent;
          s \<leftarrow> upd_task s pcb_exec (pid_update (\<lambda>_. pid p));
          s \<leftarrow> upd_task s pcb_exec (ppid_update (\<lambda>_. ppid p));
          s \<leftarrow> delete_curr_from_task_list s;
          s \<leftarrow> add_to_task_list s pcb_exec;
          s \<leftarrow> schedule s 1;
          Some (set_sys o' s) }"

definition sys_exec :: "frame_env \<Rightarrow> os \<Rightarrow> u64 \<Rightarrow> u64 \<Rightarrow> os option" where
  "sys_exec env o' buf third =
     do { name \<leftarrow> user_text o' buf;
          cmd \<leftarrow> local_text env 50 (PATH @ name);
          (f, fd) \<leftarrow> open_file (fs_in o') cmd;
          let o' = fs_back o' f;
          if fd = 0 then
            do { o' \<leftarrow> kprint o' (lit ''oxTerm error: Command %s not found\<newline>'') [AStr name];
                 on_sys o' (\<lambda>s. sys_exit s 1) }
          else do { argument \<leftarrow> user_text o' third; exec_load env o' fd name argument } }"

text \<open>The handler keeps the result in a \<^verbatim>\<open>pid_t\<close> of 32 bits.\<close>

definition to_pid :: "u64 \<Rightarrow> u64" where
  "to_pid p = ucast (ucast p :: u32)"

definition sys_wait_call :: "os \<Rightarrow> u64 \<Rightarrow> u64 \<Rightarrow> (os \<times> rax_out) option" where
  "sys_wait_call o' n bg = do { (s, p) \<leftarrow> sys_waitpid (ksys_of o') n bg; Some (set_sys o' s, Moved (to_pid p)) }"

definition sys_sleep_call :: "os \<Rightarrow> u64 \<Rightarrow> os option" where
  "sys_sleep_call o' buf =
     do { t \<leftarrow> user_text o' buf;
          cmd_args \<leftarrow> split_args 2 t;
          pos \<leftarrow> str_contains (staged t) 0 (length t + 1);
          o' \<leftarrow> (if pos \<noteq> - 1 then
                 do { p \<leftarrow> get_running_task (ksys_of o');
                      s \<leftarrow> upd_task (ksys_of o') p (is_bg_update (\<lambda>_. 1));
                      Some ((set_sys o' s)\<lparr>g_is_bg := 1\<rparr>) }
               else Some (o'\<lparr>g_is_bg := 0\<rparr>));
          time \<leftarrow> atoi (staged (cmd_args ! 0)) 0;
          on_sys o' (\<lambda>s. sys_sleep s time) }"

text \<open>kill reads the second word of its line; without one it reads an uninitialised array.\<close>

definition sys_kill_call :: "frame_env \<Rightarrow> os \<Rightarrow> u64 \<Rightarrow> os option" where
  "sys_kill_call env o' buf =
     do { t \<leftarrow> user_text o' buf;
          cmd_args \<leftarrow> split_args 3 t;
          if length cmd_args < 2 then None
          else do {
            let w = cmd_args ! 1;
            out \<leftarrow> local_text env 3 (substr_of w 1 (int (length w) - 1));
            if length out = 0 then kprint o' (lit ''oxTerm: Usage: kill -9 PID\<newline>'') []
            else do { n \<leftarrow> atoi (staged out) 0; on_sys o' (\<lambda>s. sys_kill s (of_int n)) } } }"

definition sys_getpid :: "os \<Rightarrow> (os \<times> rax_out) option" where
  "sys_getpid o' =
     do { p \<leftarrow> get_running_task (ksys_of o'); t \<leftarrow> tasks (ksys_of o') p; Some (o', Moved (to_pid (pid t))) }"

definition sys_getppid :: "os \<Rightarrow> (os \<times> rax_out) option" where
  "sys_getppid o' =
     do { p \<leftarrow> get_running_task (ksys_of o'); t \<leftarrow> tasks (ksys_of o') p; Some (o', Moved (to_pid (ppid t))) }"

section \<open>Files\<close>

text \<open>cat reads blocks of 60 bytes until one is shorter. \<^verbatim>\<open>read_file\<close> puts a NUL behind the block; a file of
  size zero leaves the array uninitialised.\<close>

partial_function (option) cat_loop :: "frame_env \<Rightarrow> os \<Rightarrow> u64 \<Rightarrow> os option" where
  "cat_loop env o' fd =
     do { e \<leftarrow> files (fsl o') fd;
          (f, bs, n) \<leftarrow> read_file (fs_in o') fd 60;
          readbuf \<leftarrow> (if f_size e = 0 then None else local_text env 60 bs);
          o' \<leftarrow> kprint (fs_back o' f) (lit ''%s'') [AStr (seen readbuf)];
          if 60 \<le> to_int n then cat_loop env o' fd else Some o' }"

definition sys_cat :: "frame_env \<Rightarrow> os \<Rightarrow> u64 \<Rightarrow> os option" where
  "sys_cat env o' buf =
     do { t \<leftarrow> user_text o' buf;
          cmd_args \<leftarrow> split_args 2 t;
          (f, fd) \<leftarrow> open_file (fs_in o') (cmd_args ! 0);
          let o' = fs_back o' f;
          if fd \<noteq> 0 then
            do { o' \<leftarrow> cat_loop env o' fd;
                 (f, _) \<leftarrow> close_file (fs_in o') fd;
                 Some (fs_back o' f) }
          else Some o' }"

definition sys_open :: "os \<Rightarrow> u64 \<Rightarrow> (os \<times> rax_out) option" where
  "sys_open o' buf =
     do { t \<leftarrow> user_text o' buf; (f, fd) \<leftarrow> open_file (fs_in o') t; Some (fs_back o' f, Moved fd) }"

definition sys_close :: "os \<Rightarrow> u64 \<Rightarrow> (os \<times> rax_out) option" where
  "sys_close o' buf = do { (f, status) \<leftarrow> close_file (fs_in o') buf; Some (fs_back o' f, Moved (of_int status)) }"

definition sys_read_file :: "os \<Rightarrow> u64 \<Rightarrow> u64 \<Rightarrow> u64 \<Rightarrow> (os \<times> rax_out) option" where
  "sys_read_file o' buf third fourth =
     do { e \<leftarrow> files (fsl o') buf;
          (f, bs, n) \<leftarrow> read_file (fs_in o') buf fourth;
          o' \<leftarrow> (if f_size e = 0 then Some o' else user_write o' third (bs @ [0]));
          Some (fs_back o' (f\<lparr>fk := vkst (vm (ksys_of o'))\<rparr>), Moved n) }"

definition sys_opendir :: "os \<Rightarrow> u64 \<Rightarrow> (os \<times> rax_out) option" where
  "sys_opendir o' buf =
     do { t \<leftarrow> user_text o' buf; let (f, ret) = opendir (fs_in o') t; Some (fs_back o' f, Moved ret) }"

definition sys_read_dir :: "frame_env \<Rightarrow> os \<Rightarrow> u64 \<Rightarrow> os \<times> rax_out" where
  "sys_read_dir env o' buf = (let (f, ret) = read_dir (fs_in o') (junk env) buf in (fs_back o' f, Moved ret))"

section \<open>The handler\<close>

definition unset :: "os option \<Rightarrow> u8 list \<Rightarrow> (os \<times> u8 list \<times> rax_out) option" where
  "unset r keys = do { o' \<leftarrow> r; Some (o', keys, Unset) }"

definition with_rax :: "(os \<times> rax_out) option \<Rightarrow> u8 list \<Rightarrow> (os \<times> u8 list \<times> rax_out) option" where
  "with_rax r keys = do { (o', v) \<leftarrow> r; Some (o', keys, v) }"

definition syscall_handler ::
  "frame_env \<Rightarrow> os \<Rightarrow> u64 \<Rightarrow> u64 \<Rightarrow> u64 \<Rightarrow> u64 \<Rightarrow> u8 list \<Rightarrow> (os \<times> u8 list \<times> rax_out) option" where
  "syscall_handler env o' syscall_num buf third fourth keys =
     (if syscall_num = 1 then with_rax (sys_write env o' buf third fourth) keys
      else if syscall_num = 2 then sys_read o' third fourth keys
      else if syscall_num = 4 then with_rax (sys_call_fork env o') keys
      else if syscall_num = 6 then unset (on_sys o' (\<lambda>s. schedule s 0)) keys
      else if syscall_num = 7 \<or> syscall_num = 8 then unset (sys_exec env o' buf third) keys
      else if syscall_num = 10 then unset (on_sys o' (\<lambda>s. sys_exit s buf)) keys
      else if syscall_num = 12 then unset (Some (fs_back o' (list_dir (fs_in o')))) keys
      else if syscall_num = 14 then unset (sys_cat env o' buf) keys
      else if syscall_num = 16 then unset (sys_echo o' buf) keys
      else if syscall_num = 18 then unset (on_sys o' print_task_list) keys
      else if syscall_num = 20 then with_rax (sys_wait_call o' buf (of_int (g_is_bg o'))) keys
      else if syscall_num = 22 then unset (sys_sleep_call o' buf) keys
      else if syscall_num = 24 then unset (sys_kill_call env o' buf) keys
      else if syscall_num = 26 then with_rax (sys_getpid o') keys
      else if syscall_num = 28 then with_rax (sys_getppid o') keys
      else if syscall_num = 30 then do { (o', keys) \<leftarrow> sys_gets o' buf keys; Some (o', keys, Unset) }
      else if syscall_num = 32 then with_rax (sys_wait_call o' 0 0) keys
      else if syscall_num = 34 then with_rax (sys_open o' buf) keys
      else if syscall_num = 36 then with_rax (sys_close o' buf) keys
      else if syscall_num = 38 then with_rax (sys_read_file o' buf third fourth) keys
      else if syscall_num = 40 then with_rax (sys_opendir o' buf) keys
      else if syscall_num = 42 then with_rax (Some (sys_read_dir env o' buf)) keys
      else if syscall_num = 44 then with_rax (Some (o', Moved (closedir buf))) keys
      else if syscall_num = 46 then unset (Some (set_con o' (clear_screen (con_in o')))) keys
      else Some (o', keys, Unset))"

section \<open>The page fault handler\<close>

text \<open>\<^verbatim>\<open>load_sbush\<close> does not test the result of \<^verbatim>\<open>open\<close>; the numbers 1 and 0 are set after the
  task got one from the counter.\<close>

definition load_sbush :: "frame_env \<Rightarrow> os \<Rightarrow> os option" where
  "load_sbush env o' =
     do { (f, fd) \<leftarrow> open_file (fs_in o') (lit ''bin/oxterm'');
          let o' = fs_back o' f;
          e \<leftarrow> files (fsl o') fd;
          (s, pcb_hello) \<leftarrow> elf_parse (isr32_at env) (ksys_of o') (f_addr e + 512) (f_addr e) 0 (\<lambda>_. 0);
          s \<leftarrow> upd_task s pcb_hello (pid_update (\<lambda>_. 1));
          s \<leftarrow> upd_task s pcb_hello (ppid_update (\<lambda>_. 0));
          s \<leftarrow> add_to_task_list s pcb_hello;
          Some (set_sys o' s) }"

text \<open>The faulting page is mapped, to a new frame or, after a protection fault, to the frame the address would
  have in the direct map; then the shell is loaded and the running task removed.\<close>

definition fault_map :: "ksys \<Rightarrow> u64 \<Rightarrow> u64 \<Rightarrow> ksys option" where
  "fault_map s err_code pf_addr =
     (if err_code = 5 \<or> err_code = 7 \<or> err_code = 1 \<or> err_code = 3 then
        do { k \<leftarrow> init_map_virt_phys_addr (vkst (vm s)) pf_addr (PADDR pf_addr) 1 (VADDR (cr3 (vm s))) 1;
             Some (s\<lparr>vm := (vm s)\<lparr>vkst := k\<rparr>\<rparr>) }
      else
        do { (s, pp) \<leftarrow> ksys_kmalloc s 1;
             k \<leftarrow> init_map_virt_phys_addr (vkst (vm s)) pf_addr (PADDR pp) 1 (VADDR (cr3 (vm s))) 1;
             Some (s\<lparr>vm := (vm s)\<lparr>vkst := k\<rparr>\<rparr>) })"

definition page_fault_handler :: "frame_env \<Rightarrow> os \<Rightarrow> u64 \<Rightarrow> u64 \<Rightarrow> os option" where
  "page_fault_handler env o' err_code pf_addr =
     do { o' \<leftarrow> on_sys o' (\<lambda>s. fault_map s err_code pf_addr);
          o' \<leftarrow> kprint o' (lit ''(Segmentation Fault)\<newline>'') [];
          o' \<leftarrow> load_sbush env o';
          on_sys o' (\<lambda>s. do { s \<leftarrow> delete_curr_from_task_list s; schedule s 1 }) }"

section \<open>User memory and the screen\<close>

lemma os_fields [simp]:
  "ksys_of (set_sys o' s) = s" "con_in (set_sys o' s) = con_in o'" "kb_in (set_sys o' s) = kb_in o'" "fsl (set_sys o' s) = fsl o'"
  "ksys_of (set_con o' c) = ksys_of o'" "con_in (set_con o' c) = c" "kb_in (set_con o' c) = kb_in o'" "fsl (set_con o' c) = fsl o'"
  "ksys_of (set_kb o' k) = ksys_of o'" "con_in (set_kb o' k) = con_in o'" "kb_in (set_kb o' k) = k" "fsl (set_kb o' k) = fsl o'"
  "g_is_bg (set_sys o' s) = g_is_bg o'" "g_is_bg (set_con o' c) = g_is_bg o'" "g_is_bg (set_kb o' k) = g_is_bg o'"
  by (simp_all add: set_sys_def set_con_def set_kb_def)

lemma fs_back_fields [simp]:
  "con_in (fs_back o' f) = con_in o'" "kb_in (fs_back o' f) = kb_in o'" "fsl (fs_back o' f) = f"
  "vkst (vm (ksys_of (fs_back o' f))) = fk f" "cr3 (vm (ksys_of (fs_back o' f))) = cr3 (vm (ksys_of o'))"
  "tasks (ksys_of (fs_back o' f)) = tasks (ksys_of o')" "rtasks (ksys_of (fs_back o' f)) = rtasks (ksys_of o')"
  by (simp_all add: fs_back_def Let_def set_sys_def)

lemma fs_in_back [simp]: "fs_in (fs_back o' f) = f"
  by (simp add: fs_in_def)

lemma fs_in_set_con [simp]: "fs_in (set_con o' c) = fs_in o'"
  by (simp add: fs_in_def)

text \<open>A user buffer: \<open>N\<close> addresses from \<open>va\<close> on are mapped to different bytes of data pages.\<close>

definition ubuf :: "kst \<Rightarrow> nat \<Rightarrow> nat \<Rightarrow> nat \<Rightarrow> u64 \<Rightarrow> nat \<Rightarrow> bool" where
  "ubuf st root lo hi va N \<longleftrightarrow>
     (\<exists>g. (\<forall>i<N. upage st root lo hi (va + of_nat i) (g i)) \<and> inj_on (\<lambda>i. upos (va + of_nat i) (g i)) {..<N})"

lemma utext_read:
  assumes "\<forall>i<length t. vld8 m cr (va + of_nat i) = Some (t ! i)" and "vld8 m cr (va + of_nat (length t)) = Some 0"
    and "0 \<notin> set t"
  shows "utext m cr va = Some t"
  using assms
proof (induction t arbitrary: va)
  case (Cons b t)
  have "\<forall>i<length t. vld8 m cr (va + 1 + of_nat i) = Some (t ! i)"
    using Cons.prems(1) [rule_format, of "Suc _"] by (simp add: add.assoc)
  then have "utext m cr (va + 1) = Some t" using Cons by (simp add: add.assoc)
  then show ?case using Cons.prems(1) [rule_format, of 0] Cons.prems(3) by (subst utext.simps) simp
qed (subst utext.simps, simp)

lemma vst_ubuf:
  assumes inv: "pt_inv st root lo hi n" and u: "ubuf st root lo hi va N" and len: "length bs \<le> N"
  shows "\<exists>m'. vst_bytes (kmem st) (of_nat (4096 * root)) va bs = Some m' \<and> data_only st root lo hi m' \<and>
    (\<forall>i<N. vld8 m' (of_nat (4096 * root)) (va + of_nat i) =
      (if i < length bs then Some (bs ! i) else vld8 (kmem st) (of_nat (4096 * root)) (va + of_nat i)))"
proof -
  obtain g where g: "\<forall>i<N. upage st root lo hi (va + of_nat i) (g i)" and inj: "inj_on (\<lambda>i. upos (va + of_nat i) (g i)) {..<N}"
    using u by (auto simp: ubuf_def)
  have "inj_on (\<lambda>i. upos (va + of_nat i) (g i)) {..<length bs}" using inj len by (auto intro: inj_on_subset)
  then obtain m' where m': "vst_bytes (kmem st) (of_nat (4096 * root)) va bs = Some m'" "data_only st root lo hi m'"
      "\<forall>i<length bs. m' (upos (va + of_nat i) (g i)) = bs ! i"
      "\<forall>a. a \<notin> (\<lambda>i. upos (va + of_nat i) (g i)) ` {..<length bs} \<longrightarrow> m' a = kmem st a"
    using vst_bytes_ok [OF inv, of bs va g] g len by auto
  have "vld8 m' (of_nat (4096 * root)) (va + of_nat i) =
      (if i < length bs then Some (bs ! i) else vld8 (kmem st) (of_nat (4096 * root)) (va + of_nat i))" if i: "i < N" for i
  proof -
    have up: "upage st root lo hi (va + of_nat i) (g i)" using g i by blast
    then have "upage (st\<lparr>kmem := m'\<rparr>) root lo hi (va + of_nat i) (g i)"
      by (simp add: upage_write(1) [OF inv m'(2)])
    from vloc_upage [OF data_write(1) [OF inv m'(2)] this]
    have new: "vld8 m' (of_nat (4096 * root)) (va + of_nat i) = Some (m' (upos (va + of_nat i) (g i)))"
      by (simp add: vld8_def ld8_def del: of_nat_mult)
    have old: "vld8 (kmem st) (of_nat (4096 * root)) (va + of_nat i) = Some (kmem st (upos (va + of_nat i) (g i)))"
      using vloc_upage [OF inv up] by (simp add: vld8_def ld8_def del: of_nat_mult)
    show ?thesis
    proof (cases "i < length bs")
      case False
      then have "upos (va + of_nat i) (g i) \<notin> (\<lambda>i. upos (va + of_nat i) (g i)) ` {..<length bs}"
        using inj_onD [OF inj, of i] i len by fastforce
      then show ?thesis using False new old m'(4) by simp
    qed (use new m'(3) in simp)
  qed
  then show ?thesis using m'(1,2) by blast
qed

lemma ubuf_stack:
  assumes s: "stack_page st root lo hi us g" and N: "off + N \<le> 4096"
  shows "ubuf st root lo hi (us + of_nat off) N"
proof -
  have eq: "us + of_nat off + of_nat i = us + of_nat (off + i)" for i by simp
  have "\<forall>i<N. upage st root lo hi (us + of_nat off + of_nat i) g"
    unfolding eq using s N by (auto simp: stack_page_def simp del: of_nat_add)
  moreover have "inj_on (\<lambda>i. upos (us + of_nat off + of_nat i) g) {..<N}"
  proof (rule inj_onI)
    fix i j assume ij: "i \<in> {..<N}" "j \<in> {..<N}" and e: "upos (us + of_nat off + of_nat i) g = upos (us + of_nat off + of_nat j) g"
    have u: "unat (us + of_nat (off + k)) mod 4096 = off + k" if "k < N" for k
    proof -
      have "unat us mod 4096 = 0" "unat us + (off + k) < 2 ^ 64" "off + k < 4096" using s N that by (auto simp: stack_page_def)
      moreover from this(1) obtain q where "unat us = 4096 * q" by blast
      ultimately show ?thesis by (simp only: unat_add_index) simp
    qed
    show "i = j" using e ij u [of i] u [of j] unfolding eq upos_def by simp
  qed
  ultimately show ?thesis unfolding ubuf_def by (intro exI [of _ "\<lambda>_. g"]) simp
qed

text \<open>Printing through the handler.\<close>

lemma kprint_term:
  assumes "con_term (con_in o') u" and "fmt_pieces fmt = Some ps" and "render_all ps args = Some tx"
  shows "\<exists>c. kprint o' fmt args = Some (set_con o' c) \<and> con_term c (fold term_put tx u)"
  using kprintf_term [OF assms] by (auto simp: kprint_def)

lemma kprint_s:
  assumes "con_term (con_in o') u" and "length t < 100"
  shows "\<exists>c. kprint o' (lit ''%s'') [AStr t] = Some (set_con o' c) \<and> con_term c (fold term_put t u)"
  by (rule kprint_term [OF assms(1), of _ "[[], [37, 115]]"]) (use assms(2) in \<open>simp_all add: lit_def fmt_pieces_def render_def fits_def Let_def of_char_def\<close>)

lemma to_int_unat: "unat w < 2147483648 \<Longrightarrow> to_int w = int (unat w)"
  using to_int_small [of "unat w"] by simp

lemma write_text:
  assumes "length t < 100"
  shows "(if of_nat (length t) \<le> fourth then do { sub \<leftarrow> local_text env (length t) t; Some (sub, length t) }
      else do { sub \<leftarrow> local_text env (length t) (substr_of t 0 (to_int fourth)); Some (sub, length sub) }) =
    (let sub = take (if fourth < of_nat (length t) then unat fourth + 1 else length t) t
     in if length sub < room env (length t) then Some (sub, length sub) else None)"
proof (cases "fourth < of_nat (length t)")
  case True
  have "unat (of_nat (length t) :: u64) = length t" using assms by (simp add: unat_of_nat take_bit_eq_mod)
  then have "unat fourth < length t" using True by (simp add: word_less_nat_alt)
  then have "to_int fourth = int (unat fourth)" using assms by (intro to_int_unat) simp
  then have "substr_of t 0 (to_int fourth) = take (unat fourth + 1) t" by (simp add: substr_of_def nat_add_distrib)
  then show ?thesis using True by (auto simp: local_text_def Let_def not_less [symmetric])
qed (auto simp: local_text_def Let_def)

lemma kprint_stderr:
  assumes "con_term (con_in o') u" and "length t < 100"
  shows "\<exists>c. kprint o' (lit ''STDERR: %s'') [AStr t] = Some (set_con o' c) \<and> con_term c (fold term_put (lit ''STDERR: '' @ t) u)"
  by (rule kprint_term [OF assms(1), of _ "[lit ''STDERR: '', [37, 115]]"])
    (use assms(2) in \<open>simp_all add: lit_def fmt_pieces_def render_def fits_def Let_def of_char_def\<close>)

section \<open>Reading a line\<close>

lemma poll_keys_until:
  assumes "kb_keys k ds = Some k'" and "stop k'" and "\<forall>i<length ds. \<forall>k1. kb_keys k (take i ds) = Some k1 \<longrightarrow> \<not> stop k1"
  shows "poll_keys stop k (ds @ rest) = Some (k', rest)"
  using assms
proof (induction ds arbitrary: k)
  case (Cons d ds)
  then obtain k1 where k1: "irq_kb_handler k 1 d = Some k1" "kb_keys k1 ds = Some k'" by (auto simp: bind_eq_Some_conv)
  have "\<not> stop k" using Cons.prems(3) [rule_format, of 0] by simp
  moreover have "poll_keys stop k1 (ds @ rest) = Some (k', rest)"
    using Cons.prems(3) [rule_format, of "Suc _"] k1 by (intro Cons.IH k1(2) Cons.prems(2)) auto
  ultimately show ?case using k1(1) by simp
qed (cases rest, auto)

lemma kb_keys_new_line:
  assumes "kb_rep k e" and "length (line e) + length ds \<le> 1024" and "0x1c \<notin> set ds" and "kb_keys k ds = Some k'"
  shows "new_line k' = new_line k \<and> kb_rep k' (fold edit ds e)"
  using assms
proof (induction ds arbitrary: k e)
  case (Cons d ds)
  have "unat d \<noteq> 0x1c" using Cons.prems(3) by (auto simp: word_unat_eq_iff)
  then obtain k1 where k1: "irq_kb_handler k 1 d = Some k1" "kb_rep k1 (edit d e)" "new_line k1 = new_line k"
    using irq_kb_edit [of k e d] Cons.prems(1,2) by auto
  have "length (line (edit d e)) + length ds \<le> 1024" using Cons.prems(2) edit_length [of d e] by simp
  from Cons.IH [OF k1(2) this] show ?case using k1(1,3) Cons.prems(3,4) by simp
qed simp

lemma kb_enter:
  assumes "kb_rep k e" and "length (line e) < 1023" and "0 \<notin> set (line e)"
  shows "\<exists>k'. irq_kb_handler k 1 0x1c = Some k' \<and> new_line k' = 1 \<and> buf_text k' = Some (line e @ [10]) \<and>
    SHIFT_ON k' = SHIFT_ON k"
proof -
  let ?l = "line e @ [10]"
  obtain k' where k': "irq_kb_handler k 1 0x1c = Some k'" "kb_rep k' (edit 0x1c e)" "new_line k' = 1"
    using irq_kb_edit [OF assms(1), of "0x1c"] assms(2) by auto
  have c: "char_buf k' = (char_buf k)(length (line e) := 10)" and s: "SHIFT_ON k' = SHIFT_ON k"
    using k'(1) assms(1,2) by (auto simp: irq_kb_handler_def buf_put_def kb_rep_def Let_def)
  have pre: "map (char_buf k') [0..<length ?l] = ?l"
    using assms(1) by (intro nth_equalityI) (auto simp: c kb_rep_def nth_append less_Suc_eq)
  have z: "char_buf k' (length ?l) = 0" using assms(1,2) by (simp add: c kb_rep_def)
  have "[0..<1024] = [0..<length ?l] @ length ?l # [Suc (length ?l)..<1024]"
    using assms(2) upt_add_eq_append [of 0 "length ?l" "1024 - length ?l"] upt_conv_Cons [of "length ?l" 1024] by simp
  then have "map (char_buf k') [0..<1024] = ?l @ 0 # map (char_buf k') [Suc (length ?l)..<1024]"
    by (simp only: map_append list.map pre z)
  then have "takeWhile (\<lambda>c. c \<noteq> 0) (map (char_buf k') [0..<1024]) = ?l"
    using assms(3) by (simp add: takeWhile_append takeWhile_eq_all_conv)
  then show ?thesis using k'(1,3) s assms(2) by (simp add: buf_text_def Let_def)
qed

lemma buf_text_clear: "buf_text (clear_buf k) = Some []"
proof -
  have "map (char_buf (clear_buf k)) [0..<1024] = 0 # map (char_buf (clear_buf k)) [Suc 0..<1024]"
    using upt_conv_Cons [of 0 1024] by (simp add: clear_buf_def)
  then show ?thesis by (simp only: buf_text_def Let_def) simp
qed

lemma PS1_print:
  assumes "con_term (con_in o') u"
  shows "\<exists>c. kprint o' PS1 [] = Some (set_con o' c) \<and> con_term c (fold term_put PS1 u)"
  by (rule kprint_term [OF assms, of _ "[PS1]"])
    (simp_all add: PS1_def lit_def fmt_pieces_def render_def fits_def Let_def of_char_def)

lemma take_line_ok:
  assumes con: "con_term (con_in o') u" and rep: "kb_rep (kb_in o') e" and e: "line e = []"
    and nl: "new_line (kb_in o') = 0" and ds: "0x1c \<notin> set ds" "length ds < 1022" "0 \<notin> set (line (fold edit ds e))"
    and halt: "\<And>k. new_line k \<noteq> 0 \<Longrightarrow> stop k"
    and go: "\<And>k. new_line k = 0 \<Longrightarrow> 0 \<le> buf_idx k \<Longrightarrow> buf_idx k \<le> int (length ds) \<Longrightarrow> \<not> stop k"
    and inv: "pt_inv (vkst (vm (ksys_of o'))) root lo hi n" and cr: "cr3 (vm (ksys_of o')) = of_nat (4096 * root)"
    and buf: "ubuf (vkst (vm (ksys_of o'))) root lo hi dst N" "length ds < N"
  shows "\<exists>o1 m'. take_line o' dst stop (ds @ 0x1c # rest) = Some (o1, rest) \<and> con_term (con_in o1) (fold term_put PS1 u) \<and>
    kb_rep (kb_in o1) ((fold edit ds e)\<lparr>line := []\<rparr>) \<and> new_line (kb_in o1) = 0 \<and> buf_text (kb_in o1) = Some [] \<and>
    ksys_of o1 = set_kmem (ksys_of o') m' \<and> fsl o1 = fsl o' \<and>
    (\<forall>i<N. vld8 m' (of_nat (4096 * root)) (dst + of_nat i) =
      (let l = line (fold edit ds e) @ [10] in
       if i < length l then Some (l ! i) else vld8 (kmem_of (ksys_of o')) (of_nat (4096 * root)) (dst + of_nat i)))"
proof -
  let ?e = "fold edit ds e" and ?k = "kb_in o'"
  let ?l = "line ?e @ [10]"
  obtain c where c: "kprint o' PS1 [] = Some (set_con o' c)" "con_term c (fold term_put PS1 u)"
    using PS1_print [OF con] by blast
  obtain k1 where k1: "kb_keys ?k ds = Some k1" "kb_rep k1 ?e"
    using kb_keys_edit [OF rep, of ds] e ds(2) by auto
  have len: "length (line ?e) \<le> length ds" using edit_lengths [of ds e] e by simp
  obtain k2 where k2: "irq_kb_handler k1 1 0x1c = Some k2" "new_line k2 = 1" "buf_text k2 = Some ?l" "SHIFT_ON k2 = SHIFT_ON k1"
    using kb_enter [OF k1(2)] len ds(2,3) by auto
  have keys: "kb_keys ?k (ds @ [0x1c]) = Some k2" using k1(1) k2(1) by (simp add: kb_keys_append)
  have "\<not> stop k3" if i: "i < length (ds @ [0x1c])" and k3: "kb_keys ?k (take i (ds @ [0x1c])) = Some k3" for i k3
  proof -
    have t: "take i (ds @ [0x1c]) = take i ds" using i by simp
    have "new_line k3 = new_line ?k \<and> kb_rep k3 (fold edit (take i ds) e)"
      using k3 ds e unfolding t by (intro kb_keys_new_line [OF rep, of "take i ds"]) (auto dest: in_set_takeD)
    moreover have "length (line (fold edit (take i ds) e)) \<le> length ds" using edit_lengths [of "take i ds" e] e by simp
    ultimately show ?thesis using nl by (intro go) (auto simp: kb_rep_def)
  qed
  then have poll: "poll_keys stop ?k (ds @ 0x1c # rest) = Some (k2, rest)"
    using poll_keys_until [OF keys, of stop rest] halt [of k2] k2(2) by simp
  obtain m' where m': "vst_bytes (kmem_of (ksys_of o')) (of_nat (4096 * root)) dst ?l = Some m'"
      "\<forall>i<N. vld8 m' (of_nat (4096 * root)) (dst + of_nat i) =
        (if i < length ?l then Some (?l ! i) else vld8 (kmem_of (ksys_of o')) (of_nat (4096 * root)) (dst + of_nat i))"
    using vst_ubuf [OF inv buf(1), of ?l] len buf(2) by auto
  let ?o1 = "set_kb (set_sys (set_con o' c) (set_kmem (ksys_of o') m')) (clear_buf k2)"
  have "take_line o' dst stop (ds @ 0x1c # rest) = Some (?o1, rest)"
    by (simp add: take_line_def c poll k2(3) user_write_def cr m'(1) del: of_nat_mult)
  moreover have "kb_rep (clear_buf k2) (?e\<lparr>line := []\<rparr>)"
    using k1(2) k2(4) by (simp add: kb_rep_def clear_buf_def)
  moreover have "new_line (clear_buf k2) = 0" by (simp add: clear_buf_def)
  ultimately show ?thesis using c(2) m'(2) by (intro exI [of _ ?o1] exI [of _ m']) (simp add: buf_text_clear Let_def)
qed

section \<open>cat\<close>

text \<open>What cat prints of a file: blocks of 60 bytes, each starting with the last byte of the one before.\<close>

function cat_text :: "u8 list \<Rightarrow> u8 list" where
  "cat_text d = (if length d < 60 then d else take 60 d @ cat_text (drop 59 d))"
  by pat_completeness auto
termination by (relation "measure length") auto

declare cat_text.simps [simp del]

lemma open_at_fk: "open_at f fd a data \<Longrightarrow> fk f' = fk f \<Longrightarrow> files f' = files f \<Longrightarrow> open_at f' fd a data"
  by (simp add: open_at_def)

lemma seen_plain: "0 \<notin> set bs \<Longrightarrow> seen bs = bs"
  by (auto simp: seen_def takeWhile_eq_all_conv)

lemma cat_loop_ok:
  assumes o: "open_at (fs_in o') fd a data" and pos: "bytesdone (fsl o') = int p" "p < length data"
    and z: "0 \<notin> set data" and con: "con_term (con_in o') u" and room: "60 < room env 60"
  shows "\<exists>o1. cat_loop env o' fd = Some o1 \<and> con_term (con_in o1) (fold term_put (cat_text (drop p data)) u) \<and>
    open_at (fs_in o1) fd a data \<and> kb_in o1 = kb_in o' \<and> ksys_of o1 = ksys_of o' \<and> tarfs_list (fsl o1) = tarfs_list (fsl o')"
  using o pos con
proof (induction "length data - p" arbitrary: o' p u rule: less_induct)
  case less
  note o = less.prems(1) and pos = less.prems(2,3) and con = less.prems(4)
  let ?d = "drop p data"
  define bs where "bs = take 60 ?d"
  define f1 where "f1 = (fs_in o')\<lparr>bytesdone := int p + (int (length bs) - 1)\<rparr>"
  define j where "j = min 60 (length data - p)"
  obtain e where e: "files (fsl o') fd = Some e" "f_size e = int (length data)"
    using o by (auto simp: open_at_def fs_in_def)
  have zb: "seen bs = bs" using z unfolding bs_def by (meson seen_plain in_set_dropD in_set_takeD)
  have rd: "read_file (fs_in o') fd 60 = Some (f1, bs, of_nat j)"
    using read_file_data [OF o, of p 60] pos zb by (simp add: fs_in_def f1_def bs_def j_def)
  have len: "length bs < 100" "length bs < room env 60" using room by (simp_all add: bs_def)
  have "con_term (con_in (fs_back o' f1)) u" using con by simp
  then obtain c where c: "kprint (fs_back o' f1) (lit ''%s'') [AStr bs] = Some (set_con (fs_back o' f1) c)"
      "con_term c (fold term_put bs u)"
    using kprint_s len(1) by blast
  let ?o1 = "set_con (fs_back o' f1) c"
  have n: "to_int (of_nat j) = int j" by (intro to_int_small) (simp add: j_def)
  have "data \<noteq> []" using pos(2) by auto
  then have "cat_loop env o' fd = (if 60 \<le> int j then cat_loop env ?o1 fd else Some ?o1)"
    by (subst cat_loop.simps) (simp add: e rd c(1) local_text_def n zb len(2))
  then have step: "cat_loop env o' fd = (if 60 \<le> length ?d then cat_loop env ?o1 fd else Some ?o1)"
    by (simp add: j_def)
  have same: "ksys_of ?o1 = ksys_of o'" by (simp add: fs_back_def fs_in_def Let_def f1_def)
  have o1: "open_at (fs_in ?o1) fd a data" by (rule open_at_fk [OF o]) (simp_all add: f1_def)
  show ?case
  proof (cases "60 \<le> length ?d")
    case False
    then have "cat_text ?d = ?d" "bs = ?d" by (simp_all add: cat_text.simps bs_def)
    then show ?thesis using step False c(2) o1 same by (auto simp: fs_in_def f1_def)
  next
    case True
    have "bytesdone (fsl ?o1) = int (p + 59)" using True by (simp add: f1_def bs_def)
    moreover have "p + 59 < length data" "length data - (p + 59) < length data - p" using True pos(2) by auto
    ultimately obtain o2 where "cat_loop env ?o1 fd = Some o2"
        "con_term (con_in o2) (fold term_put (cat_text (drop (p + 59) data)) (fold term_put bs u))"
        "open_at (fs_in o2) fd a data" "kb_in o2 = kb_in ?o1" "ksys_of o2 = ksys_of ?o1" "tarfs_list (fsl o2) = tarfs_list (fsl ?o1)"
      using less.hyps [of "p + 59" ?o1 "fold term_put bs u"] o1 c(2) by auto
    moreover have "cat_text ?d = bs @ cat_text (drop (p + 59) data)"
      using True by (subst cat_text.simps) (simp add: add.commute bs_def)
    ultimately show ?thesis using step True same by (auto simp: fs_in_def f1_def)
  qed
qed

section \<open>exec\<close>

text \<open>Loading a program does not touch the scheduler's variables.\<close>

definition same_sched :: "ksys \<Rightarrow> ksys \<Rightarrow> bool" where
  "same_sched s s' \<longleftrightarrow> previous s' = previous s \<and> task_count s' = task_count s"

lemma same_sched_refl [simp]: "same_sched s s"
  by (simp add: same_sched_def)

lemma same_sched_trans: "same_sched s s1 \<Longrightarrow> same_sched s1 s2 \<Longrightarrow> same_sched s s2"
  by (simp add: same_sched_def)

lemma same_sched_kmalloc: "ksys_kmalloc s sz = Some (s', p) \<Longrightarrow> same_sched s s'"
  by (auto simp: ksys_kmalloc_def same_sched_def bind_eq_Some_conv)

lemma same_sched_upd: "upd_task s p f = Some s' \<Longrightarrow> same_sched s s'"
  by (auto simp: upd_task_def same_sched_def bind_eq_Some_conv)

lemma same_sched_vma: "vma_malloc s p = Some (s', v) \<Longrightarrow> same_sched s s'"
  by (auto simp: vma_malloc_def ksys_kmalloc_def same_sched_def set_kmem_def Let_def bind_eq_Some_conv split: if_splits)

lemma same_sched_segment: "load_segment s h pcb ph = Some s' \<Longrightarrow> same_sched s s'"
  by (auto simp: load_segment_def bind_eq_Some_conv Let_def say_def dest!: same_sched_vma split: if_splits)
    (auto simp: same_sched_def set_kmem_def)

lemma same_sched_segments: "load_segments s h pcb ph k = Some s' \<Longrightarrow> same_sched s s'"
proof (induction k arbitrary: s ph)
  case (Suc k)
  then show ?case
    by (auto simp: bind_eq_Some_conv Let_def split: if_splits dest!: same_sched_segment intro: same_sched_trans)
qed simp

lemma same_sched_new_task: "new_task s par fp = Some (s', pcb) \<Longrightarrow> same_sched s s'"
  by (auto simp: new_task_def bind_eq_Some_conv Let_def new_space_def set_kmem_def dest!: same_sched_kmalloc split: if_splits)
    (auto simp: same_sched_def)

lemma same_sched_stacks: "setup_stacks isr s pcb argc argv = Some s' \<Longrightarrow> same_sched s s'"
  by (auto simp: setup_stacks_def bind_eq_Some_conv Let_def set_kmem_def dest!: same_sched_upd split: if_splits)
    (auto simp: same_sched_def)

lemma elf_run_bin_sched:
  assumes "elf_run_bin isr s addr fp argc argv = Some (s', pcb)"
  shows "same_sched s s'"
proof -
  obtain par s1 s2 s3 s4 p h h' where
      "new_task s par fp = Some (s1, pcb)" "setup_stacks isr s1 pcb argc argv = Some s2"
      "load_segments s2 addr pcb h h' = Some s3" "upd_task s3 pcb p = Some s4" and s': "same_sched s4 s'"
    using assms by (auto simp: elf_run_bin_def bind_eq_Some_conv Let_def same_sched_def)
  then show ?thesis
    by (meson same_sched_new_task same_sched_stacks same_sched_segments same_sched_upd same_sched_trans)
qed

lemma delete_curr_frame:
  "delete_curr_from_task_list s = Some s' \<Longrightarrow> vm s' = vm s \<and> PID s' = PID s"
  by (auto simp: delete_curr_from_task_list_def set_next_def bind_eq_Some_conv Let_def split: if_splits)

lemma dispatch_frame: "dispatch s f = Some s' \<Longrightarrow> PID s' = PID s"
  by (auto simp: dispatch_def switch_to_def set_tss_rsp_def upd_task_def bind_eq_Some_conv Let_def split: if_splits)

lemma schedule_exited_tasks:
  assumes rq: "ready_queue s (us @ q # vs)" and "running_task s = 0" and "previous s = q" and "schedule s 1 = Some s'"
  shows "PID s' = PID s \<and> (\<forall>z\<in>set (us @ q # vs). \<exists>w. ntask s' z = (ntask s z)\<lparr>is_waiting := w\<rparr>)"
proof -
  let ?xs = "us @ q # vs" and ?y = "pick s vs"
  obtain P where P: "sched_choose s = Some ((woken s P)\<lparr>running_task := ?y\<rparr>)"
    using sched_choose_exited [OF assms(1-3)] by blast
  let ?s = "(woken s P)\<lparr>running_task := ?y\<rparr>"
  have rq': "ready_queue ?s ?xs" by (rule ready_queue_cong [OF woken_queue [OF rq, of P]]) simp_all
  have y: "running_task ?s \<in> set ?xs" "previous ?s \<in> set ?xs" using pick_in [OF rq] assms(3) by simp_all
  have d: "dispatch ?s 1 = Some s'" using assms(4) P by (simp add: schedule_dispatch)
  then have n: "\<forall>z \<in> set ?xs. ntask s' z = ntask ?s z" using dispatch_ok [OF rq' y, of 1] by (auto simp: saved_def)
  have "ntask ?s = ntask (woken s P)" by (rule ntask_frame) simp_all
  moreover have "\<exists>w. ntask (woken s P) z = (ntask s z)\<lparr>is_waiting := w\<rparr>" if "z \<in> set ?xs" for z
    using ntask_woken [OF rq that, of P] by (cases "nproc s z \<in> P") (auto intro: exI [of _ "is_waiting (ntask s z)"])
  moreover have "PID s' = PID s" using dispatch_frame [OF d] by (simp add: woken_def)
  ultimately show ?thesis using n by auto
qed

text \<open>The running task is taken out of the queue, another one is put at its end, and the scheduler goes on.\<close>

lemma replace_running:
  assumes inv: "queue_inv s (us @ p # x # vs) lo hi n" and run: "running_task s = x"
    and prev: "us @ p # vs = us' @ q # vs'" "previous s = q" and c: "int_ok (int (length (us @ p # x # vs)))"
    and lo: "lo < hi" and t: "tasks s pcb = Some t" and new: "pcb \<notin> nproc s ` set (us @ p # vs)"
  shows "\<exists>s1 s2 s' k. delete_curr_from_task_list s = Some s1 \<and> add_to_task_list s1 pcb = Some s2 \<and> schedule s2 1 = Some s' \<and>
    queue_inv s' ((us @ p # vs) @ [frame_ptr lo]) (Suc lo) hi n \<and> (\<exists>w. ntask s' (frame_ptr lo) = t\<lparr>is_waiting := w\<rparr>) \<and>
    vkst (vm s') = k \<and> alloc_post (vkst (vm s)) k lo 1 hi \<and> PID s' = PID s \<and> running_task s' \<in> set ((us @ p # vs) @ [frame_ptr lo])"
proof -
  let ?xs = "us @ p # vs"
  have c1: "int_ok (int (length ?xs))" "int_ok (int (length ?xs) + 1)" using c by (auto simp: int_ok_def)
  obtain s1 where s1: "delete_curr_from_task_list s = Some s1" "queue_inv s1 ?xs lo hi n"
      "running_task s1 = 0" "previous s1 = q" "tasks s1 = tasks s" "nproc s1 = nproc s"
    using delete_curr_ok [OF inv run c1(1)] prev(2) by auto
  note f1 = delete_curr_frame [OF s1(1)]
  have t1: "tasks s1 pcb \<noteq> None" and new1: "pcb \<notin> nproc s1 ` set ?xs" using s1(5,6) t new by auto
  obtain s2 k where s2: "add_to_task_list s1 pcb = Some s2" "queue_inv s2 (?xs @ [frame_ptr lo]) (Suc lo) hi n"
      "nproc s2 (frame_ptr lo) = pcb" "tasks s2 = tasks s1" "running_task s2 = 0" "previous s2 = q"
      "vm s2 = (vm s1)\<lparr>vkst := k\<rparr>" "alloc_post (vkst (vm s1)) k lo 1 hi" "PID s2 = PID s1"
    using add_to_task_list_ok [OF s1(2) lo t1 new1 c1(2)] s1(3,4) by auto
  have rq: "ready_queue s2 (us' @ q # vs' @ [frame_ptr lo])" using s2(2) prev(1) by (simp add: queue_inv_def)
  obtain s' where s': "schedule s2 1 = Some s'" "ready_queue s' (us' @ q # vs' @ [frame_ptr lo])"
      "running_task s' = pick s2 (vs' @ [frame_ptr lo])" "task_count s' = task_count s2"
      "vm s' = (vm s2)\<lparr>cr3 := t_cr3 (ntask s2 (pick s2 (vs' @ [frame_ptr lo])))\<rparr>" "rtasks s' = rtasks s2"
    using schedule_exited [OF rq s2(5,6)] by blast
  note st = schedule_exited_tasks [OF rq s2(5,6) s'(1)]
  have "ntask s2 (frame_ptr lo) = t" using s2(3,4) s1(5) t by (simp add: ntask_def)
  then obtain w where w: "ntask s' (frame_ptr lo) = t\<lparr>is_waiting := w\<rparr>" using st by auto
  have eq: "us' @ q # vs' @ [frame_ptr lo] = ?xs @ [frame_ptr lo]" using prev(1) by simp
  have "queue_inv s' (?xs @ [frame_ptr lo]) (Suc lo) hi n"
    using s2(2) s'(2,4,5,6) eq by (simp add: queue_inv_def nodes_below_def)
  moreover have "running_task s' \<in> set (?xs @ [frame_ptr lo])" using pick_in [OF rq] s'(3) eq by (metis)
  ultimately show ?thesis using s1(1) s2(1,7,8,9) s'(1,5) f1 w st by (intro exI [of _ s1] exI [of _ s2] exI [of _ s'] exI [of _ k]) auto
qed

text \<open>Opening a file allocates its descriptor; the page tables, the user data and the loaded file stay.\<close>

lemma uimage_alloc:
  assumes "pt_inv st root lo hi n" and "fl_inv st' (lo + k) hi n" and "alloc_post st st' lo k hi"
  shows "pt_inv st' root (lo + k) hi n" and "uimage st root lo hi va bs \<Longrightarrow> uimage st' root (lo + k) hi va bs"
proof -
  note a = pt_step_alloc [OF assms]
  show "pt_inv st' root (lo + k) hi n" using a(1) by (simp add: pt_step_def)
  assume u: "uimage st root lo hi va bs"
  have "keeps st st' root lo hi" using a(1) unfolding pt_step_keeps by blast
  then have "uimage st' root lo hi va bs" by (rule uimage_keeps [OF _ u]) (simp only: a(2) simp_thms)
  then show "uimage st' root (lo + k) hi va bs" by (rule uimage_mono) simp
qed

lemma open_file_alloc:
  assumes "fl_inv (fk f) lo hi n" and "lo < hi" and "open_loop (tarfs_list f) name = Some (Some e)" and "length name < 100"
  shows "\<exists>k. open_file f name = Some (f\<lparr>fk := k,
      files := (files f)(frame_ptr lo \<mapsto> \<lparr>f_name = name, f_size = te_size e, f_addr = te_addr e\<rparr>)\<rparr>, frame_ptr lo) \<and>
    fl_inv k (lo + 1) hi n \<and> alloc_post (fk f) k lo 1 hi \<and> frame_ptr lo \<noteq> 0"
proof -
  have p: "pages_for 112 = int 1" by (simp add: pages_for_def to_int_def)
  obtain k where k: "kmalloc (fk f) 112 = Some (k, frame_ptr lo)" "fl_inv k (lo + 1) hi n" "frame_ptr lo \<noteq> 0" "alloc_post (fk f) k lo 1 hi"
    using kmalloc_frame [OF assms(1) p] assms(2) by auto
  then show ?thesis using assms(3,4) by (intro exI [of _ k]) (simp add: open_file_def)
qed

lemma program_at_alloc:
  assumes prog: "program_at s kroot lo hi n addr fp nm phs" and fl: "fl_inv k (lo + 1) hi n"
    and post: "alloc_post (vkst (vm s)) k lo 1 hi" and t: "tasks s (frame_ptr (lo + 2)) = None"
    and room: "lo + 15 + segs_room (loads phs) \<le> hi" and num: "int_ok (PID s - 1)"
  shows "program_at (s\<lparr>vm := (vm s)\<lparr>vkst := k\<rparr>, PID := PID s - 1\<rparr>) kroot (lo + 1) hi n addr fp nm phs"
proof -
  let ?F = "unat (free_list (vkst (vm s)))"
  have inv: "pt_inv (vkst (vm s)) kroot lo hi n" using prog by (simp add: program_at_def Let_def)
  note a = pt_step_alloc [OF inv fl post]
  have same: "same_on 0 ?F (kmem k) (kmem_of s)" and free: "free_list k = free_list (vkst (vm s))" using a(1) by (simp_all add: pt_step_def)
  have pi: "pt_inv k kroot (lo + 1) hi n" using a(1) by (simp add: pt_step_def)
  have P: "cstr (kmem_of s) (loc fp) nm" "loc fp + length nm < ?F" "loc addr + 64 \<le> ?F"
      "hdrs (kmem_of s) ?F (addr + e_phoff (ehdr_at (kmem_of s) (loc addr))) phs"
      "length phs = unat (e_phnum (ehdr_at (kmem_of s) (loc addr)))" "int_ok (PID s + 1)"
    using prog by (simp_all add: program_at_def Let_def)
  have "same_on (loc fp) (Suc (length nm)) (kmem k) (kmem_of s)" using same P(2) by (auto simp: same_on_def)
  then have "cstr (kmem k) (loc fp) nm" by (rule cstr_same [OF P(1)])
  moreover have "e_phoff (ehdr_at (kmem k) (loc addr)) = e_phoff (ehdr_at (kmem_of s) (loc addr))"
      "e_phnum (ehdr_at (kmem k) (loc addr)) = e_phnum (ehdr_at (kmem_of s) (loc addr))"
    using ehdr_same [OF same P(3)] by simp_all
  moreover have "hdrs (kmem k) ?F (addr + e_phoff (ehdr_at (kmem_of s) (loc addr))) phs" by (rule hdrs_same [OF same P(4)])
  moreover have "int_ok (PID s)" using num P(6) by (simp add: int_ok_def)
  moreover have "frame_ptr (lo + 1 + 1) = frame_ptr (lo + 2)" by simp
  ultimately show ?thesis using prog pi free t room by (simp add: program_at_def Let_def)
qed

text \<open>What exec needs: a queue in which the running task is not the head, the program file, and its two
  arguments as texts in user memory.\<close>

definition exec_ready :: "frame_env \<Rightarrow> os \<Rightarrow> u64 \<Rightarrow> u64 \<Rightarrow> u8 list \<Rightarrow> u8 list \<Rightarrow> nat \<Rightarrow> nat \<Rightarrow> nat \<Rightarrow> nat \<Rightarrow> nat \<Rightarrow>
    u64 list \<Rightarrow> u64 \<Rightarrow> u64 \<Rightarrow> u64 list \<Rightarrow> u64 \<Rightarrow> u8 list \<Rightarrow> Elf64_Phdr list \<Rightarrow> bool" where
  "exec_ready env o' buf third nm arg root kroot lo hi n us p x vs hdr fnm phs \<longleftrightarrow>
     (let s = ksys_of o'; k = vkst (vm s) in
      queue_inv s (us @ p # x # vs) lo hi n \<and> running_task s = x \<and> previous s \<in> set (us @ p # vs) \<and>
      int_ok (int (length (us @ p # x # vs))) \<and>
      pt_inv k root lo hi n \<and> cr3 (vm s) = of_nat (4096 * root) \<and>
      uimage k root lo hi buf (nm @ [0]) \<and> 0 \<notin> set nm \<and> uimage k root lo hi third (arg @ [0]) \<and> 0 \<notin> set arg \<and>
      length (PATH @ nm) < room env 50 \<and> length (PATH @ nm) < 100 \<and> length arg < room env 50 \<and>
      (\<exists>e. open_loop (tarfs_list (fsl o')) (PATH @ nm) = Some (Some e) \<and> te_addr e = hdr) \<and>
      program_at s kroot lo hi n (hdr + 512) hdr fnm phs \<and> tasks s (frame_ptr (lo + 2)) = None \<and>
      lo + 16 + segs_room (loads phs) \<le> hi \<and> int_ok (PID s - 1))"

lemma utext_uimage:
  assumes "pt_inv k root lo hi n" and "uimage k root lo hi va (t @ [0])" and "0 \<notin> set t"
  shows "utext (kmem k) (of_nat (4096 * root)) va = Some t"
proof (rule utext_read [OF _ _ assms(3)])
  note r = uimage_read [OF assms(1,2)]
  show "\<forall>i<length t. vld8 (kmem k) (of_nat (4096 * root)) (va + of_nat i) = Some (t ! i)"
  proof (intro allI impI)
    fix i assume "i < length t"
    then show "vld8 (kmem k) (of_nat (4096 * root)) (va + of_nat i) = Some (t ! i)" using r [of i] by (simp add: nth_append del: of_nat_mult)
  qed
  show "vld8 (kmem k) (of_nat (4096 * root)) (va + of_nat (length t)) = Some 0"
    using r [of "length t"] by (simp del: of_nat_mult)
qed

lemma sys_exec_ok:
  assumes r: "exec_ready env o' buf third nm arg root kroot lo hi n us p x vs hdr fnm phs"
  defines "s \<equiv> ksys_of o'"
  shows "\<exists>o1 y t k lo'. sys_exec env o' buf third = Some o1 \<and>
    queue_inv (ksys_of o1) ((us @ p # vs) @ [y]) lo' hi n \<and> running_task (ksys_of o1) \<in> set ((us @ p # vs) @ [y]) \<and>
    ntask (ksys_of o1) y = t \<and> pid t = pid (ntask s x) \<and> ppid t = ppid (ntask s x) \<and> PID (ksys_of o1) = PID s \<and>
    kstack t 507 = e_entry (ehdr_at (kmem_of s) (loc (hdr + 512))) \<and>
    kstack t 506 = (if arg \<noteq> [] \<and> arg \<noteq> nm then 1 else 0) \<and> (arg \<noteq> [] \<and> arg \<noteq> nm \<longrightarrow> kstack t 505 = arg_addr env) \<and>
    t_cr3 t = of_nat (4096 * (lo + 1)) \<and> vkst (vm (ksys_of o1)) = k \<and> pt_inv k (lo + 1) lo' hi n \<and>
    (\<forall>ph\<in>set (loads phs). uimage k (lo + 1) lo' hi (p_vaddr ph) (seg_bytes (kmem_of s) (hdr + 512) ph))"
proof -
  let ?k = "vkst (vm s)" and ?xs = "us @ p # vs"
  have q: "queue_inv s (us @ p # x # vs) lo hi n" and run: "running_task s = x" and pv: "previous s \<in> set ?xs"
    and c: "int_ok (int (length (us @ p # x # vs)))" and inv: "pt_inv ?k root lo hi n" and cr: "cr3 (vm s) = of_nat (4096 * root)"
    and ui: "uimage ?k root lo hi buf (nm @ [0])" "0 \<notin> set nm" "uimage ?k root lo hi third (arg @ [0])" "0 \<notin> set arg"
    and ln: "length (PATH @ nm) < room env 50" "length (PATH @ nm) < 100" "length arg < room env 50"
    and prog: "program_at s kroot lo hi n (hdr + 512) hdr fnm phs" "tasks s (frame_ptr (lo + 2)) = None"
    and rm: "lo + 16 + segs_room (loads phs) \<le> hi" and num: "int_ok (PID s - 1)"
    using r by (auto simp: exec_ready_def Let_def s_def)
  obtain e where e: "open_loop (tarfs_list (fsl o')) (PATH @ nm) = Some (Some e)" "te_addr e = hdr"
    using r by (auto simp: exec_ready_def Let_def)
  have fl: "fl_inv (fk (fs_in o')) lo hi n" using inv by (simp add: fs_in_def pt_inv_def s_def)
  have "lo < hi" "open_loop (tarfs_list (fs_in o')) (PATH @ nm) = Some (Some e)" using rm e(1) by (simp_all add: fs_in_def)
  then obtain k1 where k1: "open_file (fs_in o') (PATH @ nm) = Some ((fs_in o')\<lparr>fk := k1,
        files := (files (fs_in o'))(frame_ptr lo \<mapsto> \<lparr>f_name = PATH @ nm, f_size = te_size e, f_addr = te_addr e\<rparr>)\<rparr>, frame_ptr lo)"
      "fl_inv k1 (lo + 1) hi n" "alloc_post ?k k1 lo 1 hi" "frame_ptr lo \<noteq> 0"
    using open_file_alloc [OF fl _ _ ln(2)] by (auto simp: fs_in_def s_def)
  define f1 where "f1 = (fs_in o')\<lparr>fk := k1,
        files := (files (fs_in o'))(frame_ptr lo \<mapsto> \<lparr>f_name = PATH @ nm, f_size = te_size e, f_addr = te_addr e\<rparr>)\<rparr>"
  let ?o1 = "fs_back o' f1"
  have o1: "ksys_of ?o1 = s\<lparr>vm := (vm s)\<lparr>vkst := k1\<rparr>\<rparr>" by (simp add: fs_back_def Let_def s_def f1_def set_sys_def)
  note a1 = uimage_alloc [OF inv k1(2,3)]
  have t0: "user_text o' buf = Some nm"
    using utext_uimage [OF inv ui(1,2)] cr by (simp add: user_text_def s_def del: of_nat_mult)
  have t1: "user_text ?o1 third = Some arg"
    using utext_uimage [OF a1(1) a1(2) [OF ui(3)] ui(4)] cr by (simp add: user_text_def o1 del: of_nat_mult)
  define argc where "argc = (if arg \<noteq> [] \<and> arg \<noteq> nm then 1 else 0 :: nat)"
  let ?s0 = "s\<lparr>vm := (vm s)\<lparr>vkst := k1\<rparr>, PID := PID s - 1\<rparr>"
  have prog0: "program_at ?s0 kroot (lo + 1) hi n (hdr + 512) hdr fnm phs"
    using program_at_alloc [OF prog(1) k1(2,3) prog(2) _ num] rm by simp
  have rq: "ready_queue s (us @ p # x # vs)" using q by (simp add: queue_inv_def)
  have nx: "proc_of s x = Some (nproc s x)" "tasks s (nproc s x) = Some (ntask s x)" using rq_node [OF rq, of x] by simp_all
  obtain l where l: "fst (elf_check_supported ?s0 (hdr + 512)) = ?s0\<lparr>klog := l\<rparr>" using check_only_talks by blast
  let ?sl = "?s0\<lparr>klog := l\<rparr>"
  let ?pcb = "frame_ptr (lo + 2)"
  have pl: "program_at ?sl kroot (lo + 1) hi n (hdr + 512) hdr fnm phs" using prog0 by (simp only: program_at_log)
  have par: "get_running_task ?sl = Some (nproc s x)" "tasks ?sl (nproc s x) = Some (ntask s x)"
    using nx run by (simp_all add: get_running_task_def proc_of_def)
  define st where "st = started (isr32_at env) ?sl (lo + 1) (pid (ntask s x)) argc (\<lambda>_. arg_addr env) (e_entry (ehdr_at (kmem k1) (loc (hdr + 512)))) fnm"
  obtain s1 k2 lo2 where s1: "elf_run_bin (isr32_at env) ?sl (hdr + 512) hdr argc (\<lambda>_. arg_addr env) = Some (s1, ?pcb)"
      "tasks s1 = (tasks s)(?pcb \<mapsto> st)" "vm s1 = (vm s)\<lparr>vkst := k2, cr3 := t_cr3 (ntask s x)\<rparr>"
      "PID s1 = PID s" "rtasks s1 = rtasks s" "queue_head s1 = queue_head s" "running_task s1 = x"
      "pt_inv k2 (lo + 1) lo2 hi n" "\<forall>ph\<in>set (loads phs). uimage k2 (lo + 1) lo2 hi (p_vaddr ph) (seg_bytes (kmem k1) (hdr + 512) ph)"
      "lo2 \<le> lo + 1 + 14 + segs_room (loads phs)"
  proof -
    have ac: "argc \<le> 492" by (simp add: argc_def)
    have e2: "lo + 1 + 1 = lo + 2" by simp
    show ?thesis
      using elf_run_bin_ok [OF pl ac par, of "isr32_at env" "\<lambda>_. arg_addr env", unfolded e2]
      by (elim exE conjE) (rule that; simp add: run st_def)
  qed
  define t where "t = st\<lparr>pid := pid (ntask s x), ppid := ppid (ntask s x)\<rparr>"
  define s3 where "s3 = s1\<lparr>tasks := (tasks s)(?pcb \<mapsto> t)\<rparr>"
  have parse: "elf_parse (isr32_at env) ?s0 (hdr + 512) hdr argc (\<lambda>_. arg_addr env) = Some (s1, ?pcb)"
    using l s1(1) by (simp add: elf_parse_def case_prod_unfold)
  have npc: "nproc s x \<noteq> ?pcb" using nx(2) prog(2) by auto
  have upd: "do { sa \<leftarrow> upd_task s1 ?pcb (pid_update (\<lambda>_. pid (ntask s x))); upd_task sa ?pcb (ppid_update (\<lambda>_. ppid (ntask s x))) } = Some s3"
    by (simp add: upd_task_def s1(2) s3_def t_def)
  have sc: "previous s3 = previous s" "task_count s3 = task_count s"
    using elf_run_bin_sched [OF s1(1)] by (simp_all add: same_sched_def s3_def)
  have lo2: "lo + 1 < lo2"
    using tree_in [of "tabs (kmem k2)" "lo + 1" "table_frames k2 lo2 hi" "[]" "lo + 1"] s1(8) by (simp add: pt_inv_def table_frames_def valid_path_def walk.simps)
  have np: "nproc s3 = nproc s" by (simp add: nproc_def s3_def s1(5) fun_eq_iff)
  have q3: "queue_inv s3 (us @ p # x # vs) lo2 hi n"
  proof -
    have "ready_queue s3 (us @ p # x # vs)" by (rule ready_queue_cong [OF rq]) (simp_all add: s3_def s1(5,6))
    moreover have "nodes_below s3 lo2"
    proof -
      have "\<exists>f<lo2. z = frame_ptr f" if z: "rtasks s z \<noteq> None" for z
      proof -
        obtain f where "f < lo" "z = frame_ptr f" using q z by (auto simp: queue_inv_def nodes_below_def)
        then show ?thesis using lo2 by (intro exI [of _ f]) simp
      qed
      then show ?thesis by (simp add: nodes_below_def s3_def s1(5))
    qed
    ultimately show ?thesis using q sc(2) s1(3,8) by (simp add: queue_inv_def s3_def pt_inv_def)
  qed
  obtain us' vs' where pv': "us @ p # vs = us' @ previous s # vs'" using pv by (meson split_list)
  have new: "?pcb \<notin> nproc s3 ` set (us @ p # vs)"
  proof
    assume "?pcb \<in> nproc s3 ` set (us @ p # vs)"
    then obtain z where "z \<in> set (us @ p # x # vs)" "?pcb = nproc s z" unfolding np by auto
    then show False using rq_node(2) [OF rq, of z] prog(2) by simp
  qed
  have t3: "tasks s3 ?pcb = Some t" by (simp add: s3_def)
  have "lo2 < hi" using s1(10) rm by simp
  then obtain s4 s5 s6 k3 w where f: "delete_curr_from_task_list s3 = Some s4" "add_to_task_list s4 ?pcb = Some s5" "schedule s5 1 = Some s6"
      "queue_inv s6 (?xs @ [frame_ptr lo2]) (Suc lo2) hi n" "ntask s6 (frame_ptr lo2) = t\<lparr>is_waiting := w\<rparr>"
      "vkst (vm s6) = k3" "alloc_post k2 k3 lo2 1 hi" "PID s6 = PID s" "running_task s6 \<in> set (?xs @ [frame_ptr lo2])"
    using replace_running [OF q3 _ pv' sc(1) c _ t3 new] s1(3,4,7) by (auto simp: s3_def)
  have load: "exec_load env ?o1 (frame_ptr lo) nm arg = Some (set_sys ?o1 s6)"
  proof -
    have fe: "files (fsl ?o1) (frame_ptr lo) = Some \<lparr>f_name = PATH @ nm, f_size = te_size e, f_addr = hdr\<rparr>" by (simp add: f1_def e(2))
    have g: "get_running_task (s\<lparr>vm := (vm s)\<lparr>vkst := k1\<rparr>\<rparr>) = Some (nproc s x)" using nx(1) run by (simp add: get_running_task_def proc_of_def)
    have tp: "tasks s1 (nproc s x) = Some (ntask s x)" using s1(2) nx(2) npc by simp
    obtain sa where sa: "upd_task s1 ?pcb (pid_update (\<lambda>_. pid (ntask s x))) = Some sa" "upd_task sa ?pcb (ppid_update (\<lambda>_. ppid (ntask s x))) = Some s3"
      using upd by (auto simp: bind_eq_Some_conv)
    have a0: "(if 0 < length arg \<and> arg \<noteq> nm then 1 else 0) = argc" by (simp add: argc_def)
    have i0: "(if int_ok (PID (s\<lparr>vm := (vm s)\<lparr>vkst := k1\<rparr>\<rparr>) - 1) then Some ((s\<lparr>vm := (vm s)\<lparr>vkst := k1\<rparr>\<rparr>)\<lparr>PID := PID (s\<lparr>vm := (vm s)\<lparr>vkst := k1\<rparr>\<rparr>) - 1\<rparr>) else None) = Some ?s0"
      using num by simp
    have lt: "local_text env 50 arg = Some arg" using ln(3) by (simp add: local_text_def)
    show ?thesis
      unfolding exec_load_def fe o1 Let_def g i0 lt bind.bind_lunit file_entry.simps a0 parse prod.case tp sa f(1-3) ..
  qed
  have "sys_exec env o' buf third = Some (set_sys ?o1 s6)"
    unfolding sys_exec_def t0 bind.bind_lunit local_text_def using ln(1) k1(1,4) t1 load by (simp add: f1_def [symmetric])
  moreover have same: "same_on 0 (unat (free_list ?k)) (kmem k1) (kmem_of s)"
    using pt_step_alloc(1) [OF inv k1(2,3)] by (simp add: pt_step_def)
  have F: "loc (hdr + 512) + 64 \<le> unat (free_list ?k)" "segs_ok (unat (free_list ?k)) (hdr + 512) (loads phs)"
    using prog(1) by (simp_all add: program_at_def Let_def)
  have fl3: "fl_inv k3 (lo2 + 1) hi n" using f(4,6) by (simp add: queue_inv_def)
  note a3 = uimage_alloc [OF s1(8) fl3 f(7)]
  have "\<forall>ph\<in>set (loads phs). uimage k3 (lo + 1) (lo2 + 1) hi (p_vaddr ph) (seg_bytes (kmem_of s) (hdr + 512) ph)"
    using s1(9) a3(2) seg_bytes_same [OF same segs_ok_all [OF F(2)]] by auto
  moreover have "pid t = pid (ntask s x)" "ppid t = ppid (ntask s x)" "t_cr3 t = of_nat (4096 * (lo + 1))"
      "kstack t 507 = e_entry (ehdr_at (kmem_of s) (loc (hdr + 512)))" "kstack t 506 = of_nat argc"
      "arg \<noteq> [] \<and> arg \<noteq> nm \<longrightarrow> kstack t 505 = arg_addr env"
    using ehdr_same [OF same F(1)] start_stack_fields(7) [of 1 0, simplified]
    by (simp_all add: t_def st_def argc_def started_def Let_def task_of_def frame_ptr_def start_stack_fields(1) del: of_nat_mult of_nat_add)
  ultimately show ?thesis
    using f(4-6,8,9) a3(1)
    by (intro exI [of _ "set_sys ?o1 s6"] exI [of _ "frame_ptr lo2"] exI [of _ "t\<lparr>is_waiting := w\<rparr>"] exI [of _ k3] exI [of _ "lo2 + 1"]) (simp add: argc_def)
qed

section \<open>A running system\<close>

text \<open>Two tasks, a user page with the texts \<open>a\<close> and \<open>b\<close>, the program \<^verbatim>\<open>bin/a\<close> and the file
  \<^verbatim>\<open>b\<close> of 61 letters.\<close>

definition demo_low :: mem where
  "demo_low a = (if a < 512 then text_fun (PATH @ [97]) a else if a < 1024 then demo_elf (a - 512)
     else if 1536 \<le> a \<and> a < 1597 then 97 else 0)"

definition demo_user :: kst where
  "demo_user =
     (let k = fst (the (kmalloc_stack (paged_st\<lparr>kmem := low_mem demo_low (kmem paged_st)\<rparr>) 1 (frame_ptr 2)))
      in k\<lparr>kmem := the (vst_bytes (kmem k) (of_nat (4096 * 2)) (bumpPtr + 0x3000) [97, 0, 98, 0])\<rparr>)"

definition demo_files :: fsys where
  "demo_files = \<lparr>fk = boot_st,
     tarfs_list = [\<lparr>te_name = PATH @ [97], te_size = 192, te_addr = VADDR 0, te_type = 0\<rparr>,
                   \<lparr>te_name = [98], te_size = 61, te_addr = VADDR 1024, te_type = 0\<rparr>],
     bytesdone = 0, files = Map.empty, fs_out = []\<rparr>"

definition demo_ksys :: ksys where
  "demo_ksys = (demo node1 node0 1)\<lparr>vm := \<lparr>vkst = demo_user, topVAddr = 0, ker_cr3 = 0x2000,
     ker_pml4_t = VADDR (of_nat (4096 * 2)), cr3 = of_nat (4096 * 2)\<rparr>\<rparr>"

definition demo_os :: os where
  "demo_os = \<lparr>mach = \<lparr>sys = demo_ksys, con_of = blank_con, kb_of = fresh_kbd, m_ticks = 0, m_sec = 0\<rparr>,
     fsl = demo_files, g_is_bg = 0\<rparr>"

definition demo_env :: frame_env where
  "demo_env = \<lparr>room = (\<lambda>n. n + 16), arg_addr = 0x7000, junk = [1], isr32_at = 0\<rparr>"

abbreviation upg :: u64 where "upg \<equiv> bumpPtr + 0x3000"

lemma demo_user_ok:
  "\<exists>lo\<le>7. 4 \<le> lo \<and> pt_inv demo_user 2 lo 170 171 \<and> stack_page demo_user 2 lo 170 upg 3 \<and> free_list demo_user = 4096 \<and>
     uimage demo_user 2 lo 170 upg [97, 0, 98, 0] \<and> same_on 0 4096 (kmem demo_user) demo_low"
proof -
  let ?s0 = "paged_st\<lparr>kmem := low_mem demo_low (kmem paged_st)\<rparr>" and ?bs = "[97, 0, 98, 0] :: u8 list"
  have inv0: "pt_inv ?s0 2 3 170 171" by (rule pt_inv_below [OF paged_inv(1)]) (simp add: paged_free_list low_mem_def)
  have us: "bumpPtr + of_nat (4096 * 3) = upg" by simp
  obtain k lo where k: "kmalloc_stack ?s0 1 (frame_ptr 2) = Some (k, upg)" "lo \<le> 3 + 4" "pt_step ?s0 k 2 3 lo 170 171"
      "\<forall>i<4096. upage k 2 lo 170 (upg + of_nat i) 3"
    using kmalloc_stack_ok [OF inv0, folded frame_ptr_def, unfolded us] by force
  have inv: "pt_inv k 2 lo 170 171" "3 \<le> lo" "free_list k = 4096" "same_on 0 4096 (kmem k) (kmem ?s0)"
    using k(3) paged_free_list by (auto simp: pt_step_def)
  have st: "stack_page k 2 lo 170 upg 3" using k(4) by (simp add: stack_page_def bumpPtr_def)
  have three: "3 < lo" "3 \<in> table_frames k lo 170" using k(4) by (auto simp: upage_def table_frames_def dest!: spec [of _ 0])
  have g: "\<forall>i<length ?bs. upage k 2 lo 170 (upg + of_nat i) 3" using k(4) by simp
  have inj: "inj_on (\<lambda>i. upos (upg + of_nat i) 3) {..<length ?bs}"
    by (auto simp: inj_on_def upos_def bumpPtr_def lessThan_Suc)
  obtain m where m: "vst_bytes (kmem k) (of_nat (4096 * 2)) upg ?bs = Some m" "data_only k 2 lo 170 m"
      "\<forall>i<length ?bs. m (upos (upg + of_nat i) 3) = ?bs ! i"
    using vst_bytes_ok [OF inv(1) g inj] by blast
  have eq: "demo_user = k\<lparr>kmem := m\<rparr>" using k(1) m(1) by (simp add: demo_user_def Let_def del: of_nat_mult)
  have "uimage (k\<lparr>kmem := m\<rparr>) 2 lo 170 upg ?bs"
    unfolding uimage_def using m(3) g by (auto simp: upage_write(1) [OF inv(1) m(2)])
  moreover have "same_on 0 4096 m demo_low"
  proof -
    have "m a = kmem k a" if "a < 4096" for a
    proof (rule ccontr)
      assume "m a \<noteq> kmem k a"
      then have "a div 4096 \<in> table_frames k lo 170" using m(2) by (simp add: data_only_def)
      then show False using that inv(3) by (simp add: table_frames_def)
    qed
    then show ?thesis using inv(4) by (auto simp: same_on_def low_mem_def)
  qed
  ultimately show ?thesis
    using k(2) three inv data_write(1) [OF inv(1) m(2)] st unfolding eq
    by (intro exI [of _ lo]) (simp add: stack_page_write [OF inv(1) m(2)])
qed

lemma demo_ksys_fields [simp]:
  "ksys_of demo_os = demo_ksys" "con_in demo_os = blank_con" "kb_in demo_os = fresh_kbd" "fsl demo_os = demo_files"
  "vkst (vm demo_ksys) = demo_user" "cr3 (vm demo_ksys) = of_nat (4096 * 2)"
  by (simp_all add: demo_os_def demo_ksys_def)

lemma demo_queue_ksys: "5 \<le> Suc lo \<Longrightarrow> fl_inv demo_user lo 170 171 \<Longrightarrow> queue_inv demo_ksys [node0, node1] lo 170 171"
proof -
  assume lo: "5 \<le> Suc lo" and fl: "fl_inv demo_user lo 170 171"
  have d: "queue_inv (demo node1 node0 1) [node0, node1] 2 170 171" by (rule demo_inv)
  then have "ready_queue demo_ksys [node0, node1]"
    using ready_queue_cong [of "demo node1 node0 1" "[node0, node1]" demo_ksys] by (simp add: queue_inv_def demo_ksys_def)
  moreover have "nodes_below demo_ksys lo"
  proof -
    have "\<exists>f<lo. x = frame_ptr f" if "rtasks demo_ksys x \<noteq> None" for x
    proof -
      have "rtasks (demo node1 node0 1) x \<noteq> None" using that by (simp add: demo_ksys_def)
      then obtain f where "f < 2" "x = frame_ptr f" using d unfolding queue_inv_def nodes_below_def by blast
      then show ?thesis using lo by (intro exI [of _ f]) simp
    qed
    then show ?thesis by (simp add: nodes_below_def)
  qed
  ultimately show ?thesis using fl d by (simp add: queue_inv_def demo_ksys_def)
qed

lemma pieces_none: "d \<notin> set t \<Longrightarrow> pieces d cur t = [cur @ t]"
  by (induction t arbitrary: cur) auto

lemma length_cat_text: "length (cat_text d) = length d + (length d - 1) div 59"
proof (induction d rule: cat_text.induct)
  case (1 d)
  show ?case
  proof (cases "length d < 60")
    case False
    then obtain j where j: "length d = j + 60" by (metis add.commute le_Suc_ex not_less)
    have "length (cat_text d) = 60 + (length (drop 59 d) + (length (drop 59 d) - 1) div 59)"
      using 1 False by (subst cat_text.simps) simp
    then show ?thesis using j by simp
  qed (subst cat_text.simps, simp)
qed

lemma demo_texts:
  assumes "uimage demo_user 2 lo 170 upg [97, 0, 98, 0]"
  shows "uimage demo_user 2 lo 170 upg [97, 0]" "uimage demo_user 2 lo 170 (upg + 2) [98, 0]"
proof -
  show "uimage demo_user 2 lo 170 upg [97, 0]" using assms by (simp add: uimage_def All_less_Suc)
  have "upg + of_nat (2 + i) = upg + 2 + of_nat i" for i by simp
  then show "uimage demo_user 2 lo 170 (upg + 2) [98, 0]"
    using assms unfolding uimage_def by (auto simp: less_Suc_eq numeral_2_eq_2 dest: spec [of _ 2] spec [of _ 3])
qed

lemma demo_text: "user_text demo_os upg = Some [97]" "user_text demo_os (upg + 2) = Some [98]"
proof -
  obtain lo where lo: "pt_inv demo_user 2 lo 170 171" "uimage demo_user 2 lo 170 upg [97, 0, 98, 0]" using demo_user_ok by blast
  note u = demo_texts [OF lo(2)]
  show "user_text demo_os upg = Some [97]" "user_text demo_os (upg + 2) = Some [98]"
    using utext_uimage [OF lo(1), of upg "[97]"] utext_uimage [OF lo(1), of "upg + 2" "[98]"] u by (simp_all add: user_text_def del: of_nat_mult)
qed

lemma demo_exec_ready: "\<exists>lo. exec_ready demo_env demo_os upg (upg + 2) [97] [98] 2 2 lo 170 171 [] node0 node1 [] (VADDR 0) (PATH @ [97]) [demo_ph1, demo_ph2]"
proof -
  obtain lo where lo: "lo \<le> 7" "4 \<le> lo" "pt_inv demo_user 2 lo 170 171" "stack_page demo_user 2 lo 170 upg 3" "free_list demo_user = 4096"
      "uimage demo_user 2 lo 170 upg [97, 0, 98, 0]" "same_on 0 4096 (kmem demo_user) demo_low"
    using demo_user_ok by blast
  have q: "queue_inv demo_ksys [node0, node1] lo 170 171" using demo_queue_ksys [of lo] lo(2,3) by (simp add: pt_inv_def)
  have u: "uimage demo_user 2 lo 170 upg [97, 0]" "uimage demo_user 2 lo 170 (upg + 2) [98, 0]" by (rule demo_texts [OF lo(6)])+
  have m: "kmem demo_user a = demo_low a" if "a < 4096" for a using lo(7) that by (simp add: same_on_def)
  have ph: "phdr_at (kmem demo_user) 576 = demo_ph1" "phdr_at (kmem demo_user) 632 = demo_ph2"
      "e_phoff (ehdr_at (kmem demo_user) 512) = 64" "e_phnum (ehdr_at (kmem demo_user) 512) = 2"
    by (simp_all add: phdr_at_def ehdr_at_def ld64_def ld32_def ld16_def ldn_numeral m demo_low_def demo_elf_def demo_ph1_def demo_ph2_def)
  have l: "loc (VADDR 0) = 0" "loc (VADDR 0 + 512) = 512" "loc (VADDR 0 + 512 + 64) = 576" "loc (VADDR 0 + 512 + 64 + 56) = 632"
      "seg_src (VADDR 0 + 512) demo_ph1 = 688" "seg_src (VADDR 0 + 512) demo_ph2 = 691"
    by (simp_all add: seg_src_def loc_def VADDR_def KERNEL_VADDR_def demo_ph1_def demo_ph2_def)
  have pg: "seg_pages demo_ph1 = 1" "seg_pages demo_ph2 = 1"
    by (simp_all add: seg_pages_def region_pages_def demo_ph1_def demo_ph2_def)
  have ld: "loads [demo_ph1, demo_ph2] = [demo_ph1, demo_ph2]" by (simp add: demo_ph1_def demo_ph2_def)
  have free: "tasks demo_ksys (frame_ptr (lo + 1)) = None" "tasks demo_ksys (frame_ptr (lo + 2)) = None"
  proof -
    have "lo \<in> {4, 5, 6, 7}" using lo(1,2) by auto
    then show "tasks demo_ksys (frame_ptr (lo + 1)) = None" "tasks demo_ksys (frame_ptr (lo + 2)) = None"
      by (auto simp: demo_ksys_def demo_def demo_tasks_def frame_ptr_def VADDR_def KERNEL_VADDR_def)
  qed
  have f: "ker_pml4_t (vm demo_ksys) = VADDR (of_nat (4096 * 2))" "PID demo_ksys = 4" "running_task demo_ksys = node1" "previous demo_ksys = node0"
    by (simp_all add: demo_ksys_def demo_def)
  have pl: "length (PATH @ [97]) = 5" "0 \<notin> set (PATH @ [97])" by (simp_all add: PATH_def lit_def of_char_def)
  have "cstr (kmem demo_user) 0 (PATH @ [97])"
    unfolding cstr_def holds_def using pl by (auto simp: m demo_low_def text_fun_def nth_append)
  moreover have "hdrs (kmem demo_user) 4096 (VADDR 0 + 512 + 64) [demo_ph1, demo_ph2]"
    by (simp only: hdrs.simps l ph) simp
  moreover have "segs_ok 4096 (VADDR 0 + 512) [demo_ph1, demo_ph2]"
    unfolding segs_ok.simps seg_ok_def l second_ok_def seg_apart_def pg by (simp add: demo_ph1_def demo_ph2_def)
  ultimately have prog: "program_at demo_ksys 2 lo 170 171 (VADDR 0 + 512) (VADDR 0) (PATH @ [97]) [demo_ph1, demo_ph2]"
    unfolding program_at_def Let_def demo_ksys_fields l f lo(5) ph ld
    using free(1) lo(1,3) pl by (simp add: segs_room_def pg int_ok_def)
  have op: "open_loop (tarfs_list demo_files) (PATH @ [97]) = Some (Some \<lparr>te_name = PATH @ [97], te_size = 192, te_addr = VADDR 0, te_type = 0\<rparr>)"
    by (simp add: demo_files_def)
  show ?thesis
    unfolding exec_ready_def Let_def demo_ksys_fields f ld
    using q lo(1,3) u pl prog free(2) op by (intro exI [of _ lo]) (simp add: demo_env_def int_ok_def segs_room_def pg del: of_nat_mult)
qed

section \<open>Properties\<close>

text \<open>
  C8. exec replaces the running task. When the running task is not the head of the queue and the file of the
  command holds a program, the call returns into the scheduler with the running task removed and a new task at
  the end of the queue that has the numbers of the old one; the counter for numbers is as before. Its page
  tables map the segments of the file, it starts at the entry point of the file, and it gets the argument only
  when the argument is not empty and differs from the command.
\<close>

theorem exec_replaces:
  assumes "exec_ready env o' buf third nm arg root kroot lo hi n us p x vs hdr fnm phs" and "num = 7 \<or> num = 8"
  shows "\<exists>o1 y t lo'. syscall_handler env o' num buf third fourth keys = Some (o1, keys, Unset) \<and>
    queue_inv (ksys_of o1) (us @ p # vs @ [y]) lo' hi n \<and> running_task (ksys_of o1) \<in> set (us @ p # vs @ [y]) \<and>
    ntask (ksys_of o1) y = t \<and> pid t = pid (ntask (ksys_of o') x) \<and> ppid t = ppid (ntask (ksys_of o') x) \<and>
    PID (ksys_of o1) = PID (ksys_of o') \<and> kstack t 507 = e_entry (ehdr_at (kmem_of (ksys_of o')) (loc (hdr + 512))) \<and>
    kstack t 506 = (if arg \<noteq> [] \<and> arg \<noteq> nm then 1 else 0) \<and>
    (\<forall>ph\<in>set (loads phs). \<forall>i<unat (p_memsz ph). vld8 (kmem_of (ksys_of o1)) (t_cr3 t) (p_vaddr ph + of_nat i) =
       Some (if i < unat (p_filesz ph) then kmem_of (ksys_of o') (seg_src (hdr + 512) ph + i) else 0))"
proof -
  let ?s = "ksys_of o'"
  obtain o1 y t k lo' where r: "sys_exec env o' buf third = Some o1" "queue_inv (ksys_of o1) ((us @ p # vs) @ [y]) lo' hi n"
      "running_task (ksys_of o1) \<in> set ((us @ p # vs) @ [y])" "ntask (ksys_of o1) y = t" "pid t = pid (ntask ?s x)"
      "ppid t = ppid (ntask ?s x)" "PID (ksys_of o1) = PID ?s" "kstack t 507 = e_entry (ehdr_at (kmem_of ?s) (loc (hdr + 512)))"
      "kstack t 506 = (if arg \<noteq> [] \<and> arg \<noteq> nm then 1 else 0)" "t_cr3 t = of_nat (4096 * (lo + 1))" "vkst (vm (ksys_of o1)) = k"
      "pt_inv k (lo + 1) lo' hi n" "\<forall>ph\<in>set (loads phs). uimage k (lo + 1) lo' hi (p_vaddr ph) (seg_bytes (kmem_of ?s) (hdr + 512) ph)"
    using sys_exec_ok [OF assms(1)] by (elim exE conjE) (rule that)
  have "vld8 (kmem_of (ksys_of o1)) (t_cr3 t) (p_vaddr ph + of_nat i) =
      Some (if i < unat (p_filesz ph) then kmem_of ?s (seg_src (hdr + 512) ph + i) else 0)"
    if ph: "ph \<in> set (loads phs)" and i: "i < unat (p_memsz ph)" for ph i
  proof -
    have "seg_ok (unat (free_list (vkst (vm ?s)))) (hdr + 512) ph"
      using assms(1) segs_ok_all [OF _ ph] by (auto simp: exec_ready_def program_at_def Let_def)
    then have "p_filesz ph \<le> p_memsz ph" by (simp add: seg_ok_def)
    then have len: "length (seg_bytes (kmem_of ?s) (hdr + 512) ph) = unat (p_memsz ph)" by simp
    have "vld8 (kmem k) (of_nat (4096 * (lo + 1))) (p_vaddr ph + of_nat i) = Some (seg_bytes (kmem_of ?s) (hdr + 512) ph ! i)"
      using uimage_read [OF r(12) bspec [OF r(13) ph]] i len by simp
    then show ?thesis using i unfolding r(10,11) by (simp add: seg_bytes_def nth_append del: of_nat_mult)
  qed
  moreover have "syscall_handler env o' num buf third fourth keys = Some (o1, keys, Unset)"
    using assms(2) r(1) by (auto simp: syscall_handler_def unset_def)
  ultimately show ?thesis using r(2-9) by (intro exI [of _ o1] exI [of _ y] exI [of _ t] exI [of _ lo']) simp
qed

theorem exec_replaces_witness:
  "\<exists>o1 y t lo'. syscall_handler demo_env demo_os 8 upg (upg + 2) 0 [] = Some (o1, [], Unset) \<and>
     queue_inv (ksys_of o1) [node0, y] lo' 170 171 \<and> ntask (ksys_of o1) y = t \<and> pid t = 2 \<and> ppid t = 1 \<and> kstack t 506 = 1 \<and>
     vld8 (kmem_of (ksys_of o1)) (t_cr3 t) (0x400000 + of_nat 1) = Some 12"
proof -
  obtain lo where r: "exec_ready demo_env demo_os upg (upg + 2) [97] [98] 2 2 lo 170 171 [] node0 node1 [] (VADDR 0) (PATH @ [97]) [demo_ph1, demo_ph2]"
    using demo_exec_ready by blast
  have nt: "pid (ntask demo_ksys node1) = 2" "ppid (ntask demo_ksys node1) = 1"
    by (simp_all add: demo_ksys_def ntask_def nproc_def demo_def demo_nodes_def demo_tasks_def)
  have ph: "demo_ph1 \<in> set (loads [demo_ph1, demo_ph2])" "p_vaddr demo_ph1 = 0x400000" "p_memsz demo_ph1 = 5" "p_filesz demo_ph1 = 3"
      "seg_src (VADDR 0 + 512) demo_ph1 = 688"
    by (simp_all add: demo_ph1_def seg_src_def loc_def VADDR_def KERNEL_VADDR_def)
  have m: "kmem demo_user 689 = 12" using demo_user_ok by (auto simp: same_on_def demo_low_def demo_elf_def)
  obtain o1 y t lo' where e: "syscall_handler demo_env demo_os 8 upg (upg + 2) 0 [] = Some (o1, [], Unset)"
      "queue_inv (ksys_of o1) ([] @ node0 # [] @ [y]) lo' 170 171" "ntask (ksys_of o1) y = t" "pid t = pid (ntask (ksys_of demo_os) node1)"
      "ppid t = ppid (ntask (ksys_of demo_os) node1)" "kstack t 506 = (if [98] \<noteq> [] \<and> [98] \<noteq> [97 :: u8] then 1 else 0)"
      "\<forall>ph\<in>set (loads [demo_ph1, demo_ph2]). \<forall>i<unat (p_memsz ph). vld8 (kmem_of (ksys_of o1)) (t_cr3 t) (p_vaddr ph + of_nat i) =
         Some (if i < unat (p_filesz ph) then kmem_of (ksys_of demo_os) (seg_src (VADDR 0 + 512) ph + i) else 0)"
    using exec_replaces [OF r, of 8 0 "[]"] by (auto simp del: demo_ksys_fields)
  have "vld8 (kmem_of (ksys_of o1)) (t_cr3 t) (0x400000 + of_nat 1) = Some 12"
    using e(7) [rule_format, OF ph(1), of 1] by (simp add: ph(2-5) m)
  then show ?thesis using e(1-6) nt by (intro exI [of _ o1] exI [of _ y] exI [of _ t] exI [of _ lo']) simp
qed



text \<open>
  C24. WRITE prints one character more than the count when the text is longer than the count, and returns the
  number it printed. Its copy needs a byte more than the array has: the call is defined exactly when the
  compiler leaves room for it, so with the room C promises every text that is printed whole runs over the end.
\<close>

theorem write_prints_prefix:
  assumes "user_text o' third = Some t" and "con_term (con_in o') u" and "length t < 100"
  shows "let sub = take (if fourth < of_nat (length t) then unat fourth + 1 else length t) t in
    if length sub < room env (length t) then
      \<exists>o1. syscall_handler env o' 1 buf third fourth keys = Some (o1, keys, Moved (of_nat (length sub))) \<and> ksys_of o1 = ksys_of o' \<and>
        con_term (con_in o1) (fold term_put ((if buf = 1 then [] else lit ''STDERR: '') @ sub) u)
    else syscall_handler env o' 1 buf third fourth keys = None"
proof -
  let ?sub = "take (if fourth < of_nat (length t) then unat fourth + 1 else length t) t"
  let ?out = "(if buf = 1 then [] else lit ''STDERR: '') @ ?sub"
  have "length ?sub < 100" using assms(3) by simp
  then obtain c where c: "(if buf = 1 then kprint o' (lit ''%s'') [AStr ?sub] else kprint o' (lit ''STDERR: %s'') [AStr ?sub]) = Some (set_con o' c)"
      "con_term c (fold term_put ?out u)"
    using kprint_s [OF assms(2), of ?sub] kprint_stderr [OF assms(2), of ?sub] by (cases "buf = 1") auto
  have "sys_write env o' buf third fourth =
      (if length ?sub < room env (length t) then Some (set_con o' c, Moved (of_nat (length ?sub))) else None)"
    unfolding sys_write_def assms(1) bind.bind_lunit write_text [OF assms(3)] Let_def using c(1) by (simp cong: if_cong)
  then show ?thesis using c(2) by (simp add: Let_def syscall_handler_def with_rax_def)
qed

theorem write_prints_prefix_witness:
  "(\<exists>o1. syscall_handler demo_env demo_os 1 2 upg 0 [] = Some (o1, [], Moved 1) \<and>
      con_term (con_in o1) (fold term_put (lit ''STDERR: '' @ [97]) blank_terminal)) \<and>
   syscall_handler (demo_env\<lparr>room := (\<lambda>n. n)\<rparr>) demo_os 1 1 upg 5 [] = None"
proof -
  have c: "con_term (con_in demo_os) blank_terminal" by (simp add: blank_con_term)
  show ?thesis
    using write_prints_prefix [OF demo_text(1) c, of 0 demo_env 2 "[]"] write_prints_prefix [OF demo_text(1) c, of 5 "demo_env\<lparr>room := (\<lambda>n. n)\<rparr>" 1 "[]"]
    by (auto simp: Let_def demo_env_def)
qed



end
