(* ===== verification/Spec2Isabelle.thy ===== *)
theory Spec2Isabelle
  imports BootMap Ptops Gdt Syscalls
begin

text \<open>
  \<^bold>\<open>A verification library for the bgox kernel\<close> (SBUnix, a small 64-bit teaching kernel in C).

  \<^bold>\<open>The program.\<close> The kernel boots with a list of usable memory, builds a list of page
  descriptors behind its image, maps all memory into a direct map, sets up segments and interrupt
  gates, and starts programs from an archive that is linked into the image. Tasks are in a singly
  linked queue; the timer interrupt counts the sleepers down and system calls switch to the next
  task that neither sleeps nor waits. The console is the text buffer of the display, the keyboard
  interrupt fills one line buffer.

  \<^bold>\<open>The model.\<close> Physical memory is a function from addresses to bytes (\<open>mem\<close>); \<open>loc\<close>
  reads a kernel pointer through the direct map. A C function is a function of the state with an
  optional result: \<open>None\<close> stands for undefined behaviour (a null pointer, a signed overflow, an access
  without a mapping) and for a loop that does not end. Words have their width; an \<^verbatim>\<open>int\<close> is an
  integer with \<open>int_ok\<close> at every operation that can overflow. Task structures, queue nodes and
  \<^verbatim>\<open>mm_struct\<close>s are in typed stores keyed by the pointers that \<^verbatim>\<open>kmalloc\<close> returns; page
  descriptors, page tables, memory areas, strings, the archive and user pages are bytes in memory.

  \<^bold>\<open>Memory.\<close>
  \<^item> \<open>Prelude\<close>, \<open>CMemory\<close>: words, C integers, the direct map of paging.h, loads and stores, \<^verbatim>\<open>memcpy\<close> and
    \<^verbatim>\<open>memset\<close> of src/sys/utils.c.
  \<^item> \<open>CStrings\<close>, \<open>Utils\<close>: src/sys/strings.c and the number routines of src/sys/utils.c. Each routine is proved
    equal to an operation on lists; printing a number and reading it back gives the number.
  \<^item> \<open>FrameAlloc\<close>: the page descriptors of src/sys/mem.c. \<^verbatim>\<open>calculate_free_list\<close> establishes the
    invariant \<open>fl_inv\<close>, \<^verbatim>\<open>kmalloc\<close> keeps it and returns zeroed blocks that are disjoint from each other and from the
    descriptors, except for the last descriptors, which lie in the first page that is handed out.
  \<^item> \<open>Ptops\<close>: src/sys/ptops.c. \<open>PageTree\<close>, \<open>Paging\<close>, \<open>BootMap\<close>: src/sys/paging.c, with \<^verbatim>\<open>region_alloc\<close> and
    \<^verbatim>\<open>kmalloc_stack\<close> of mem.c. The page tables are a tree without sharing (\<open>pt_inv\<close>); mapping a page changes the
    abstract map at that page only; \<^verbatim>\<open>init_paging\<close> builds the direct map the model reads pointers through.

  \<^bold>\<open>Tasks.\<close>
  \<^item> \<open>Links\<close>: chains of pointers. \<open>Process\<close> holds the state and the operations of src/sys/process.c and
    \<^verbatim>\<open>vma_malloc\<close>; \<open>TaskQueue\<close> shows that the queue operations keep a list (\<open>ready_queue\<close>, \<open>queue_inv\<close>),
    \<open>Scheduler\<close> which task \<^verbatim>\<open>schedule\<close> selects and that a ready task runs within one round, \<open>TaskCalls\<close> the
    calls exit, kill, waitpid and sleep.
  \<^item> \<open>UserMem\<close>: loads and stores through page tables. \<open>Elf64\<close>: src/sys/elf64.c; the new address space holds the
    segments of the file. \<open>Fork\<close>: \<^verbatim>\<open>sys_fork\<close>; the child has its parent's stack, and shares its lower page tables.
  \<^item> \<open>Stubs\<close>: the entries of src/sys/isr.s and gisr.s as instruction lists, and \<^verbatim>\<open>switch_to\<close> returning into them.
    An interrupt is transparent to the program; a new program and a forked child start where they should.

  \<^bold>\<open>Devices, files and system calls.\<close>
  \<^item> \<open>Console\<close>: src/sys/kprintf.c, which refines writing on a terminal of 24 lines. \<open>Keyboard\<close>: \<^verbatim>\<open>irq_kb_handler\<close>
    and kb_map.h, which refine a line editor. \<open>Gdt\<close>: src/sys/gdt.c and \<^verbatim>\<open>idt_init\<close>. \<open>Interrupts\<close>: the timer, the
    interrupt controllers and the exceptions of src/sys/gidt.c.
  \<^item> \<open>Tarfs\<close>: src/sys/tarfs.c; an archive in memory can be listed, opened and read.
  \<^item> \<open>Syscalls\<close>: \<^verbatim>\<open>syscall_handler\<close> and \<^verbatim>\<open>page_fault_handler\<close> of src/sys/idt.c and \<^verbatim>\<open>load_sbush\<close> of
    src/sys/main.c, over the state of all components. exec replaces the running task, READ delivers the typed line, WRITE
    prints a prefix of its text, cat ends on every text file.

  \<^bold>\<open>Interfaces.\<close> \<open>cell_store\<close> (typed cells in memory), \<open>direct_map\<close> (addresses through the direct map),
  \<open>frame_source\<close> (allocation of pages), \<open>entry_ops\<close> (accessors of an entry) and \<open>linked\<close> (nodes with a next pointer) are
  locales; each is interpreted on the definitions of the component that provides it.

  \<^bold>\<open>Bounds.\<close> No definition has fuel. Loops over arrays are structural or have a measure; loops that may run forever are
  partial functions, and the theorems about them prove that they return. Sizes that the code fixes appear as they are: 100
  bytes per line of \<^verbatim>\<open>kprintf\<close>, 1024 bytes of keyboard buffer, 1024 archive members, 512 entries per table. The theorems
  on \<^verbatim>\<open>sys_fork\<close> take a parent with one memory area, those on the loader at most two loaded segments, the second
  one starting at least 64 bytes into its page: \<^verbatim>\<open>vma_malloc\<close> places the second memory area in that page.

  \<^bold>\<open>Simplifications.\<close> The direct map is used for every kernel pointer, also before \<^verbatim>\<open>init_paging\<close> has built it.
  Routines outside the console record what they print instead of drawing it, so the order of such messages and direct
  output is not modelled. A call that switches tasks is followed to the switch; what it computes afterwards is computed in
  the state right after the switch. Keyboard interrupts happen between two iterations of a polling loop.

  \<^bold>\<open>Not modelled.\<close> The start sequence of src/sys/main.c, which walks the loader's memory list and changes stacks
  around calls that are modelled. Device registers: the disk controller (src/sys/pci.c) and the local interrupt controller,
  which are not called. src/sys/ptmgr.c, an unused predecessor of paging.c. src/sys/gdt.s, single privileged instructions.
  The programs and the library in user mode (src/bin, src/libc, src/crt): each call is one interrupt, whose kernel side is
  modelled.
\<close>

end
